(* ===== verification/Prelude.thy ===== *)
theory Prelude
  imports Main "HOL-Library.Word" "HOL-Library.Monad_Syntax"
begin

text \<open>
  Shared base of the mysh development: the theorem collections, the generic facts on
  lists and words, the result type of code that can commit undefined behaviour, and the
  trace of visible system calls.

  \<^item> A value of type \<open>'a checked\<close> is \<open>Some x\<close> when the C code runs to its return with
    result \<open>x\<close>, and \<open>None\<close> when it performs an access that C leaves undefined and the
    sanitizers of src/src/Makefile turn into an abort (a write past the end of an array, a
    read past it, a use after free, a free of a pointer that malloc did not return).
  \<^item> A \<open>size_t\<close> is a \<open>64 word\<close>, so that the unsigned subtractions of the source wrap as
    they do in C.
  \<^item> Every function that writes to the terminal, or makes another system call whose
    effect is visible outside, returns the list of its \<open>event\<close>s, in order.
\<close>

section \<open>Collections\<close>

named_theorems mysh_defs \<open>definitions of the operations, unfolded together\<close>
named_theorems mysh_inv \<open>preservation of the invariants\<close>

section \<open>Checked results\<close>

type_synonym 'a checked = "'a option"

abbreviation fault :: "'a checked" where
  "fault \<equiv> None"

definition require :: "bool \<Rightarrow> unit checked" where
  "require b = (if b then Some () else fault)"

lemma require_simps [simp]:
  "require True = Some ()" "require False = fault"
  by (simp_all add: require_def)

lemma require_eq_Some [simp]: "require b = Some u \<longleftrightarrow> b"
  by (simp add: require_def)

lemma bind_require [simp]:
  "Option.bind (require b) f = (if b then f () else fault)"
  by (simp add: require_def)

text \<open>A checked fold: the first fault ends the loop.\<close>

fun foldM :: "('a \<Rightarrow> 's \<Rightarrow> 's checked) \<Rightarrow> 'a list \<Rightarrow> 's \<Rightarrow> 's checked" where
  "foldM f [] s = Some s"
| "foldM f (x # xs) s = Option.bind (f x s) (foldM f xs)"

lemma foldM_append: "foldM f (xs @ ys) s = Option.bind (foldM f xs s) (foldM f ys)"
proof (induction xs arbitrary: s)
  case (Cons x xs)
  then show ?case by (cases "f x s") simp_all
qed simp

lemma foldM_invariant:
  assumes "foldM f xs s = Some t" and "I s"
    and "\<And>x s s'. x \<in> set xs \<Longrightarrow> I s \<Longrightarrow> f x s = Some s' \<Longrightarrow> I s'"
  shows "I t"
  using assms
proof (induction xs arbitrary: s)
  case (Cons x xs)
  from Cons.prems(1) obtain u where u: "f x s = Some u" "foldM f xs u = Some t"
    by (auto split: Option.bind_splits)
  have "I u" using Cons.prems(2) u(1) Cons.prems(3)[of x s u] by simp
  then show ?case by (rule Cons.IH[OF u(2)]) (auto intro: Cons.prems(3))
qed simp

section \<open>Visible system calls\<close>

datatype event =
    Out string          \<comment> \<open>write to standard output\<close>
  | Err string          \<comment> \<open>write to standard error\<close>
  | Chdir string        \<comment> \<open>successful chdir\<close>
  | Kill int int        \<comment> \<open>successful kill of a process with a signal\<close>
  | Open string         \<comment> \<open>successful fopen or opendir\<close>
  | Close_File          \<comment> \<open>fclose or closedir\<close>
  | Send int string     \<comment> \<open>bytes written to a socket\<close>
  | Close_Fd int        \<comment> \<open>close of a descriptor\<close>
  | Pipe int int        \<comment> \<open>pipe: the read end and the write end\<close>

fun stdout_of :: "event list \<Rightarrow> string" where
  "stdout_of [] = []"
| "stdout_of (Out s # es) = s @ stdout_of es"
| "stdout_of (_ # es) = stdout_of es"

fun sent_to :: "int \<Rightarrow> event list \<Rightarrow> string" where
  "sent_to fd [] = []"
| "sent_to fd (Send f s # es) = (if f = fd then s @ sent_to fd es else sent_to fd es)"
| "sent_to fd (_ # es) = sent_to fd es"

lemma stdout_of_append [simp]: "stdout_of (xs @ ys) = stdout_of xs @ stdout_of ys"
  by (induction xs rule: stdout_of.induct) auto

lemma sent_to_append [simp]: "sent_to fd (xs @ ys) = sent_to fd xs @ sent_to fd ys"
  by (induction fd xs rule: sent_to.induct) auto

section \<open>Lists\<close>

lemma takeWhile_all_iff: "takeWhile P xs = xs \<longleftrightarrow> (\<forall>x\<in>set xs. P x)"
  by (induction xs) auto

lemma take_append_le: "length xs \<le> n \<Longrightarrow> take n (xs @ ys) = xs @ take (n - length xs) ys"
  by simp

lemma concat_replicate_Nil [simp]: "concat (replicate n []) = []"
  by (induction n) auto

text \<open>A loop that walks an array while a test holds, and the list it walks over.\<close>

lemma nth_prefix_induct:
  assumes "\<And>i. n \<le> i \<Longrightarrow> P i" and "\<And>i. i < n \<Longrightarrow> P (Suc i) \<Longrightarrow> P i"
  shows "P (i::nat)"
proof (induction "n - i" arbitrary: i)
  case 0
  then show ?case using assms(1) by simp
next
  case (Suc k)
  then have "i < n" and "k = n - Suc i" by simp_all
  then show ?case using Suc.hyps(1) assms(2) by blast
qed

section \<open>size_t arithmetic\<close>

type_synonym size_t = "64 word"

lemma unat_sub_size: "unat m \<le> unat (n::size_t) \<Longrightarrow> unat (n - m) = unat n - unat m"
  by (simp add: unat_sub word_le_nat_alt)

lemma unat_of_nat_small: "n < 2 ^ 64 \<Longrightarrow> unat (of_nat n :: size_t) = n"
  by (simp add: unat_of_nat take_bit_nat_eq_self_iff unsigned_of_nat)

text \<open>Subtracting a length that fits is exact; one that does not fit wraps.\<close>

lemma unat_sub_of_nat:
  assumes "k \<le> unat (n::size_t)"
  shows "unat (n - of_nat k) = unat n - k"
proof -
  have "unat n < 2 ^ 64" using unsigned_less[of n, where ?'a = nat] by simp
  then have "k < 2 ^ 64" using assms by linarith
  then have "unat (of_nat k :: size_t) = k" by (rule unat_of_nat_small)
  then show ?thesis using assms unat_sub_size[of "of_nat k" n] by simp
qed

lemma unat_sub_of_nat_wrap:
  assumes "unat (n::size_t) < k" and "k < 2 ^ 64"
  shows "unat (n - of_nat k) = 2 ^ 64 + unat n - k"
proof -
  have k: "unat (of_nat k :: size_t) = k" using assms(2) by (rule unat_of_nat_small)
  have lt: "n < of_nat k" using assms(1) by (simp add: word_less_nat_alt k)
  have "uint (n - of_nat k) = uint n - uint (of_nat k :: size_t) + 2 ^ 64"
    using lt by (simp add: uint_sub_if' word_less_def not_le)
  then have "int (unat (n - of_nat k)) = int (unat n) - int k + 2 ^ 64"
    by (simp only: uint_nat k)
  also have "\<dots> = int (2 ^ 64 + unat n - k)" using assms(2) by simp
  finally show ?thesis by (simp only: of_nat_eq_iff)
qed

lemma list_all2_right: "list_all2 P xs ys \<Longrightarrow> y \<in> set ys \<Longrightarrow> \<exists>x\<in>set xs. P x y"
  by (induction rule: list_all2_induct) auto

end
