(* ===== verification/C_Strings.thy ===== *)
theory C_Strings
  imports Prelude
begin

text \<open>
  The part of the C library on strings and characters that mysh uses, as its documentation
  states it. A C string is modelled by the list of its bytes before the terminating NUL; an
  array of \<open>cap\<close> bytes that holds a string \<open>s\<close> satisfies \<open>length s < cap\<close>, and a call that
  would write past the array is a fault. The locale is "C" (mysh never calls setlocale), so
  the character classes are the ASCII ones. \<open>atoi\<close> is glibc's: strtol, which saturates at
  the bounds of a 64-bit long, converted to a 32-bit int.
\<close>

section \<open>Character classes\<close>

definition isdigit :: "char \<Rightarrow> bool" where
  "isdigit c = (48 \<le> (of_char c :: nat) \<and> (of_char c :: nat) \<le> 57)"

definition isalpha :: "char \<Rightarrow> bool" where
  "isalpha c = (let n = (of_char c :: nat) in (65 \<le> n \<and> n \<le> 90) \<or> (97 \<le> n \<and> n \<le> 122))"

definition isspace :: "char \<Rightarrow> bool" where
  "isspace c = (let n = (of_char c :: nat) in n = 32 \<or> (9 \<le> n \<and> n \<le> 13))"

abbreviation NUL :: char where "NUL \<equiv> CHR 0x00"
abbreviation CR :: char where "CR \<equiv> CHR 0x0D"
abbreviation LF :: char where "LF \<equiv> CHR 0x0A"

section \<open>Reading and comparing\<close>

text \<open>The string a byte array holds: what precedes its first NUL.\<close>

definition cstr :: "string \<Rightarrow> string" where
  "cstr bs = takeWhile (\<lambda>c. c \<noteq> NUL) bs"

lemma cstr_id: "NUL \<notin> set bs \<Longrightarrow> cstr bs = bs"
  unfolding cstr_def takeWhile_all_iff by auto

text \<open>strncmp(a, b, n) == 0, for strings without NUL.\<close>

definition strncmp_eq :: "nat \<Rightarrow> string \<Rightarrow> string \<Rightarrow> bool" where
  "strncmp_eq n a b = (take n a = take n b)"

definition strchr :: "string \<Rightarrow> char \<Rightarrow> nat option" where
  "strchr s c = (if c \<in> set s then Some (length (takeWhile (\<lambda>x. x \<noteq> c) s)) else None)"

fun strstr :: "string \<Rightarrow> string \<Rightarrow> bool" where
  "strstr needle [] = (needle = [])"
| "strstr needle (c # cs) = (take (length needle) (c # cs) = needle \<or> strstr needle cs)"

section \<open>Writing\<close>

text \<open>
  \<open>strncat cap dst src n\<close>: append at most \<open>n\<close> bytes of \<open>src\<close> and a NUL to the string \<open>dst\<close>
  in an array of \<open>cap\<close> bytes; \<open>strcat\<close> is the same without a limit. \<open>snprintf n s\<close> is what
  a buffer of \<open>n\<close> bytes holds after the formatted text \<open>s\<close> was printed to it.
\<close>

definition strncat :: "nat \<Rightarrow> string \<Rightarrow> string \<Rightarrow> nat \<Rightarrow> string checked" where
  "strncat cap dst src n =
     (let r = dst @ take n src in if length r < cap then Some r else fault)"

definition strcat :: "nat \<Rightarrow> string \<Rightarrow> string \<Rightarrow> string checked" where
  "strcat cap dst src = (let r = dst @ src in if length r < cap then Some r else fault)"

definition snprintf :: "nat \<Rightarrow> string \<Rightarrow> string" where
  "snprintf n s = take (n - 1) s"

lemma strncat_Some: "strncat cap dst src n = Some r \<longleftrightarrow> r = dst @ take n src \<and> length r < cap"
  by (auto simp: strncat_def Let_def)

lemma strncat_Nil [simp]: "strncat cap dst [] n = (if length dst < cap then Some dst else fault)"
  by (simp add: strncat_def)

lemma strncat_fits:
  "length dst + length src < cap \<Longrightarrow> length src \<le> n \<Longrightarrow> strncat cap dst src n = Some (dst @ src)"
  by (simp add: strncat_def)

lemma strcat_Some: "strcat cap dst src = Some r \<longleftrightarrow> r = dst @ src \<and> length r < cap"
  by (auto simp: strcat_def Let_def)

lemma length_snprintf: "0 < n \<Longrightarrow> length (snprintf n s) < n"
  by (simp add: snprintf_def)

lemma snprintf_fits: "length s < n \<Longrightarrow> snprintf n s = s"
  by (simp add: snprintf_def)

section \<open>strtok\<close>

text \<open>
  One call of strtok on the text not yet scanned: skip delimiters, return the run of other
  characters, resume after the delimiter that ends it.
\<close>

definition strtok :: "string \<Rightarrow> string \<Rightarrow> (string \<times> string) option" where
  "strtok ds s =
     (case dropWhile (\<lambda>c. c \<in> set ds) s of
        [] \<Rightarrow> None
      | t \<Rightarrow> Some (takeWhile (\<lambda>c. c \<notin> set ds) t, tl (dropWhile (\<lambda>c. c \<notin> set ds) t)))"

lemma strtok_shorter: "strtok ds s = Some (t, r) \<Longrightarrow> length r < length s"
proof -
  assume a: "strtok ds s = Some (t, r)"
  then obtain x xs where d: "dropWhile (\<lambda>c. c \<in> set ds) s = x # xs"
    and r: "r = tl (dropWhile (\<lambda>c. c \<notin> set ds) (x # xs))"
    by (auto simp: strtok_def split: list.splits)
  have "x \<notin> set ds" using d by (metis hd_dropWhile list.distinct(1) list.sel(1))
  then have "length r \<le> length xs"
    using r length_dropWhile_le[of "\<lambda>c. c \<notin> set ds" xs] by simp
  moreover have "length (x # xs) \<le> length s" using d by (metis length_dropWhile_le)
  ultimately show ?thesis by simp
qed

text \<open>The loop every caller runs: all tokens, in order.\<close>

function strtok_all :: "string \<Rightarrow> string \<Rightarrow> string list" where
  "strtok_all ds s =
     (case strtok ds s of None \<Rightarrow> [] | Some (t, r) \<Rightarrow> t # strtok_all ds r)"
  by pat_completeness auto
termination
  by (relation "measure (\<lambda>(ds, s). length s)") (auto dest: strtok_shorter)

declare strtok_all.simps [simp del]

lemma strtok_all_Nil [simp]: "strtok_all ds [] = []"
  by (simp add: strtok_all.simps strtok_def)

lemma strtok_all_delim [simp]: "c \<in> set ds \<Longrightarrow> strtok_all ds (c # s) = strtok_all ds s"
  by (simp add: strtok_all.simps strtok_def)

lemma strtok_all_tl_dropWhile:
  "strtok_all ds (tl (dropWhile (\<lambda>c. c \<notin> set ds) s)) = strtok_all ds (dropWhile (\<lambda>c. c \<notin> set ds) s)"
proof (cases "dropWhile (\<lambda>c. c \<notin> set ds) s")
  case (Cons x xs)
  then have "x \<in> set ds" by (metis hd_dropWhile list.distinct(1) list.sel(1))
  then show ?thesis using Cons by simp
next
  case Nil
  then show ?thesis by (metis list.sel(2))
qed

lemma strtok_all_token:
  "c \<notin> set ds \<Longrightarrow> strtok_all ds (c # s) =
     (c # takeWhile (\<lambda>c. c \<notin> set ds) s) # strtok_all ds (dropWhile (\<lambda>c. c \<notin> set ds) s)"
  by (subst strtok_all.simps) (simp add: strtok_def strtok_all_tl_dropWhile)

lemma strtok_all_induct [case_names Nil Delim Token]:
  assumes "P []" and "\<And>c s. c \<in> set ds \<Longrightarrow> P s \<Longrightarrow> P (c # s)"
    and "\<And>c s. c \<notin> set ds \<Longrightarrow> P (dropWhile (\<lambda>c. c \<notin> set ds) s) \<Longrightarrow>
      P (tl (dropWhile (\<lambda>c. c \<notin> set ds) s)) \<Longrightarrow> P (c # s)"
  shows "P s"
proof (induction s rule: length_induct)
  case (1 s)
  show ?case
  proof (cases s)
    case (Cons c t)
    moreover have "P (dropWhile (\<lambda>c. c \<notin> set ds) t)" "P (tl (dropWhile (\<lambda>c. c \<notin> set ds) t))"
      using "1" Cons length_dropWhile_le[of "\<lambda>c. c \<notin> set ds" t] by simp_all
    moreover have "P t" using "1" Cons by simp
    ultimately show ?thesis using assms(2,3) by blast
  qed (simp add: assms(1))
qed

lemma strtok_all_clean: "t \<in> set (strtok_all ds s) \<Longrightarrow> t \<noteq> [] \<and> set t \<inter> set ds = {} \<and> set t \<subseteq> set s"
proof (induction s rule: strtok_all_induct[where ds = ds])
  case (Token c s)
  then show ?case
    by (fastforce simp: strtok_all_token dest: set_takeWhileD set_dropWhileD)
qed auto

lemma concat_strtok_all: "concat (strtok_all ds s) = filter (\<lambda>c. c \<notin> set ds) s"
proof (induction s rule: strtok_all_induct[where ds = ds])
  case (Token c s)
  have "filter (\<lambda>c. c \<notin> set ds) s =
      takeWhile (\<lambda>c. c \<notin> set ds) s @ filter (\<lambda>c. c \<notin> set ds) (dropWhile (\<lambda>c. c \<notin> set ds) s)"
    by (induction s) auto
  then show ?case using Token by (simp add: strtok_all_token)
qed auto

lemma strtok_all_append:
  "d \<in> set ds \<Longrightarrow> strtok_all ds (s @ d # t) = strtok_all ds s @ strtok_all ds t"
proof (induction s rule: strtok_all_induct[where ds = ds])
  case (Token c s)
  have tw: "takeWhile (\<lambda>c. c \<notin> set ds) (s @ d # t) = takeWhile (\<lambda>c. c \<notin> set ds) s"
    using Token.prems by (induction s) auto
  have "dropWhile (\<lambda>c. c \<notin> set ds) (s @ d # t) = dropWhile (\<lambda>c. c \<notin> set ds) s @ d # t"
    using Token.prems by (induction s) auto
  then show ?case using Token by (simp add: strtok_all_token tw)
qed auto

lemma strtok_all_word: "t \<noteq> [] \<Longrightarrow> set t \<inter> set ds = {} \<Longrightarrow> strtok_all ds t = [t]"
proof (cases t)
  case (Cons c s)
  assume "set t \<inter> set ds = {}"
  then have c: "c \<notin> set ds" and s: "takeWhile (\<lambda>c. c \<notin> set ds) s = s"
    "dropWhile (\<lambda>c. c \<notin> set ds) s = []" using Cons by (auto simp: takeWhile_all_iff)
  show ?thesis using strtok_all_token[OF c, of s] Cons by (simp only: s strtok_all_Nil)
qed auto

section \<open>Joining\<close>

fun join :: "string \<Rightarrow> string list \<Rightarrow> string" where
  "join sep [] = []"
| "join sep [x] = x"
| "join sep (x # y # zs) = x @ sep @ join sep (y # zs)"

lemma join_Cons: "join sep (x # xs) = (if xs = [] then x else x @ sep @ join sep xs)"
  by (cases xs) auto

text \<open>Splitting is the inverse of joining clean words by a delimiter.\<close>

lemma strtok_all_join:
  assumes "d \<in> set ds" and "\<forall>t\<in>set ts. t \<noteq> [] \<and> set t \<inter> set ds = {}"
  shows "strtok_all ds (join [d] ts) = ts"
  using assms
proof (induction "[d]" ts rule: join.induct)
  case (3 x y zs)
  then show ?case by (simp add: strtok_all_append strtok_all_word)
qed (auto simp: strtok_all_word)

text \<open>
  A string of length \<open>n\<close> has at most \<open>(n + 1) div 2\<close> tokens: every token but the last is
  followed by a delimiter of its own.
\<close>

lemma length_strtok_all: "2 * length (strtok_all ds s) \<le> length s + 1"
proof (induction s rule: strtok_all_induct[where ds = ds])
  case (Token c s)
  let ?r = "dropWhile (\<lambda>c. c \<notin> set ds) s"
  have "length ?r \<le> length s" by (rule length_dropWhile_le)
  moreover have "2 * length (strtok_all ds ?r) \<le> length ?r"
  proof (cases ?r)
    case Nil
    then show ?thesis by (metis strtok_all_Nil list.size(3) mult_0_right order_refl)
  next
    case (Cons x xs)
    then have "x \<in> set ds" by (metis hd_dropWhile list.distinct(1) list.sel(1))
    moreover have "2 * length (strtok_all ds (tl ?r)) \<le> length (tl ?r) + 1" by (rule Token.IH(2))
    ultimately show ?thesis using Cons by simp
  qed
  ultimately show ?case using Token.hyps by (simp add: strtok_all_token)
qed auto

end
