(* ===== verification/IO_Helpers.thy ===== *)
theory IO_Helpers
  imports C_Strings
begin

text \<open>
  src/src/io_helpers.c: the output helpers, the reading of one input line and its
  splitting into tokens. \<open>read\<close> of standard input is the environment: its reply is an
  argument of \<open>get_input\<close>, together with the characters the terminal still holds.
\<close>

abbreviation MAX_STR_LEN :: nat where "MAX_STR_LEN \<equiv> 128"

definition DELIMITERS :: string where "DELIMITERS = [CHR '' '', CHR 0x09, LF]"

section \<open>Output helpers\<close>

text \<open>\<open>strnlen\<close> bounds what is written to 128 bytes, whatever the string holds.\<close>

definition display_message :: "string \<Rightarrow> event list" where
  "display_message str = [Out (take MAX_STR_LEN str)]"

definition display_error :: "string \<Rightarrow> string \<Rightarrow> event list" where
  "display_error pre_str str =
     [Err (take MAX_STR_LEN pre_str), Err (take MAX_STR_LEN str), Err [LF]]"

text \<open>perror, without the text that the library adds for the error number.\<close>

definition perror :: "string \<Rightarrow> event list" where
  "perror str = [Err str]"

lemma perror_simps [simp]: "stdout_of (perror s) = []" "sent_to fd (perror s) = []"
  by (simp_all add: perror_def)

lemma stdout_of_display [simp]:
  "stdout_of (display_message s) = take 128 s"
  "stdout_of (display_error p s) = []"
  by (simp_all add: display_message_def display_error_def)

lemma sent_to_display [simp]:
  "sent_to fd (display_message s) = []"
  "sent_to fd (display_error p s) = []"
  by (simp_all add: display_message_def display_error_def)

section \<open>Reading a line\<close>

datatype read_reply = Read_Error | Read_Bytes string

text \<open>
  \<open>get_input\<close> either ends the process (end of file: \<open>exit(0)\<close>) or returns the value of the
  C function, the string the buffer then holds, what the terminal still holds and the
  events. An over-long read is answered by discarding the terminal's characters up to and
  including the next newline (the getchar loop).
\<close>

datatype input_result =
    Input_Exit
  | Input (in_ret: int) (in_buf: string) (in_rest: string) (in_evs: "event list")

definition drop_line :: "string \<Rightarrow> string" where
  "drop_line s = tl (dropWhile (\<lambda>c. c \<noteq> LF) s)"

fun get_input :: "read_reply \<Rightarrow> string \<Rightarrow> input_result" where
  "get_input Read_Error tty = Input (-1) [] tty []"
| "get_input (Read_Bytes bs) tty =
     (if bs = [] then Input_Exit
      else if length bs > MAX_STR_LEN
        then Input (-1) [] (drop_line tty) [Err (''ERROR: input line too long'' @ [LF])]
      else Input (int (length bs)) (cstr bs) tty [])"

text \<open>The kernel never returns more bytes than \<open>get_input\<close> asks for.\<close>

definition read_ok :: "read_reply \<Rightarrow> bool" where
  "read_ok r = (case r of Read_Error \<Rightarrow> True | Read_Bytes bs \<Rightarrow> length bs \<le> MAX_STR_LEN + 1)"

lemma length_cstr_le: "length (cstr bs) \<le> length bs"
  by (simp add: cstr_def length_takeWhile_le)

lemma get_input_buffer: "get_input r tty = Input n buf t es \<Longrightarrow> length buf \<le> MAX_STR_LEN \<and> NUL \<notin> set buf"
  using length_cstr_le
  by (cases r) (force simp: cstr_def dest: set_takeWhileD split: if_splits intro: le_trans)+

section \<open>Tokens\<close>

text \<open>
  \<open>tokenize_input\<close> stores a pointer to each token and a NULL after the last one into an
  array of \<open>cap\<close> pointers.
\<close>

definition tokenize_input :: "nat \<Rightarrow> string \<Rightarrow> string list checked" where
  "tokenize_input cap s =
     (let ts = strtok_all DELIMITERS s in if length ts < cap then Some ts else fault)"

lemma tokenize_input_fits: "length s < 2 * cap - 1 \<Longrightarrow> tokenize_input cap s = Some (strtok_all DELIMITERS s)"
  using length_strtok_all[of DELIMITERS s] by (simp add: tokenize_input_def Let_def)

lemma tokenize_input_clean:
  "tokenize_input cap s = Some ts \<Longrightarrow> t \<in> set ts \<Longrightarrow>
     t \<noteq> [] \<and> set t \<inter> set DELIMITERS = {} \<and> set t \<subseteq> set s"
  using strtok_all_clean[of t DELIMITERS s] by (auto simp: tokenize_input_def Let_def split: if_splits)

end
