(* ===== verification/C_Numbers.thy ===== *)
theory C_Numbers
  imports C_Strings
begin

text \<open>
  Numbers as text: the \<open>%d\<close> conversion of snprintf, and \<open>atoi\<close> with the conversions of
  glibc (strtol saturates at the bounds of a 64-bit long; the long is converted to a
  32-bit int modulo \<open>2 ^ 32\<close>).
\<close>

definition digit_char :: "nat \<Rightarrow> char" where
  "digit_char n = char_of (48 + n)"

fun show_nat :: "nat \<Rightarrow> string" where
  "show_nat n = (if n < 10 then [digit_char n] else show_nat (n div 10) @ [digit_char (n mod 10)])"

declare show_nat.simps [simp del]

definition show_int :: "int \<Rightarrow> string" where
  "show_int i = (if i < 0 then CHR ''-'' # show_nat (nat (- i)) else show_nat (nat i))"

definition digit_val :: "char \<Rightarrow> int" where
  "digit_val c = int (of_char c) - 48"

fun digits_val :: "int \<Rightarrow> string \<Rightarrow> int" where
  "digits_val acc [] = acc"
| "digits_val acc (c # cs) =
     (if isdigit c then digits_val (10 * acc + digit_val c) cs else acc)"

definition strtol10 :: "string \<Rightarrow> int" where
  "strtol10 s =
     (let t = dropWhile isspace s;
          v = (case t of
                 [] \<Rightarrow> 0
               | c # cs \<Rightarrow> if c = CHR ''-'' then - digits_val 0 cs
                           else if c = CHR ''+'' then digits_val 0 cs
                           else digits_val 0 (c # cs))
      in max (- (2 ^ 63)) (min (2 ^ 63 - 1) v))"

definition to_int32 :: "int \<Rightarrow> int" where
  "to_int32 v = (v + 2 ^ 31) mod 2 ^ 32 - 2 ^ 31"

definition atoi :: "string \<Rightarrow> int" where
  "atoi s = to_int32 (strtol10 s)"

lemma to_int32_range: "- (2 ^ 31) \<le> to_int32 v \<and> to_int32 v < 2 ^ 31"
  using pos_mod_bound[of "2 ^ 32" "v + 2 ^ 31"] by (simp add: to_int32_def)

lemma to_int32_id: "- (2 ^ 31) \<le> v \<Longrightarrow> v < 2 ^ 31 \<Longrightarrow> to_int32 v = v"
  by (simp add: to_int32_def)

lemma of_char_digit: "n < 10 \<Longrightarrow> of_char (digit_char n) = (48 + n :: nat)"
  by (simp add: digit_char_def)

lemma digit_char_props [simp]:
  assumes "n < 10"
  shows "isdigit (digit_char n)" "digit_val (digit_char n) = int n"
    "digit_char n \<noteq> CHR ''-''" "digit_char n \<noteq> CHR ''+''" "\<not> isspace (digit_char n)"
    "digit_char n \<noteq> NUL" "digit_char n \<noteq> CHR '' ''"
proof -
  have d: "of_char (digit_char n) = (48 + n :: nat)" using assms by (rule of_char_digit)
  show "isdigit (digit_char n)" "digit_val (digit_char n) = int n" "\<not> isspace (digit_char n)"
    using assms d by (simp_all add: isdigit_def digit_val_def isspace_def)
  have ne: "digit_char n \<noteq> c" if "of_char c \<noteq> (48 + n :: nat)" for c
    using d that by metis
  show "digit_char n \<noteq> CHR ''-''" "digit_char n \<noteq> CHR ''+''" "digit_char n \<noteq> NUL"
    "digit_char n \<noteq> CHR '' ''"
    by (rule ne, simp)+
qed

lemma digits_val_append:
  "\<forall>c\<in>set xs. isdigit c \<Longrightarrow> digits_val acc (xs @ ys) = digits_val (digits_val acc xs) ys"
  by (induction xs arbitrary: acc) auto

lemma show_nat_digits: "\<forall>c\<in>set (show_nat n). isdigit c"
proof (induction n rule: show_nat.induct)
  case (1 n)
  then show ?case by (subst show_nat.simps) auto
qed

lemma show_nat_nonempty [simp]: "show_nat n \<noteq> []"
  by (subst show_nat.simps) simp

lemma digits_val_show_nat: "digits_val 0 (show_nat n) = int n"
proof (induction n rule: show_nat.induct)
  case (1 n)
  show ?case
  proof (cases "n < 10")
    case True
    then show ?thesis by (subst show_nat.simps) simp
  next
    case False
    then have "digits_val 0 (show_nat n) = 10 * int (n div 10) + int (n mod 10)"
      using 1 by (subst show_nat.simps) (simp add: digits_val_append show_nat_digits)
    also have "\<dots> = int n" using div_mult_mod_eq[of n 10] by linarith
    finally show ?thesis .
  qed
qed

lemma show_nat_hd:
  obtains d ds where "show_nat n = d # ds" "isdigit d" "d \<noteq> CHR ''-''" "d \<noteq> CHR ''+''" "\<not> isspace d"
proof -
  obtain d ds where s: "show_nat n = d # ds" by (cases "show_nat n") auto
  then have d: "isdigit d" using show_nat_digits[of n] by simp
  have "d \<noteq> CHR ''-''" "d \<noteq> CHR ''+''" using d by (auto simp: isdigit_def)
  moreover have "\<not> isspace d" using d by (auto simp: isdigit_def isspace_def)
  ultimately show thesis using that s d by blast
qed

lemma strtol10_show_int:
  assumes "- (2 ^ 63) \<le> i" and "i < 2 ^ 63"
  shows "strtol10 (show_int i) = i"
proof (cases "i < 0")
  case True
  then show ?thesis using assms
    by (simp add: strtol10_def show_int_def digits_val_show_nat isspace_def)
next
  case False
  obtain d ds where s: "show_nat (nat i) = d # ds" "d \<noteq> CHR ''-''" "d \<noteq> CHR ''+''" "\<not> isspace d"
    by (rule show_nat_hd)
  have "digits_val 0 (d # ds) = i" using digits_val_show_nat[of "nat i"] s(1) False by simp
  then show ?thesis using s False assms by (simp add: strtol10_def show_int_def)
qed

text \<open>What \<open>%d\<close> prints, \<open>atoi\<close> reads back.\<close>

lemma atoi_show_int:
  assumes "- (2 ^ 31) \<le> i" and "i < 2 ^ 31"
  shows "atoi (show_int i) = i"
proof -
  have "strtol10 (show_int i) = i" by (rule strtol10_show_int) (use assms in simp_all)
  then show ?thesis using assms by (simp add: atoi_def to_int32_id)
qed

lemma length_show_nat: "n < 10 ^ Suc k \<Longrightarrow> length (show_nat n) \<le> Suc k"
proof (induction k arbitrary: n)
  case 0
  then show ?case by (simp add: show_nat.simps)
next
  case (Suc k)
  show ?case
  proof (cases "n < 10")
    case False
    have "n div 10 < 10 ^ Suc k" using Suc.prems by (simp add: less_mult_imp_div_less)
    then show ?thesis using Suc.IH[of "n div 10"] False by (subst show_nat.simps) simp
  qed (simp add: show_nat.simps)
qed

lemma length_show_int:
  assumes "\<bar>i\<bar> < 10 ^ 10"
  shows "length (show_int i) \<le> 11"
proof (cases "i < 0")
  case True
  then show ?thesis using assms length_show_nat[of "nat (- i)" 9] by (simp add: show_int_def)
next
  case False
  then have "length (show_nat (nat i)) \<le> Suc 9" by (intro length_show_nat) (use assms in simp)
  then show ?thesis using False by (simp add: show_int_def)
qed

lemma show_int_clean:
  "NUL \<notin> set (show_int i)" "CHR '' '' \<notin> set (show_int i)" "CR \<notin> set (show_int i)" "LF \<notin> set (show_int i)"
  using show_nat_digits[of "nat (- i)"] show_nat_digits[of "nat i"]
  by (auto simp: show_int_def isdigit_def)

end
