(* ===== verification/Socket.thy ===== *)
theory Socket
  imports IO_Helpers C_Numbers
begin

text \<open>
  src/src/socket.c and socket.h: set-up and connection of sockets, and the framing of the
  chat protocol, in which a message ends with the network newline CR LF.

  A receive buffer is an array of \<open>BUF_SIZE\<close> bytes of which the first \<open>inbuf\<close> are in use.
  The macro BUF_SIZE is the text \<open>+ 1 + MAX_NAME+1+MAX_USER_MSG+2 +1\<close>; every use of it in the
  sources is a sum or a comparison, so it stands for 1129. The replies of the system calls
  are arguments. A read is asked for at most the room left; the bytes offered beyond it stay
  in the socket for the next call.
\<close>

abbreviation MAX_NAME :: nat where "MAX_NAME \<equiv> 100"
abbreviation MAX_USER_MSG :: nat where "MAX_USER_MSG \<equiv> 1024"
abbreviation BUF_SIZE :: nat where "BUF_SIZE \<equiv> 1 + MAX_NAME + 1 + MAX_USER_MSG + 2 + 1"

section \<open>Framing\<close>

function find_newline_from :: "nat \<Rightarrow> string \<Rightarrow> nat \<Rightarrow> int" where
  "find_newline_from i buf inbuf =
     (if i + 1 < inbuf then
        if buf ! i = CR \<and> buf ! (i + 1) = LF then int i + 2
        else find_newline_from (Suc i) buf inbuf
      else -1)"
  by pat_completeness auto
termination
  by (relation "measure (\<lambda>(i, buf, inbuf). inbuf - i)") auto

declare find_newline_from.simps [simp del]

definition find_network_newline :: "string \<Rightarrow> nat \<Rightarrow> int" where
  "find_network_newline buf inbuf = find_newline_from 0 buf inbuf"

text \<open>The reply, the buffer and \<open>inbuf\<close> after the call.\<close>

definition read_from_socket :: "read_reply \<Rightarrow> string \<Rightarrow> nat \<Rightarrow> int \<times> string \<times> nat" where
  "read_from_socket reply buf inbuf =
     (case reply of
        Read_Error \<Rightarrow> (-1, buf, inbuf)
      | Read_Bytes offered \<Rightarrow>
          let bs = take (BUF_SIZE - inbuf - 1) offered in
          if bs = [] then (1, buf, inbuf)
          else
            let buf' = take inbuf buf @ bs @ drop (inbuf + length bs) buf;
                inbuf' = inbuf + length bs in
            if inbuf' \<ge> BUF_SIZE then (-1, buf', inbuf')
            else if find_newline_from 0 buf' inbuf' \<noteq> -1 then (0, buf', inbuf')
            else (2, buf', inbuf'))"

text \<open>
  \<open>get_message\<close>: \<open>None\<close> when there is no complete message (the C function returns 1), else the
  message with the buffer shifted down by memmove.
\<close>

definition get_message :: "string \<Rightarrow> nat \<Rightarrow> (string \<times> string \<times> nat) option" where
  "get_message src inbuf =
     (let newline = find_network_newline src inbuf in
      if newline = -1 then None
      else
        let n = nat newline;
            dst = take (n - 2) src;
            remain_bytes = inbuf - n;
            src' = (if remain_bytes > 0
                    then take remain_bytes (drop n src) @ drop remain_bytes src else src)
        in Some (dst, src', inbuf - n))"

section \<open>Writing\<close>

datatype errno = EPIPE | ECONNRESET | OTHER_ERROR

datatype write_reply = Wrote nat | Write_Error errno

text \<open>
  The result, the events, the replies not consumed and the error number of a failed write
  (\<open>None\<close> when write returned 0). A write for which no reply is left takes everything.
\<close>

fun write_to_socket ::
  "int \<Rightarrow> string \<Rightarrow> write_reply list \<Rightarrow> int \<times> event list \<times> write_reply list \<times> errno option" where
  "write_to_socket fd [] ws = (0, [], ws, None)"
| "write_to_socket fd bs [] = (0, [Send fd bs], [], None)"
| "write_to_socket fd bs (Write_Error e # ws) =
     (-1, display_error ''ERROR: Failed to write'' [], ws, Some e)"
| "write_to_socket fd bs (Wrote n # ws) =
     (if n = 0 then (-1, display_error ''ERROR: Failed to write'' [], ws, None)
      else
        let k = min n (length bs);
            (r, es, ws', e) = write_to_socket fd (drop k bs) ws
        in (r, Send fd (take k bs) # es, ws', e))"

section \<open>Setting up and connecting\<close>

record net_calls =
  malloc_ok :: bool
  socket_fd :: int
  setsockopt_status :: int
  bind_status :: int
  listen_status :: int
  getaddrinfo_status :: int
  connect_status :: int

datatype setup_result =
    Setup_Exit int "event list"   \<comment> \<open>exit status, events\<close>
  | Setup int "int option" "event list"   \<comment> \<open>result, descriptor left open, events\<close>

definition setup_server_socket :: "net_calls \<Rightarrow> setup_result" where
  "setup_server_socket os =
     (if \<not> malloc_ok os then Setup (-1) None (display_error ''ERROR: Failed to allocate memory'' [])
      else if socket_fd os < 0 then Setup_Exit 1 (display_error ''ERROR: Failed to set up socket'' [])
      else if setsockopt_status os < 0 then Setup (-1) (Some (socket_fd os)) []
      else if bind_status os < 0 then Setup (-1) None [Close_Fd (socket_fd os)]
      else if listen_status os < 0 then Setup (-1) None [Close_Fd (socket_fd os)]
      else Setup 0 (Some (socket_fd os)) [])"

definition connect_to_server :: "net_calls \<Rightarrow> int \<times> event list" where
  "connect_to_server os =
     (if socket_fd os < 0 then (-1, display_error ''ERROR: Failed to set up socket'' [])
      else if getaddrinfo_status os \<noteq> 0
        then (-1, display_error ''ERROR: Invalid hostname'' [] @ [Close_Fd (socket_fd os)])
      else if connect_status os = -1
        then (-1, display_error ''ERROR: Failed to connect'' [] @ [Close_Fd (socket_fd os)])
      else (socket_fd os, []))"

section \<open>The protocol: messages of a byte stream\<close>

fun split_crlf :: "string \<Rightarrow> (string \<times> string) option" where
  "split_crlf (c # d # s) =
     (if c = CR \<and> d = LF then Some ([], s)
      else map_option (\<lambda>(m, r). (c # m, r)) (split_crlf (d # s)))"
| "split_crlf _ = None"

lemma split_crlf_length: "split_crlf s = Some (m, r) \<Longrightarrow> length s = length m + 2 + length r"
  by (induction s arbitrary: m rule: split_crlf.induct) (auto split: if_splits)

lemma split_crlf_Some: "split_crlf s = Some (m, r) \<Longrightarrow> s = m @ [CR, LF] @ r \<and> split_crlf m = None"
proof (induction s arbitrary: m rule: split_crlf.induct)
  case (1 c d s)
  show ?case
  proof (cases "c = CR \<and> d = LF")
    case False
    then obtain m' where m': "split_crlf (d # s) = Some (m', r)" "m = c # m'"
      using "1.prems" by (auto split: if_splits)
    then have *: "d # s = m' @ [CR, LF] @ r" "split_crlf m' = None" using "1.IH"[OF False] by auto
    then have "split_crlf (c # m') = None" using False by (cases m') auto
    then show ?thesis using * m'(2) by auto
  qed (use "1.prems" in auto)
qed auto

text \<open>All complete messages of a stream, and the bytes that follow the last one.\<close>

function messages :: "string \<Rightarrow> string list \<times> string" where
  "messages s =
     (case split_crlf s of
        None \<Rightarrow> ([], s)
      | Some (m, r) \<Rightarrow> (m # fst (messages r), snd (messages r)))"
  by pat_completeness auto
termination
  by (relation "measure length") (auto dest: split_crlf_length)

declare messages.simps [simp del]

lemma split_crlf_append: "split_crlf s = Some (m, r) \<Longrightarrow> split_crlf (s @ t) = Some (m, r @ t)"
  by (induction s arbitrary: m rule: split_crlf.induct) (auto split: if_splits)

text \<open>Taking the messages out as they arrive gives the messages of the whole stream.\<close>

lemma messages_append:
  "messages (s @ t) = (fst (messages s) @ fst (messages (snd (messages s) @ t)), snd (messages (snd (messages s) @ t)))"
proof (induction s rule: messages.induct)
  case (1 s)
  show ?case
  proof (cases "split_crlf s")
    case None
    then have "messages s = ([], s)" by (simp add: messages.simps)
    then show ?thesis by simp
  next
    case (Some mr)
    obtain m r where mr: "mr = (m, r)" by (cases mr)
    then have s: "messages s = (m # fst (messages r), snd (messages r))"
      using Some by (subst messages.simps) simp
    have "messages (s @ t) = (m # fst (messages (r @ t)), snd (messages (r @ t)))"
      using split_crlf_append[of s m r t] Some mr by (subst messages.simps) simp
    then show ?thesis using "1.IH"[OF Some mr[symmetric]] s by simp
  qed
qed

text \<open>Encoding: messages without a network newline, each followed by one, are recovered.\<close>

definition no_crlf :: "string \<Rightarrow> bool" where
  "no_crlf m \<longleftrightarrow> split_crlf (m @ [CR]) = None"

lemma split_crlf_message: "no_crlf m \<Longrightarrow> split_crlf (m @ [CR, LF] @ r) = Some (m, r)"
proof (induction m)
  case (Cons c m)
  have n: "no_crlf m" and c: "\<not> (c = CR \<and> hd (m @ [CR]) = LF)"
    using Cons.prems by (cases m; auto simp: no_crlf_def split: if_splits)+
  show ?case using Cons.IH[OF n] c by (cases m) auto
qed (simp add: no_crlf_def)

lemma messages_encode:
  "\<forall>m\<in>set ms. no_crlf m \<Longrightarrow> split_crlf rest = None \<Longrightarrow>
     messages (concat (map (\<lambda>m. m @ [CR, LF]) ms) @ rest) = (ms, rest)"
proof (induction ms)
  case Nil
  then show ?case by (simp add: messages.simps)
next
  case (Cons m ms)
  have "split_crlf (m @ [CR, LF] @ concat (map (\<lambda>m. m @ [CR, LF]) ms) @ rest) =
      Some (m, concat (map (\<lambda>m. m @ [CR, LF]) ms) @ rest)"
    by (rule split_crlf_message) (use Cons.prems in simp)
  then show ?case using Cons by (subst messages.simps) simp
qed

lemma messages_none: "fst (messages s) = [] \<Longrightarrow> messages s = ([], s)"
  by (subst messages.simps, subst (asm) messages.simps) (auto split: option.splits)

lemma messages_rest: "fst (messages (snd (messages s))) = []"
  using messages_append[of s "[]"] by (simp add: prod_eq_iff)

end
