(* ===== verification/Framing.thy ===== *)
theory Framing
  imports Socket
begin

text \<open>
  The receive buffer of socket.c implements the message stream: \<open>find_network_newline\<close>,
  \<open>get_message\<close> and \<open>read_from_socket\<close> against \<open>split_crlf\<close> and \<open>messages\<close> on the bytes in
  use. The locale \<open>framer\<close> is the interface that the two clients of the buffer rely on, the
  server loop (server.c) and the chat client (\<open>bn_start_client\<close> in builtins.c): both take
  all complete messages out after each read. \<open>drain\<close> is that loop.
\<close>

section \<open>The interface\<close>

locale framer =
  fixes view :: "'b \<Rightarrow> string"
    and ok :: "'b \<Rightarrow> bool"
    and space :: "'b \<Rightarrow> nat"
    and feed :: "string \<Rightarrow> 'b \<Rightarrow> 'b"
    and take_msg :: "'b \<Rightarrow> (string \<times> 'b) option"
  assumes feed_view: "ok b \<Longrightarrow> length bs \<le> space b \<Longrightarrow> view (feed bs b) = view b @ bs"
    and feed_ok: "ok b \<Longrightarrow> length bs \<le> space b \<Longrightarrow> ok (feed bs b)"
    and take_None: "ok b \<Longrightarrow> take_msg b = None \<longleftrightarrow> split_crlf (view b) = None"
    and take_Some: "ok b \<Longrightarrow> take_msg b = Some (m, b') \<Longrightarrow> split_crlf (view b) = Some (m, view b') \<and> ok b'"
begin

text \<open>Taking messages out until there is none left.\<close>

inductive drains :: "'b \<Rightarrow> string list \<Rightarrow> 'b \<Rightarrow> bool" where
  stop: "take_msg b = None \<Longrightarrow> drains b [] b"
| more: "take_msg b = Some (m, b1) \<Longrightarrow> drains b1 ms b2 \<Longrightarrow> drains b (m # ms) b2"

lemma drains_messages: "drains b ms b' \<Longrightarrow> ok b \<Longrightarrow> messages (view b) = (ms, view b') \<and> ok b'"
proof (induction rule: drains.induct)
  case (stop b)
  then show ?case by (simp add: messages.simps take_None)
next
  case (more b m b1 ms b2)
  then have s: "split_crlf (view b) = Some (m, view b1)" "ok b1" using take_Some by auto
  then show ?case using more.IH by (subst messages.simps) simp
qed

lemma drains_total: "ok b \<Longrightarrow> \<exists>ms b'. drains b ms b'"
proof (induction "length (view b)" arbitrary: b rule: less_induct)
  case less
  show ?case
  proof (cases "take_msg b")
    case None
    then show ?thesis by (blast intro: drains.stop)
  next
    case (Some mb)
    obtain m b1 where mb: "mb = (m, b1)" by (cases mb)
    then have s: "split_crlf (view b) = Some (m, view b1)" "ok b1"
      using take_Some[OF less.prems] Some by auto
    then have "length (view b1) < length (view b)" by (auto dest: split_crlf_length)
    then obtain ms b' where "drains b1 ms b'" using less.hyps s(2) by blast
    then show ?thesis using Some mb by (blast intro: drains.more)
  qed
qed

text \<open>A session: chunks arrive, and after each of them the messages are taken out.\<close>

inductive session :: "'b \<Rightarrow> string list \<Rightarrow> string list \<Rightarrow> 'b \<Rightarrow> bool" where
  idle: "session b [] [] b"
| chunk: "length c \<le> space b \<Longrightarrow> drains (feed c b) ms b1 \<Longrightarrow> session b1 cs ns b2 \<Longrightarrow>
          session b (c # cs) (ms @ ns) b2"

lemma session_messages:
  "session b cs ms b' \<Longrightarrow> ok b \<Longrightarrow> split_crlf (view b) = None \<Longrightarrow>
     messages (view b @ concat cs) = (ms, view b') \<and> ok b'"
proof (induction rule: session.induct)
  case (idle b)
  then show ?case by (simp add: messages.simps)
next
  case (chunk c b ms b1 cs ns b2)
  have "messages (view b @ c) = (ms, view b1)" "ok b1"
    using drains_messages[OF chunk.hyps(2)] feed_ok[OF chunk.prems(1) chunk.hyps(1)]
      feed_view[OF chunk.prems(1) chunk.hyps(1)] by auto
  moreover from this have "messages (view b1) = ([], view b1)"
    using messages_append[of "view b @ c" "[]"] by (simp add: prod_eq_iff)
  then have "split_crlf (view b1) = None"
    by (subst (asm) messages.simps) (auto split: option.splits)
  ultimately show ?case
    using chunk.IH messages_append[of "view b @ c" "concat cs"] by simp
qed

text \<open>So the messages do not depend on how the stream was cut into chunks.\<close>

lemma session_chunking:
  assumes "session b cs ms b1" and "session b ds ns b2" and "concat cs = concat ds"
    and "ok b" and "split_crlf (view b) = None"
  shows "ms = ns \<and> view b1 = view b2"
  using session_messages[OF assms(1,4,5)] session_messages[OF assms(2,4,5)] assms(3) by simp

end

section \<open>The code implements it\<close>

lemma find_newline_from_eq:
  "inbuf \<le> length buf \<Longrightarrow> i \<le> inbuf \<Longrightarrow> find_newline_from i buf inbuf =
     (case split_crlf (drop i (take inbuf buf)) of None \<Rightarrow> -1 | Some (m, r) \<Rightarrow> int (i + length m + 2))"
proof (induction i buf inbuf rule: find_newline_from.induct)
  case (1 i buf inbuf)
  show ?case
  proof (cases "i + 1 < inbuf")
    case True
    have d: "drop i (take inbuf buf) = buf ! i # buf ! (i + 1) # drop (i + 2) (take inbuf buf)"
      using True "1.prems" by (simp add: Cons_nth_drop_Suc[symmetric] nth_take)
    have d': "drop (Suc i) (take inbuf buf) = buf ! (i + 1) # drop (i + 2) (take inbuf buf)"
      using True "1.prems" by (simp add: Cons_nth_drop_Suc[symmetric] nth_take)
    show ?thesis
    proof (cases "buf ! i = CR \<and> buf ! (i + 1) = LF")
      case crlf: True
      then show ?thesis using True d by (subst find_newline_from.simps) simp
    next
      case False
      have step: "find_newline_from i buf inbuf = find_newline_from (Suc i) buf inbuf"
        by (subst find_newline_from.simps) (simp only: if_P[OF True] if_not_P[OF False])
      have "split_crlf (drop i (take inbuf buf)) =
          map_option (\<lambda>(m, r). (buf ! i # m, r)) (split_crlf (drop (Suc i) (take inbuf buf)))"
        unfolding d d' by (simp only: split_crlf.simps if_not_P[OF False])
      then show ?thesis using "1.IH"[OF True False] "1.prems" True unfolding step
        by (auto split: option.splits)
    qed
  next
    case False
    then have "length (drop i (take inbuf buf)) \<le> 1" by simp
    then have "split_crlf (drop i (take inbuf buf)) = None"
      by (cases "drop i (take inbuf buf)" rule: split_crlf.cases) auto
    then show ?thesis using False by (subst find_newline_from.simps) simp
  qed
qed

lemma find_network_newline_eq:
  "inbuf \<le> length buf \<Longrightarrow> find_network_newline buf inbuf =
     (case split_crlf (take inbuf buf) of None \<Rightarrow> -1 | Some (m, r) \<Rightarrow> int (length m + 2))"
  by (simp add: find_network_newline_def find_newline_from_eq split: option.splits)

lemma get_message_None: "inbuf \<le> length buf \<Longrightarrow> get_message buf inbuf = None \<longleftrightarrow> split_crlf (take inbuf buf) = None"
  by (auto simp: get_message_def find_network_newline_eq Let_def split: option.splits)

lemma get_message_Some:
  assumes "inbuf \<le> length buf" and "get_message buf inbuf = Some (m, buf', inbuf')"
  shows "split_crlf (take inbuf buf) = Some (m, take inbuf' buf') \<and> length buf' = length buf \<and>
    inbuf = inbuf' + length m + 2"
proof -
  obtain m' r where s: "split_crlf (take inbuf buf) = Some (m', r)"
    using get_message_None[OF assms(1)] assms(2) by (cases "split_crlf (take inbuf buf)") auto
  have f: "find_network_newline buf inbuf = int (length m' + 2)"
    using s assms(1) by (simp add: find_network_newline_eq)
  have t: "take inbuf buf = m' @ [CR, LF] @ r" using split_crlf_Some[OF s] by simp
  then have len: "inbuf = length m' + 2 + length r"
    using assms(1) by (metis length_append length_Cons list.size(3) length_take min.absorb2 add.assoc numeral_2_eq_2 One_nat_def add_Suc_right add_0_right add_Suc)
  have m: "m = take (length m') buf" "inbuf' = length r"
    and b: "buf' = (if length r > 0 then take (length r) (drop (length m' + 2) buf) @ drop (length r) buf else buf)"
    using assms(2) f len by (auto simp: get_message_def Let_def nat_add_distrib)
  have "take (length m') buf = take (length m') (take inbuf buf)" using len by simp
  then have "m = m'" using m(1) t by simp
  moreover have "take (length r) (drop (length m' + 2) buf) = drop (length m' + 2) (take inbuf buf)"
    using len by (simp add: take_drop add.commute)
  then have "take (length r) (drop (length m' + 2) buf) = r" using t by simp
  ultimately show ?thesis using s m(2) b len assms(1) by auto
qed

text \<open>The buffer as one value, and the invariant of its owners.\<close>

definition buffer_view :: "string \<times> nat \<Rightarrow> string" where
  "buffer_view b = take (snd b) (fst b)"

definition buffer_ok :: "string \<times> nat \<Rightarrow> bool" where
  "buffer_ok b \<longleftrightarrow> length (fst b) = BUF_SIZE \<and> snd b < BUF_SIZE"

definition receive :: "string \<Rightarrow> string \<times> nat \<Rightarrow> string \<times> nat" where
  "receive bs b = snd (read_from_socket (Read_Bytes bs) (fst b) (snd b))"

definition next_message :: "string \<times> nat \<Rightarrow> (string \<times> string \<times> nat) option" where
  "next_message b = get_message (fst b) (snd b)"

text \<open>Every outcome of a read, in terms of the bytes in use.\<close>

lemma read_from_socket_cases:
  assumes "buffer_ok (buf, inbuf)" and "read_from_socket reply buf inbuf = (r, buf', inbuf')"
  shows "buffer_ok (buf', inbuf') \<and>
    (case reply of
       Read_Error \<Rightarrow> r = -1 \<and> buf' = buf \<and> inbuf' = inbuf
     | Read_Bytes offered \<Rightarrow>
         let bs = take (BUF_SIZE - inbuf - 1) offered in
         take inbuf' buf' = take inbuf buf @ bs \<and> inbuf' = inbuf + length bs \<and>
         r = (if bs = [] then 1 else if split_crlf (take inbuf buf @ bs) = None then 2 else 0))"
proof (cases reply)
  case Read_Error
  then show ?thesis using assms by (simp add: read_from_socket_def)
next
  case (Read_Bytes offered)
  define bs where "bs = take (BUF_SIZE - inbuf - 1) offered"
  have len: "length buf = 1129" "inbuf < 1129" "length bs \<le> 1129 - inbuf - 1"
    using assms(1) by (simp_all add: buffer_ok_def bs_def)
  show ?thesis
  proof (cases "bs = []")
    case True
    then have t: "take (BUF_SIZE - inbuf - 1) offered = []" using bs_def by simp
    have "r = 1 \<and> buf' = buf \<and> inbuf' = inbuf"
      using assms(2) unfolding Read_Bytes read_from_socket_def read_reply.case Let_def t by simp
    then show ?thesis using assms(1) unfolding Read_Bytes read_reply.case Let_def t by simp
  next
    case False
    let ?buf = "take inbuf buf @ bs @ drop (inbuf + length bs) buf"
    have l: "length ?buf = 1129" using len by simp
    have t: "take (inbuf + length bs) ?buf = take inbuf buf @ bs" using len by simp
    have "find_newline_from 0 ?buf (inbuf + length bs) \<noteq> -1 \<longleftrightarrow> split_crlf (take inbuf buf @ bs) \<noteq> None"
      using find_network_newline_eq[of "inbuf + length bs" ?buf] len l unfolding t
      by (auto simp: find_network_newline_def split: option.splits)
    then have "r = (if split_crlf (take inbuf buf @ bs) = None then 2 else 0) \<and>
        buf' = ?buf \<and> inbuf' = inbuf + length bs"
      using assms(2) False len
      unfolding Read_Bytes read_from_socket_def read_reply.case Let_def bs_def[symmetric]
      by (auto split: if_splits)
    then show ?thesis using False len l t
      unfolding Read_Bytes read_reply.case Let_def bs_def[symmetric] buffer_ok_def by simp
  qed
qed

interpretation sock: framer buffer_view buffer_ok "\<lambda>b. BUF_SIZE - snd b - 1" receive next_message
proof unfold_locales
  fix b :: "string \<times> nat" and bs :: string
  assume b: "buffer_ok b" and l: "length bs \<le> BUF_SIZE - snd b - 1"
  obtain r buf' inbuf' where rd: "read_from_socket (Read_Bytes bs) (fst b) (snd b) = (r, buf', inbuf')"
    by (metis prod.exhaust)
  have t: "take (BUF_SIZE - snd b - 1) bs = bs" using l by simp
  have "buffer_ok (fst b, snd b)" using b by simp
  from read_from_socket_cases[OF this rd, unfolded read_reply.case Let_def t]
  have "buffer_ok (buf', inbuf')" "take inbuf' buf' = take (snd b) (fst b) @ bs" by blast+
  then show "buffer_view (receive bs b) = buffer_view b @ bs" "buffer_ok (receive bs b)"
    using rd by (simp_all add: receive_def buffer_view_def)
next
  fix b
  assume b: "buffer_ok b"
  then show "next_message b = None \<longleftrightarrow> split_crlf (buffer_view b) = None"
    by (simp add: next_message_def buffer_view_def get_message_None buffer_ok_def)
  fix m b'
  assume "next_message b = Some (m, b')"
  then show "split_crlf (buffer_view b) = Some (m, buffer_view b') \<and> buffer_ok b'"
    using get_message_Some[of "snd b" "fst b" m "fst b'" "snd b'"] b
    by (auto simp: next_message_def buffer_view_def buffer_ok_def)
qed

section \<open>The loop that empties the buffer\<close>

lemma find_newline_from_bounds: "find_newline_from i buf inbuf = -1 \<or>
   2 \<le> find_newline_from i buf inbuf \<and> find_newline_from i buf inbuf \<le> int inbuf"
proof (induction i buf inbuf rule: find_newline_from.induct)
  case (1 i buf inbuf)
  then show ?case by (subst (1 2 3) find_newline_from.simps) auto
qed

lemma get_message_shrinks: "get_message buf inbuf = Some (m, buf', inbuf') \<Longrightarrow> inbuf' < inbuf"
  using find_newline_from_bounds[of 0 buf inbuf]
  by (auto simp: get_message_def find_network_newline_def Let_def split: if_splits)

function drain :: "string \<Rightarrow> nat \<Rightarrow> string list \<times> string \<times> nat" where
  "drain buf inbuf =
     (case get_message buf inbuf of
        None \<Rightarrow> ([], buf, inbuf)
      | Some (m, buf', inbuf') \<Rightarrow>
          (let (ms, b) = drain buf' inbuf' in (m # ms, b)))"
  by pat_completeness auto
termination
  by (relation "measure snd") (auto dest: get_message_shrinks)

declare drain.simps [simp del]

lemma drain_drains: "sock.drains (buf, inbuf) (fst (drain buf inbuf)) (snd (drain buf inbuf))"
proof (induction buf inbuf rule: drain.induct)
  case (1 buf inbuf)
  show ?case
  proof (cases "get_message buf inbuf")
    case None
    then show ?thesis by (subst (1 2) drain.simps) (simp add: sock.drains.stop next_message_def)
  next
    case (Some x)
    obtain m buf' inbuf' where x: "x = (m, buf', inbuf')" by (cases x)
    have "drain buf inbuf = (m # fst (drain buf' inbuf'), snd (drain buf' inbuf'))"
      using Some x by (subst drain.simps) (simp add: case_prod_unfold Let_def)
    moreover have "next_message (buf, inbuf) = Some (m, buf', inbuf')"
      using Some x by (simp add: next_message_def)
    ultimately show ?thesis
      using sock.drains.more "1.IH"[OF Some x[symmetric] refl] by simp
  qed
qed

section \<open>Reading a stream in chunks\<close>

text \<open>
  The loop of both clients of the buffer: after each read that brought something, all
  complete messages are taken out. \<open>None\<close>: a chunk is empty or does not fit.
\<close>

fun feed_chunks :: "string list \<Rightarrow> string \<times> nat \<Rightarrow> (string list \<times> string \<times> nat) option" where
  "feed_chunks [] b = Some ([], b)"
| "feed_chunks (c # cs) b =
     (if c = [] \<or> BUF_SIZE - snd b - 1 < length c then None
      else
        let (r, buf, inbuf) = read_from_socket (Read_Bytes c) (fst b) (snd b);
            (ms, b1) = drain buf inbuf
        in map_option (\<lambda>(ns, b2). (ms @ ns, b2)) (feed_chunks cs b1))"

lemma feed_chunks_session: "feed_chunks cs b = Some (ms, b') \<Longrightarrow> sock.session b cs ms b'"
proof (induction cs b arbitrary: ms rule: feed_chunks.induct)
  case (1 b)
  then have e: "ms = []" "b' = b" by simp_all
  show ?case unfolding e by (rule sock.session.idle)
next
  case (2 c cs b)
  obtain r buf inbuf where rd: "read_from_socket (Read_Bytes c) (fst b) (snd b) = (r, buf, inbuf)"
    by (metis prod.exhaust)
  obtain ms1 b1 where d: "drain buf inbuf = (ms1, b1)" by (metis prod.exhaust)
  obtain ns where ns: "feed_chunks cs b1 = Some (ns, b')" "ms = ms1 @ ns"
    and fits: "\<not> (c = [] \<or> BUF_SIZE - snd b - 1 < length c)"
    using "2.prems" rd d by (auto split: if_splits)
  have dr: "sock.drains (receive c b) ms1 b1"
    using drain_drains[of buf inbuf] d rd by (simp add: receive_def)
  have len: "length c \<le> BUF_SIZE - snd b - 1" using fits by linarith
  have se: "sock.session b1 cs ns b'"
    using "2.IH"[OF fits rd[symmetric] refl refl d[symmetric] refl ns(1)] .
  show ?case unfolding ns(2) by (rule sock.session.chunk[OF len dr se])
qed

lemma feed_chunks_messages:
  "feed_chunks cs b = Some (ms, b') \<Longrightarrow> buffer_ok b \<Longrightarrow> split_crlf (buffer_view b) = None \<Longrightarrow>
     messages (buffer_view b @ concat cs) = (ms, buffer_view b') \<and> buffer_ok b'"
  by (rule sock.session_messages[OF feed_chunks_session])

end
