(* ===== verification/Chat.thy ===== *)
theory Chat
  imports Framing
begin

text \<open>
  src/src/chat_helpers.c and chat_helpers.h, and \<open>accept_connection\<close> of server.c: the linked
  list of clients of the chat server.

  The list lives in an explicit heap, because the server loop keeps pointers into it while
  \<open>remove_client\<close> frees nodes. Address 0 is NULL; freed addresses are not handed out again,
  so that a dangling pointer never looks valid: dereferencing NULL or a freed node is
  \<open>fault\<close>. The loops over \<open>next\<close> pointers have no value on a cyclic list. Allocations whose
  result the code does not test are taken to succeed; the tested one (strdup in
  \<open>set_username\<close>) is an argument.
\<close>

section \<open>The heap\<close>

type_synonym ptr = nat

abbreviation NULL :: ptr where "NULL \<equiv> 0"

record client_socket =
  sock_fd :: int
  cl_state :: int
  username :: "string option"
  cl_buf :: string
  cl_inbuf :: nat
  cl_next :: ptr

record client_heap =
  cells :: "ptr \<Rightarrow> client_socket option"
  fresh :: ptr

definition deref :: "client_heap \<Rightarrow> ptr \<Rightarrow> client_socket checked" where
  "deref h p = (if p = NULL then fault else cells h p)"

definition upd :: "client_heap \<Rightarrow> ptr \<Rightarrow> (client_socket \<Rightarrow> client_socket) \<Rightarrow> client_heap checked" where
  "upd h p f = do { c \<leftarrow> deref h p; Some (h\<lparr>cells := (cells h)(p \<mapsto> f c)\<rparr>) }"

definition alloc :: "client_heap \<Rightarrow> client_socket \<Rightarrow> ptr \<times> client_heap" where
  "alloc h c = (fresh h, h\<lparr>cells := (cells h)(fresh h \<mapsto> c), fresh := Suc (fresh h)\<rparr>)"

definition free :: "client_heap \<Rightarrow> ptr \<Rightarrow> client_heap checked" where
  "free h p = do { deref h p; Some (h\<lparr>cells := (cells h)(p := None)\<rparr>) }"

definition empty_heap :: client_heap where
  "empty_heap = \<lparr>cells = (\<lambda>p. None), fresh = 1\<rparr>"

section \<open>The operations\<close>

text \<open>\<open>accept_connection\<close>: the loop that finds the last node, and the new node behind it.\<close>

partial_function (option) last_node :: "client_heap \<Rightarrow> ptr \<Rightarrow> ptr option" where
  "last_node h curp =
     (if curp = NULL then Some NULL
      else do {
        c \<leftarrow> deref h curp;
        if cl_next c = NULL then Some curp else last_node h (cl_next c)
      })"

definition new_client :: "int \<Rightarrow> client_socket" where
  "new_client fd = \<lparr>sock_fd = fd, cl_state = 0, username = None,
     cl_buf = replicate BUF_SIZE NUL, cl_inbuf = 0, cl_next = NULL\<rparr>"

text \<open>The list head and the heap; the client counter is updated by the server model.\<close>

definition append_client :: "int \<Rightarrow> ptr \<Rightarrow> client_heap \<Rightarrow> (ptr \<times> client_heap) checked" where
  "append_client client_fd clients h = do {
     curp \<leftarrow> last_node h clients;
     let (newclient, h1) = alloc h (new_client client_fd);
     if clients = NULL then Some (newclient, h1)
     else do {
       h2 \<leftarrow> upd h1 curp (\<lambda>c. c\<lparr>cl_next := newclient\<rparr>);
       Some (clients, h2)
     }
   }"

definition set_username :: "bool \<Rightarrow> ptr \<Rightarrow> int \<Rightarrow> client_heap \<Rightarrow> (int \<times> client_heap \<times> event list) checked" where
  "set_username strdup_ok curp i h =
     (if strdup_ok then do {
        h1 \<leftarrow> upd h curp (\<lambda>c. c\<lparr>username := Some (snprintf MAX_NAME (''client'' @ show_int i))\<rparr>);
        Some (0, h1, [])
      } else do {
        h1 \<leftarrow> upd h curp (\<lambda>c. c\<lparr>username := None\<rparr>);
        Some (-1, h1, display_error ''ERROR: Failed to allocate memory for clients'' [])
      })"

definition read_from_client :: "read_reply \<Rightarrow> ptr \<Rightarrow> client_heap \<Rightarrow> (int \<times> client_heap) checked" where
  "read_from_client reply curp h = do {
     c \<leftarrow> deref h curp;
     let (r, buf, inbuf) = read_from_socket reply (cl_buf c) (cl_inbuf c);
     h1 \<leftarrow> upd h curp (\<lambda>c. c\<lparr>cl_buf := buf, cl_inbuf := inbuf\<rparr>);
     Some (r, h1)
   }"

text \<open>
  \<open>write_buf_to_client\<close>: the copy, the carriage return and the line feed have to fit in
  \<open>send_buf[BUF_SIZE]\<close>.
\<close>

definition write_buf_to_client ::
  "ptr \<Rightarrow> string \<Rightarrow> client_heap \<Rightarrow> write_reply list \<Rightarrow> (int \<times> event list \<times> write_reply list) checked" where
  "write_buf_to_client p text h ws = do {
     require (length text + 2 \<le> BUF_SIZE);
     c \<leftarrow> deref h p;
     let (result, es, ws', errno) = write_to_socket (sock_fd c) (text @ [CR, LF]) ws;
     Some (if result = 0 then 0
           else if result = -1 \<and> (errno = Some EPIPE \<or> errno = Some ECONNRESET) then 2 else 1,
           es, ws')
   }"

text \<open>
  \<open>remove_client\<close>: the result, the new \<open>*curr\<close>, the new \<open>*clients\<close> and the heap. The search
  gives the node before \<open>remove\<close>, if any.
\<close>

partial_function (option) find_before :: "client_heap \<Rightarrow> ptr \<Rightarrow> ptr \<Rightarrow> ptr option option" where
  "find_before h remove cur = do {
     c \<leftarrow> deref h cur;
     if cl_next c = NULL then Some None
     else if cl_next c = remove then Some (Some cur)
     else find_before h remove (cl_next c)
   }"

definition remove_client :: "ptr \<Rightarrow> ptr \<Rightarrow> client_heap \<Rightarrow> (int \<times> ptr \<times> ptr \<times> client_heap) checked" where
  "remove_client curp clients h =
     (if clients = NULL \<or> curp = NULL then Some (1, curp, clients, h)
      else if clients = curp then do {
        r \<leftarrow> deref h curp;
        h1 \<leftarrow> free h curp;
        Some (0, cl_next r, cl_next r, h1)
      } else do {
        found \<leftarrow> find_before h curp clients;
        case found of
          None \<Rightarrow> Some (1, curp, clients, h)
        | Some cur \<Rightarrow> do {
            r \<leftarrow> deref h curp;
            h1 \<leftarrow> upd h cur (\<lambda>c. c\<lparr>cl_next := cl_next r\<rparr>);
            h2 \<leftarrow> free h1 curp;
            Some (0, cl_next r, clients, h2)
          }
      })"

section \<open>The list that the heap represents\<close>

text \<open>
  \<open>seg h xs q\<close>: the nodes \<open>xs\<close>, pairs of an address and the contents without the \<open>next\<close>
  field, are linked in this order and the last one points to \<open>q\<close>.
\<close>

fun hd_ptr :: "(ptr \<times> client_socket) list \<Rightarrow> ptr \<Rightarrow> ptr" where
  "hd_ptr [] q = q"
| "hd_ptr ((a, c) # xs) q = a"

fun seg :: "client_heap \<Rightarrow> (ptr \<times> client_socket) list \<Rightarrow> ptr \<Rightarrow> bool" where
  "seg h [] q = True"
| "seg h ((a, c) # xs) q =
     (a \<noteq> NULL \<and> cl_next c = NULL \<and> cells h a = Some (c\<lparr>cl_next := hd_ptr xs q\<rparr>) \<and> seg h xs q)"

text \<open>The representation invariant of a list head and a heap.\<close>

definition rep :: "ptr \<times> client_heap \<Rightarrow> (ptr \<times> client_socket) list \<Rightarrow> bool" where
  "rep s xs \<longleftrightarrow> fst s = hd_ptr xs NULL \<and> seg (snd s) xs NULL \<and> distinct (map fst xs) \<and>
     0 < fresh (snd s) \<and> (\<forall>a\<in>fst ` set xs. a < fresh (snd s))"

text \<open>A head and a heap represent one list only.\<close>

lemma seg_unique: "seg h xs NULL \<Longrightarrow> seg h ys NULL \<Longrightarrow> hd_ptr xs NULL = hd_ptr ys NULL \<Longrightarrow> xs = ys"
proof (induction xs arbitrary: ys)
  case Nil
  then show ?case by (cases ys) auto
next
  case (Cons x xs)
  obtain a c where x: "x = (a, c)" by (cases x)
  obtain b d zs where ys: "ys = (b, d) # zs" using Cons.prems x by (cases ys) auto
  have ab: "b = a" using Cons.prems(3) x ys by simp
  have e: "c\<lparr>cl_next := hd_ptr xs NULL\<rparr> = d\<lparr>cl_next := hd_ptr zs NULL\<rparr>" "cl_next c = NULL" "cl_next d = NULL"
    using Cons.prems(1,2) x ys ab by simp_all
  have "hd_ptr xs NULL = hd_ptr zs NULL"
    using arg_cong[OF e(1), of cl_next] by simp
  moreover have "c = d"
    using arg_cong[OF e(1), of "cl_next_update (\<lambda>_. NULL)"] e(2,3) by (cases c; cases d) simp
  ultimately show ?case using Cons.IH Cons.prems(1,2) x ys ab by simp
qed

lemma rep_unique: "rep s xs \<Longrightarrow> rep s ys \<Longrightarrow> xs = ys"
  unfolding rep_def using seg_unique by metis

lemma hd_ptr_append: "hd_ptr (xs @ ys) q = hd_ptr xs (hd_ptr ys q)"
  by (cases xs) auto

lemma seg_append: "seg h (xs @ ys) q \<longleftrightarrow> seg h xs (hd_ptr ys q) \<and> seg h ys q"
  by (induction xs) (auto simp: hd_ptr_append)

lemma seg_cong: "(\<And>a. a \<in> fst ` set xs \<Longrightarrow> cells h a = cells h' a) \<Longrightarrow> seg h xs q = seg h' xs q"
  by (induction xs) auto

lemma seg_update: "cells h' = (cells h)(a := v) \<Longrightarrow> a \<notin> fst ` set xs \<Longrightarrow> seg h' xs q = seg h xs q"
  by (rule seg_cong) (auto simp: rev_image_eqI)

lemma rep_empty: "rep (NULL, empty_heap) []"
  by (simp add: rep_def empty_heap_def)

text \<open>Reading and updating one node.\<close>

lemma seg_split: "(a, c) \<in> set xs \<Longrightarrow> \<exists>ys zs. xs = ys @ (a, c) # zs"
  by (meson split_list)

lemma deref_node: "seg h (ys @ (a, c) # zs) NULL \<Longrightarrow> deref h a = Some (c\<lparr>cl_next := hd_ptr zs NULL\<rparr>)"
  by (simp add: deref_def seg_append)

lemma rep_deref: "rep (p, h) (ys @ (a, c) # zs) \<Longrightarrow> deref h a = Some (c\<lparr>cl_next := hd_ptr zs NULL\<rparr>)"
  by (auto simp: rep_def dest: deref_node)

lemma rep_upd:
  assumes r: "rep (p, h) (ys @ (a, c) # zs)"
    and f: "\<And>n. f (c\<lparr>cl_next := n\<rparr>) = c'\<lparr>cl_next := n\<rparr>" and n: "cl_next c' = NULL"
  shows "\<exists>h'. upd h a f = Some h' \<and> rep (p, h') (ys @ (a, c') # zs)"
proof -
  let ?h = "h\<lparr>cells := (cells h)(a \<mapsto> f (c\<lparr>cl_next := hd_ptr zs NULL\<rparr>))\<rparr>"
  have u: "upd h a f = Some ?h" using rep_deref[OF r] by (simp add: upd_def)
  have "a \<notin> fst ` set ys" "a \<notin> fst ` set zs" using r by (auto simp: rep_def)
  then have "seg ?h ys a = seg h ys a" "seg ?h zs NULL = seg h zs NULL"
    by (intro seg_update; simp)+
  then have "rep (p, ?h) (ys @ (a, c') # zs)"
    using r n by (auto simp: rep_def seg_append hd_ptr_append f)
  then show ?thesis using u by blast
qed

text \<open>Appending.\<close>

lemma last_node_seg: "seg h (xs @ [(b, c)]) NULL \<Longrightarrow> last_node h (hd_ptr xs b) = Some b"
proof (induction xs)
  case Nil
  then show ?case by (subst last_node.simps) (simp add: deref_def)
next
  case (Cons x xs)
  obtain a d where x: "x = (a, d)" by (cases x)
  have "deref h a = Some (d\<lparr>cl_next := hd_ptr xs b\<rparr>)" "a \<noteq> NULL" "hd_ptr xs b \<noteq> NULL"
    using Cons.prems x by (cases xs; auto simp: deref_def hd_ptr_append)+
  then show ?case using Cons x by (subst last_node.simps) simp
qed

lemma append_client_rep:
  assumes "rep (p, h) xs"
  shows "\<exists>h' p'. append_client fd p h = Some (p', h') \<and> rep (p', h') (xs @ [(fresh h, new_client fd)])"
proof (cases xs rule: rev_cases)
  case Nil
  then have "p = NULL" using assms by (simp add: rep_def)
  then show ?thesis using assms Nil
    by (auto simp: append_client_def alloc_def rep_def new_client_def last_node.simps)
next
  case (snoc ys y)
  obtain b c where y: "y = (b, c)" by (cases y)
  have s: "seg h (ys @ [(b, c)]) NULL" "p = hd_ptr ys b" using assms snoc y
    by (auto simp: rep_def hd_ptr_append)
  then have l: "last_node h p = Some b" using last_node_seg by blast
  have p: "p \<noteq> NULL" using s by (cases ys) (auto simp: hd_ptr_append)
  let ?n = "new_client fd"
  let ?h1 = "h\<lparr>cells := (cells h)(fresh h \<mapsto> ?n), fresh := Suc (fresh h)\<rparr>"
  let ?h2 = "?h1\<lparr>cells := (cells ?h1)(b \<mapsto> c\<lparr>cl_next := fresh h\<rparr>)\<rparr>"
  have b: "b \<noteq> fresh h" "b \<noteq> NULL" "cells h b = Some (c\<lparr>cl_next := NULL\<rparr>)" "cl_next c = NULL"
    "b \<notin> fst ` set ys" "fresh h \<notin> fst ` set ys"
    using assms snoc y s(1) by (auto simp: rep_def seg_append)
  have u: "upd ?h1 b (\<lambda>c. c\<lparr>cl_next := fresh h\<rparr>) = Some ?h2"
    using b by (simp add: upd_def deref_def)
  have "seg ?h1 ys b = seg h ys b" using b by (intro seg_update[where a = "fresh h"]) auto
  moreover have "seg ?h2 ys b = seg ?h1 ys b" using b by (intro seg_update) auto
  ultimately have "seg ?h2 ys b = seg h ys b" by simp
  then have "rep (p, ?h2) (xs @ [(fresh h, ?n)])"
    using assms snoc y b s by (auto simp: rep_def seg_append hd_ptr_append new_client_def)
  then show ?thesis using l u p by (simp add: append_client_def alloc_def)
qed

text \<open>Removing.\<close>

lemma find_before_seg:
  assumes "seg h (xs @ (b, cb) # (a, ca) # zs) NULL" and "a \<notin> fst ` set xs" and "a \<noteq> b"
  shows "find_before h a (hd_ptr xs b) = Some (Some b)"
  using assms
proof (induction xs)
  case Nil
  then show ?case by (subst find_before.simps) (simp add: deref_def)
next
  case (Cons x xs)
  obtain d cd where x: "x = (d, cd)" by (cases x)
  have "deref h d = Some (cd\<lparr>cl_next := hd_ptr xs b\<rparr>)" "hd_ptr xs b \<noteq> NULL" "hd_ptr xs b \<noteq> a"
    using Cons.prems x by (cases xs; auto simp: deref_def hd_ptr_append)+
  then show ?case using Cons x by (subst find_before.simps) simp
qed

lemma remove_client_rep:
  assumes r: "rep (p, h) (ys @ (a, c) # zs)"
  shows "\<exists>p' h'. remove_client a p h = Some (0, hd_ptr zs NULL, p', h') \<and> rep (p', h') (ys @ zs) \<and>
    fresh h' = fresh h"
proof (cases ys rule: rev_cases)
  case Nil
  let ?h = "h\<lparr>cells := (cells h)(a := None)\<rparr>"
  have d: "deref h a = Some (c\<lparr>cl_next := hd_ptr zs NULL\<rparr>)" using r by (rule rep_deref)
  have p: "p = a" "a \<noteq> NULL" "a \<notin> fst ` set zs" using r Nil by (auto simp: rep_def)
  then have "seg ?h zs NULL = seg h zs NULL" by (intro seg_update) auto
  then have "rep (hd_ptr zs NULL, ?h) zs" using r Nil by (auto simp: rep_def)
  then show ?thesis using d p Nil by (simp add: remove_client_def free_def)
next
  case (snoc us u)
  obtain b cb where u: "u = (b, cb)" by (cases u)
  have s: "seg h (us @ (b, cb) # (a, c) # zs) NULL" "p = hd_ptr us b"
    "a \<notin> fst ` set us" "a \<noteq> b" "a \<noteq> NULL" "b \<noteq> NULL" "b \<notin> fst ` set us" "b \<notin> fst ` set zs"
    "a \<notin> fst ` set zs"
    using r snoc u by (auto simp: rep_def seg_append hd_ptr_append)
  have p: "p \<noteq> a" "p \<noteq> NULL" using s by (cases us; auto simp: seg_append)+
  have f: "find_before h a p = Some (Some b)" using find_before_seg s by blast
  have da: "deref h a = Some (c\<lparr>cl_next := hd_ptr zs NULL\<rparr>)" using r by (rule rep_deref)
  have cb: "cells h b = Some (cb\<lparr>cl_next := a\<rparr>)" "cl_next cb = NULL" using s(1) by (auto simp: seg_append)
  let ?n = "hd_ptr zs NULL"
  let ?h1 = "h\<lparr>cells := (cells h)(b \<mapsto> cb\<lparr>cl_next := ?n\<rparr>)\<rparr>"
  let ?h2 = "?h1\<lparr>cells := (cells ?h1)(a := None)\<rparr>"
  have u1: "upd h b (\<lambda>c. c\<lparr>cl_next := ?n\<rparr>) = Some ?h1" using cb s by (simp add: upd_def deref_def)
  have u2: "free ?h1 a = Some ?h2" using da s by (simp add: free_def deref_def)
  have "seg ?h1 us b = seg h us b" "seg ?h1 zs NULL = seg h zs NULL"
    using s by (intro seg_update; simp)+
  moreover have "seg ?h2 us b = seg ?h1 us b" "seg ?h2 zs NULL = seg ?h1 zs NULL"
    using s by (intro seg_update; simp)+
  ultimately have "seg ?h2 us b = seg h us b" "seg ?h2 zs NULL = seg h zs NULL" by simp_all
  then have "rep (p, ?h2) (ys @ zs)"
    using r snoc u s cb by (auto simp: rep_def seg_append hd_ptr_append)
  then show ?thesis using p f da u1 u2 s(5) by (simp add: remove_client_def)
qed

section \<open>The interface of the client list\<close>

lemma filter_other_keys: "p \<notin> fst ` set xs \<Longrightarrow> filter (\<lambda>x. fst x \<noteq> p) xs = xs"
  by (induction xs) auto

text \<open>What the server relies on: joining appends, leaving removes exactly the one client.\<close>

locale roster =
  fixes rel :: "'s \<Rightarrow> ('p \<times> 'c) list \<Rightarrow> bool"
    and join :: "int \<Rightarrow> 's \<Rightarrow> 's option"
    and leave :: "'p \<Rightarrow> 's \<Rightarrow> 's option"
    and blank :: "int \<Rightarrow> 'c"
  assumes rel_distinct: "rel s xs \<Longrightarrow> distinct (map fst xs)"
    and rel_join: "rel s xs \<Longrightarrow> \<exists>s' p. join fd s = Some s' \<and> rel s' (xs @ [(p, blank fd)])"
    and rel_leave: "rel s (ys @ (p, c) # zs) \<Longrightarrow> \<exists>s'. leave p s = Some s' \<and> rel s' (ys @ zs)"
begin

lemma leave_member:
  assumes "rel s xs" and "p \<in> fst ` set xs"
  shows "\<exists>s'. leave p s = Some s' \<and> rel s' (filter (\<lambda>x. fst x \<noteq> p) xs)"
proof -
  obtain c where "(p, c) \<in> set xs" using assms(2) by auto
  then obtain ys zs where xs: "xs = ys @ (p, c) # zs" by (meson split_list)
  have "p \<notin> fst ` set ys" "p \<notin> fst ` set zs" using rel_distinct[OF assms(1)] xs by auto
  then have "filter (\<lambda>x. fst x \<noteq> p) xs = ys @ zs"
    using xs by (simp add: filter_other_keys)
  then show ?thesis using rel_leave[of s ys p c zs] assms(1) xs by simp
qed

lemma leave_all:
  "rel s xs \<Longrightarrow> distinct ps \<Longrightarrow> set ps \<subseteq> fst ` set xs \<Longrightarrow>
     \<exists>s'. foldM leave ps s = Some s' \<and> rel s' (filter (\<lambda>x. fst x \<notin> set ps) xs)"
proof (induction ps arbitrary: s xs)
  case (Cons p ps)
  let ?ys = "filter (\<lambda>x. fst x \<noteq> p) xs"
  obtain s1 where s1: "leave p s = Some s1" "rel s1 ?ys"
    using leave_member[OF Cons.prems(1)] Cons.prems(3) by auto
  have "set ps \<subseteq> fst ` set ?ys" using Cons.prems(2,3) by (force simp: image_iff)
  then obtain s2 where "foldM leave ps s1 = Some s2" "rel s2 (filter (\<lambda>x. fst x \<notin> set ps) ?ys)"
    using Cons.IH[OF s1(2)] Cons.prems(2) by auto
  then show ?case using s1 by (simp add: filter_filter conj_commute)
qed simp

lemma join_all:
  "rel s xs \<Longrightarrow> \<exists>s' ps. foldM join fds s = Some s' \<and> length ps = length fds \<and>
     rel s' (xs @ zip ps (map blank fds))"
proof (induction fds arbitrary: s xs)
  case (Cons fd fds)
  obtain s1 p where s1: "join fd s = Some s1" "rel s1 (xs @ [(p, blank fd)])"
    using rel_join[OF Cons.prems] by blast
  obtain s2 ps where "foldM join fds s1 = Some s2" "length ps = length fds"
    "rel s2 ((xs @ [(p, blank fd)]) @ zip ps (map blank fds))"
    using Cons.IH[OF s1(2)] by blast
  then have "foldM join (fd # fds) s = Some s2 \<and> length (p # ps) = length (fd # fds) \<and>
      rel s2 (xs @ zip (p # ps) (map blank (fd # fds)))" using s1 by simp
  then show ?case by blast
qed simp

end

definition join_list :: "int \<Rightarrow> ptr \<times> client_heap \<Rightarrow> (ptr \<times> client_heap) option" where
  "join_list fd s = append_client fd (fst s) (snd s)"

definition leave_list :: "ptr \<Rightarrow> ptr \<times> client_heap \<Rightarrow> (ptr \<times> client_heap) option" where
  "leave_list p s = do {
     (rc, curp, s') \<leftarrow> remove_client p (fst s) (snd s);
     require (rc = 0);
     Some s'
   }"

interpretation clients: roster rep join_list leave_list new_client
proof unfold_locales
  fix s xs
  assume r: "rep s xs"
  show "distinct (map fst xs)" using r by (simp add: rep_def)
  fix fd
  obtain p h where s: "s = (p, h)" by (cases s)
  show "\<exists>s' q. join_list fd s = Some s' \<and> rep s' (xs @ [(q, new_client fd)])"
    using append_client_rep[of p h xs fd] r s by (auto simp: join_list_def)
next
  fix s ys p c zs
  assume r: "rep s (ys @ (p, c) # zs)"
  obtain q h where s: "s = (q, h)" by (cases s)
  show "\<exists>s'. leave_list p s = Some s' \<and> rep s' (ys @ zs)"
    using remove_client_rep[of q h ys p c zs] r s by (auto simp: leave_list_def)
qed

section \<open>The other operations on a represented list\<close>

lemma set_username_rep:
  assumes "rep (p, h) (ys @ (a, c) # zs)"
  shows "\<exists>h'. set_username True a i h = Some (0, h', []) \<and>
    rep (p, h') (ys @ (a, c\<lparr>username := Some (take 99 (''client'' @ show_int i))\<rparr>) # zs)"
proof -
  have "cl_next c = NULL" using assms by (auto simp: rep_def seg_append)
  then show ?thesis
    using rep_upd[OF assms, of "\<lambda>c. c\<lparr>username := Some (snprintf MAX_NAME (''client'' @ show_int i))\<rparr>"
      "c\<lparr>username := Some (take 99 (''client'' @ show_int i))\<rparr>"]
    by (auto simp: set_username_def snprintf_def)
qed

lemma read_from_client_rep:
  assumes "rep (p, h) (ys @ (a, c) # zs)"
    and "read_from_socket reply (cl_buf c) (cl_inbuf c) = (r, buf, inbuf)"
  shows "\<exists>h'. read_from_client reply a h = Some (r, h') \<and>
    rep (p, h') (ys @ (a, c\<lparr>cl_buf := buf, cl_inbuf := inbuf\<rparr>) # zs)"
proof -
  have "cl_next c = NULL" using assms(1) by (auto simp: rep_def seg_append)
  then show ?thesis
    using rep_upd[OF assms(1), of "\<lambda>c. c\<lparr>cl_buf := buf, cl_inbuf := inbuf\<rparr>"
      "c\<lparr>cl_buf := buf, cl_inbuf := inbuf\<rparr>"] rep_deref[OF assms(1)] assms(2)
    by (auto simp: read_from_client_def)
qed

text \<open>Replies of write under which no write fails, and what a client then receives.\<close>

definition writes_ok :: "write_reply list \<Rightarrow> bool" where
  "writes_ok ws \<longleftrightarrow> (\<forall>w\<in>set ws. case w of Wrote n \<Rightarrow> 0 < n | Write_Error e \<Rightarrow> False)"

lemma write_to_socket_ok:
  "writes_ok ws \<Longrightarrow> \<exists>es ws'. write_to_socket fd bs ws = (0, es, ws', None) \<and> writes_ok ws' \<and>
     sent_to fd es = bs \<and> (\<forall>f. f \<noteq> fd \<longrightarrow> sent_to f es = []) \<and> stdout_of es = []"
proof (induction fd bs ws rule: write_to_socket.induct)
  case (4 fd b bs n ws)
  have n: "0 < n" "writes_ok ws" using "4.prems" by (auto simp: writes_ok_def)
  obtain es ws' where r: "write_to_socket fd (drop (min n (length (b # bs))) (b # bs)) ws = (0, es, ws', None)"
    "writes_ok ws'" "sent_to fd es = drop (min n (length (b # bs))) (b # bs)"
    "\<forall>f. f \<noteq> fd \<longrightarrow> sent_to f es = []" "stdout_of es = []"
    using "4.IH"[OF _ refl n(2)] n(1) by auto
  show ?case using r n by (auto simp: Let_def case_prod_unfold simp del: drop_Cons take_Cons)
qed (auto simp: writes_ok_def)

lemma write_buf_to_client_rep:
  assumes "rep (p, h) (ys @ (a, c) # zs)" and "length text + 2 \<le> BUF_SIZE" and "writes_ok ws"
  shows "\<exists>es ws'. write_buf_to_client a text h ws = Some (0, es, ws') \<and> writes_ok ws' \<and>
     sent_to (sock_fd c) es = text @ [CR, LF] \<and> (\<forall>f. f \<noteq> sock_fd c \<longrightarrow> sent_to f es = []) \<and> stdout_of es = []"
  using rep_deref[OF assms(1)] assms(2) write_to_socket_ok[OF assms(3), of "sock_fd c" "text @ [CR, LF]"]
  by (auto simp: write_buf_to_client_def require_def)

lemma write_buf_to_client_cases:
  assumes "rep (p, h) (ys @ (a, c) # zs)" and "length text + 2 \<le> BUF_SIZE"
  shows "\<exists>r es ws'. write_buf_to_client a text h ws = Some (r, es, ws') \<and> r \<in> {0, 1, 2}"
  using rep_deref[OF assms(1)] assms(2)
  by (auto simp: write_buf_to_client_def require_def Let_def split: prod.split)

end
