(* ===== verification/Server.thy ===== *)
theory Server
  imports Chat
begin

text \<open>
  src/src/server.c: the chat server, a loop around select.

  The state of the server process is a record: the client list in its heap, the descriptor
  set, the counters, the replies that write will give, and the events so far. The other
  replies of the system (select, accept, read, strdup) are the input of a round. The loops
  follow pointers through a heap that changes under them, so they are partial functions: no
  value stands for a dereference of freed or NULL memory, for a write past an array, or for a
  loop that does not end. The ints \<open>client_id\<close> and \<open>client_connected\<close> have no upper bound
  here: the model is about fewer than \<open>2 ^ 31\<close> greeted clients.
\<close>

abbreviation FD_SETSIZE :: int where "FD_SETSIZE \<equiv> 1024"

record server =
  sv_heap :: client_heap
  sv_clients :: ptr
  all_fds :: "int set"
  max_fd :: int
  client_id :: int
  client_connected :: int
  sv_writes :: "write_reply list"
  sv_trace :: "event list"

definition emit :: "event list \<Rightarrow> server \<Rightarrow> server" where
  "emit es s = s\<lparr>sv_trace := sv_trace s @ es\<rparr>"

text \<open>The operations of chat_helpers.c on the server's state.\<close>

definition sv_write :: "ptr \<Rightarrow> string \<Rightarrow> server \<Rightarrow> (int \<times> server) checked" where
  "sv_write p text s = do {
     (ret, es, ws) \<leftarrow> write_buf_to_client p text (sv_heap s) (sv_writes s);
     Some (ret, emit es (s\<lparr>sv_writes := ws\<rparr>))
   }"

definition sv_remove :: "ptr \<Rightarrow> server \<Rightarrow> (int \<times> ptr \<times> server) checked" where
  "sv_remove p s = do {
     (rc, p', cl, h) \<leftarrow> remove_client p (sv_clients s) (sv_heap s);
     Some (rc, p', s\<lparr>sv_clients := cl, sv_heap := h\<rparr>)
   }"

definition sv_read :: "read_reply \<Rightarrow> ptr \<Rightarrow> server \<Rightarrow> (int \<times> server) checked" where
  "sv_read reply p s = do {
     (r, h) \<leftarrow> read_from_client reply p (sv_heap s);
     Some (r, s\<lparr>sv_heap := h\<rparr>)
   }"

section \<open>A message to everybody\<close>

text \<open>One pass through the body of the loop over the destinations; \<open>curp\<close> is the sender.\<close>

definition broadcast_step :: "ptr \<Rightarrow> string \<Rightarrow> ptr \<Rightarrow> server \<Rightarrow> (ptr \<times> server) checked" where
  "broadcast_step curp write_buf dest_c s = do {
     (ret, s1) \<leftarrow> sv_write dest_c write_buf s;
     if ret \<noteq> 0 then do {
       c \<leftarrow> deref (sv_heap s1) curp;
       name \<leftarrow> username c;
       let s2 = emit (display_message (snprintf BUF_SIZE (name @ '' has failed to send message.'' @ [LF]))) s1;
       d \<leftarrow> deref (sv_heap s2) dest_c;
       if ret = 2 then do {
         let s3 = emit [Close_Fd (sock_fd d)] (s2\<lparr>all_fds := all_fds s2 - {sock_fd d}\<rparr>);
         (rc, dest', s4) \<leftarrow> sv_remove dest_c s3;
         Some (dest', if rc \<noteq> 0 then emit (display_error (''ERROR: Failed to disconnect client'' @ [LF]) []) s4 else s4)
       } else Some (cl_next d, s2)
     } else do {
       d \<leftarrow> deref (sv_heap s1) dest_c;
       Some (cl_next d, s1)
     }
   }"

partial_function (option) broadcast :: "ptr \<Rightarrow> string \<Rightarrow> ptr \<Rightarrow> server \<Rightarrow> server option" where
  "broadcast curp write_buf dest_c s =
     (if dest_c = NULL then Some s
      else do {
        (dest', s') \<leftarrow> broadcast_step curp write_buf dest_c s;
        broadcast curp write_buf dest' s'
      })"

text \<open>The body of the loop over the messages of one client.\<close>

definition connected_reply :: "int \<Rightarrow> string checked" where
  "connected_reply n = do {
     buf \<leftarrow> strncat BUF_SIZE [] (snprintf BUF_SIZE (show_int n)) (BUF_SIZE - 1);
     strncat BUF_SIZE buf [LF] (BUF_SIZE - 1)
   }"

definition chat_text :: "string \<Rightarrow> string \<Rightarrow> string checked" where
  "chat_text name msg = do {
     b1 \<leftarrow> strncat BUF_SIZE [] name MAX_NAME;
     b2 \<leftarrow> strncat BUF_SIZE b1 '' '' MAX_NAME;
     strncat BUF_SIZE b2 msg MAX_USER_MSG
   }"

definition handle_message :: "ptr \<Rightarrow> string \<Rightarrow> server \<Rightarrow> server checked" where
  "handle_message curp msg s =
     (if strncmp_eq 11 msg (CHR 0x5C # ''connected'') then do {
        buf \<leftarrow> connected_reply (client_connected s);
        (ret, s1) \<leftarrow> sv_write curp buf s;
        Some s1
      } else do {
        c \<leftarrow> deref (sv_heap s) curp;
        name \<leftarrow> username c;
        write_buf \<leftarrow> chat_text name msg;
        s1 \<leftarrow> broadcast curp write_buf (sv_clients s) s;
        c1 \<leftarrow> deref (sv_heap s1) curp;
        name1 \<leftarrow> username c1;
        Some (emit (display_message (snprintf BUF_SIZE (name1 @ '': '' @ msg @ [LF]))) s1)
      })"

text \<open>\<open>while (client_closed == 0 && !get_message(...))\<close>, entered with \<open>client_closed\<close> zero.\<close>

partial_function (option) serve_messages :: "ptr \<Rightarrow> server \<Rightarrow> server option" where
  "serve_messages curp s = do {
     c \<leftarrow> deref (sv_heap s) curp;
     case get_message (cl_buf c) (cl_inbuf c) of
       None \<Rightarrow> Some s
     | Some (msg, buf, inbuf) \<Rightarrow> do {
         h \<leftarrow> upd (sv_heap s) curp (\<lambda>c. c\<lparr>cl_buf := buf, cl_inbuf := inbuf\<rparr>);
         s1 \<leftarrow> handle_message curp (cstr msg) (s\<lparr>sv_heap := h\<rparr>);
         serve_messages curp s1
       }
   }"

section \<open>One client in a round\<close>

record round_input =
  listen_fds :: "int set"                  \<comment> \<open>the descriptors that select reports\<close>
  accept_reply :: int
  read_replies :: "int \<Rightarrow> read_reply"      \<comment> \<open>by descriptor\<close>
  strdup_ok :: "int \<Rightarrow> bool"               \<comment> \<open>by client number\<close>

text \<open>A newly connected client gets its name when its first message is complete.\<close>

definition greet :: "round_input \<Rightarrow> ptr \<Rightarrow> int \<Rightarrow> server \<Rightarrow> (int \<times> server) checked" where
  "greet inp curp client_closed s = do {
     c \<leftarrow> deref (sv_heap s) curp;
     if client_closed = 0 \<and> username c = None then do {
       let i = client_id s + 1;
       (rc, h, es) \<leftarrow> set_username (strdup_ok inp i) curp i (sv_heap s);
       let s1 = emit es (s\<lparr>client_id := i, sv_heap := h\<rparr>);
       if rc = -1 then Some (1, emit (display_error (''ERROR: Failed to assign USER ID.'' @ [LF]) []) s1)
       else Some (client_closed, s1)
     } else Some (client_closed, s)
   }"

text \<open>A client that is gone: the assert is \<open>require\<close>.\<close>

definition drop_client :: "ptr \<Rightarrow> server \<Rightarrow> (ptr \<times> server) checked" where
  "drop_client curp s = do {
     c \<leftarrow> deref (sv_heap s) curp;
     let s1 = emit [Close_Fd (sock_fd c)]
       (s\<lparr>all_fds := all_fds s - {sock_fd c}, client_connected := client_connected s - 1\<rparr>);
     (rc, p, s2) \<leftarrow> sv_remove curp s1;
     require (rc = 0);
     Some (p, s2)
   }"

definition client_step :: "round_input \<Rightarrow> ptr \<Rightarrow> server \<Rightarrow> (ptr \<times> server) checked" where
  "client_step inp curp s = do {
     c \<leftarrow> deref (sv_heap s) curp;
     if sock_fd c \<notin> listen_fds inp then Some (cl_next c, s)
     else do {
       (r, s1) \<leftarrow> sv_read (read_replies inp (sock_fd c)) curp s;
       (client_closed, s2) \<leftarrow> greet inp curp (if r = -1 then 1 else r) s1;
       s3 \<leftarrow> (if client_closed = 0 then serve_messages curp s2 else Some s2);
       if client_closed = 1 then drop_client curp s3
       else do { c3 \<leftarrow> deref (sv_heap s3) curp; Some (cl_next c3, s3) }
     }
   }"

partial_function (option) serve_clients :: "round_input \<Rightarrow> ptr \<Rightarrow> server \<Rightarrow> server option" where
  "serve_clients inp curp s =
     (if curp = NULL then Some s
      else do {
        (p, s') \<leftarrow> client_step inp curp s;
        serve_clients inp p s'
      })"

section \<open>The main loop\<close>

text \<open>
  \<open>accept_connection\<close>. The exit of a failed accept is \<open>Server_Exit\<close>. FD_SET is defined for
  descriptors below FD_SETSIZE.
\<close>

datatype server_result =
    Serving server              \<comment> \<open>the loop goes on\<close>
  | Server_Exit int server      \<comment> \<open>exit with a status\<close>
  | Server_Return int server    \<comment> \<open>run_server returns\<close>

definition accept_connection :: "int \<Rightarrow> int \<Rightarrow> server \<Rightarrow> server_result checked" where
  "accept_connection fd client_fd s = do {
     last_node (sv_heap s) (sv_clients s);
     if client_fd < 0 then
       Some (Server_Exit 1 (emit (perror ''server: accept'' @ [Close_Fd fd]) s))
     else do {
       (cl, h) \<leftarrow> append_client client_fd (sv_clients s) (sv_heap s);
       Some (Serving (s\<lparr>sv_clients := cl, sv_heap := h, client_connected := client_connected s + 1\<rparr>))
     }
   }"

definition accept_phase :: "int \<Rightarrow> round_input \<Rightarrow> server \<Rightarrow> server_result checked" where
  "accept_phase listener inp s =
     (if listener \<in> listen_fds inp then do {
        a \<leftarrow> accept_connection listener (accept_reply inp) s;
        case a of
          Serving s1 \<Rightarrow> do {
            require (accept_reply inp < FD_SETSIZE);
            Some (Serving (s1\<lparr>max_fd := max (accept_reply inp) (max_fd s1),
              all_fds := insert (accept_reply inp) (all_fds s1)\<rparr>))
          }
        | other \<Rightarrow> Some other
      } else Some (Serving s))"

datatype select_reply = Select_EINTR | Select_Error | Ready round_input

definition server_round :: "int \<Rightarrow> select_reply \<Rightarrow> server \<Rightarrow> server_result checked" where
  "server_round listener reply s =
     (case reply of
        Select_EINTR \<Rightarrow> Some (Serving s)
      | Select_Error \<Rightarrow>
          Some (Server_Return (-1) (emit (display_error (''ERROR: Failed to select.'' @ [LF]) []) s))
      | Ready inp \<Rightarrow> do {
          a \<leftarrow> accept_phase listener inp s;
          case a of
            Serving s1 \<Rightarrow> do { s2 \<leftarrow> serve_clients inp (sv_clients s1) s1; Some (Serving s2) }
          | other \<Rightarrow> Some other
        })"

text \<open>The loop never leaves by itself: it runs as long as select gives replies.\<close>

fun server_loop :: "int \<Rightarrow> select_reply list \<Rightarrow> server \<Rightarrow> server_result checked" where
  "server_loop listener [] s = Some (Serving s)"
| "server_loop listener (r # rs) s = do {
     a \<leftarrow> server_round listener r s;
     case a of Serving s1 \<Rightarrow> server_loop listener rs s1 | other \<Rightarrow> Some other
   }"

definition start_state :: "int \<Rightarrow> write_reply list \<Rightarrow> server" where
  "start_state listener ws =
     \<lparr>sv_heap = empty_heap, sv_clients = NULL, all_fds = {listener}, max_fd = listener,
      client_id = 0, client_connected = 0, sv_writes = ws, sv_trace = []\<rparr>"

datatype run_result =
    Running server              \<comment> \<open>waiting in select\<close>
  | Run_Exit int "event list"
  | Run_Return int "event list"

definition run_server :: "net_calls \<Rightarrow> select_reply list \<Rightarrow> write_reply list \<Rightarrow> run_result checked" where
  "run_server os replies ws =
     (case setup_server_socket os of
        Setup_Exit n es \<Rightarrow> Some (Run_Exit n es)
      | Setup result fd es \<Rightarrow>
          if result = -1 then Some (Run_Return (-1) es)
          else do {
            listener \<leftarrow> fd;
            require (listener < FD_SETSIZE);
            a \<leftarrow> server_loop listener replies (start_state listener ws);
            Some (case a of
                Serving s \<Rightarrow> Running s
              | Server_Exit n s \<Rightarrow> Run_Exit n (es @ sv_trace s)
              | Server_Return n s \<Rightarrow> Run_Return n (es @ sv_trace s))
          })"

text \<open>\<open>clean_exit\<close>, which the endless loop never reaches: closes and frees every client.\<close>

partial_function (option) close_clients :: "ptr \<Rightarrow> client_heap \<Rightarrow> event list \<Rightarrow> (client_heap \<times> event list) option" where
  "close_clients p h es =
     (if p = NULL then Some (h, es)
      else do {
        c \<leftarrow> deref h p;
        h1 \<leftarrow> free h p;
        close_clients (cl_next c) h1 (es @ [Close_Fd (sock_fd c)])
      })"

definition clean_exit :: "int \<Rightarrow> server \<Rightarrow> (client_heap \<times> event list) checked" where
  "clean_exit listener s = do {
     (h, es) \<leftarrow> close_clients (sv_clients s) (sv_heap s) [];
     Some (h, es @ [Close_Fd listener])
   }"

section \<open>Starting and stopping the server process\<close>

text \<open>The globals \<open>server_pid\<close>, \<open>server_port\<close> and \<open>server_num\<close> of the shell process.\<close>

record server_globals =
  server_pid :: int
  server_port :: int
  server_num :: int

definition no_server :: server_globals where
  "no_server = \<lparr>server_pid = -1, server_port = -1, server_num = 0\<rparr>"

text \<open>
  \<open>start_server\<close> by the reply of fork. In the child (reply 0) the call returns only when
  \<open>run_server\<close> returned -1; otherwise the process exits or serves for ever (\<open>None\<close>).
\<close>

definition start_server :: "int \<Rightarrow> run_result \<Rightarrow> server_globals \<Rightarrow> (int \<times> server_globals) option" where
  "start_server pid run g =
     (let g1 = g\<lparr>server_pid := pid\<rparr> in
      if pid < 0 then Some (-1, g1)
      else if pid = 0 then
        (case run of Run_Return n es \<Rightarrow> if n = -1 then Some (-1, g1) else None | _ \<Rightarrow> None)
      else Some (0, g1))"

definition cleanup_server :: "(int \<Rightarrow> int \<Rightarrow> int) \<Rightarrow> server_globals \<Rightarrow> int \<times> server_globals \<times> event list" where
  "cleanup_server os_kill g =
     (if server_num g > 0 \<and> server_pid g > 0 then
        if os_kill (server_pid g) 15 = -1
        then (-1, g, display_error (''ERROR: Failed to kill server.'' @ [LF]) [])
        else (0, no_server, Kill (server_pid g) 15 #
               display_message (snprintf BUF_SIZE
                 (''Server '' @ show_int (server_port g) @ '' is closed successfully.'' @ [LF])))
      else (0, g, []))"

end
