(* ===== verification/Server_Correct.thy ===== *)
theory Server_Correct
  imports Server
begin

text \<open>
  What the server of server.c guarantees as long as no write finds a connection gone
  (EPIPE or ECONNRESET): a round of the loop never faults, keeps the invariant
  \<open>server_ok\<close>, and delivers every message to every client. And what happens when a write
  does: the sender itself may be freed in the middle of the loop that uses it.
\<close>

section \<open>Writes\<close>

definition no_disconnect :: "write_reply list \<Rightarrow> bool" where
  "no_disconnect ws \<longleftrightarrow> Write_Error EPIPE \<notin> set ws \<and> Write_Error ECONNRESET \<notin> set ws"

lemma writes_ok_no_disconnect: "writes_ok ws \<Longrightarrow> no_disconnect ws"
  by (auto simp: writes_ok_def no_disconnect_def)

lemma no_disconnect_subset: "no_disconnect ws \<Longrightarrow> set ws' \<subseteq> set ws \<Longrightarrow> no_disconnect ws'"
  by (auto simp: no_disconnect_def)

lemma writes_ok_subset: "writes_ok ws \<Longrightarrow> set ws' \<subseteq> set ws \<Longrightarrow> writes_ok ws'"
  by (auto simp: writes_ok_def)

lemma write_to_socket_replies:
  "write_to_socket fd bs ws = (r, es, ws', e) \<Longrightarrow>
     set ws' \<subseteq> set ws \<and> (r = 0 \<or> r = -1) \<and> (\<forall>x. e = Some x \<longrightarrow> Write_Error x \<in> set ws)"
proof (induction fd bs ws arbitrary: es rule: write_to_socket.induct)
  case (4 fd b bs n ws)
  then show ?case by (cases "n = 0") (auto simp: Let_def case_prod_unfold prod_eq_iff)
qed auto

text \<open>\<open>quiet\<close>: only the replies of write and the trace change.\<close>

definition quiet :: "server \<Rightarrow> write_reply list \<Rightarrow> event list \<Rightarrow> server" where
  "quiet s ws es = emit es (s\<lparr>sv_writes := ws\<rparr>)"

lemma quiet_simps [simp]:
  "sv_heap (quiet s ws es) = sv_heap s" "sv_clients (quiet s ws es) = sv_clients s"
  "all_fds (quiet s ws es) = all_fds s" "max_fd (quiet s ws es) = max_fd s"
  "client_id (quiet s ws es) = client_id s" "client_connected (quiet s ws es) = client_connected s"
  "sv_writes (quiet s ws es) = ws" "sv_trace (quiet s ws es) = sv_trace s @ es"
  "emit fs (quiet s ws es) = quiet s ws (es @ fs)"
  "quiet (quiet s ws es) ws' es' = quiet s ws' (es @ es')"
  by (simp_all add: quiet_def emit_def)

text \<open>What a list of events hands to the clients.\<close>

definition delivers :: "(int \<Rightarrow> string) \<Rightarrow> event list \<Rightarrow> bool" where
  "delivers f es \<longleftrightarrow> (\<forall>fd. sent_to fd es = f fd)"

lemma delivers_append: "delivers f es \<Longrightarrow> delivers g fs \<Longrightarrow> delivers (\<lambda>fd. f fd @ g fd) (es @ fs)"
  by (simp add: delivers_def)

abbreviation fds :: "(ptr \<times> client_socket) list \<Rightarrow> int list" where
  "fds xs \<equiv> map (\<lambda>x. sock_fd (snd x)) xs"

lemma sv_write_spec:
  assumes "rep (sv_clients s, sv_heap s) xs" and "(a, c) \<in> set xs"
    and "length text + 2 \<le> BUF_SIZE" and "no_disconnect (sv_writes s)"
  shows "\<exists>r es ws. sv_write a text s = Some (r, quiet s ws es) \<and> r \<noteq> 2 \<and> set ws \<subseteq> set (sv_writes s) \<and>
    (writes_ok (sv_writes s) \<longrightarrow> r = 0 \<and> stdout_of es = [] \<and>
       delivers (\<lambda>fd. if fd = sock_fd c then text @ [CR, LF] else []) es)"
proof -
  obtain ys zs where xs: "xs = ys @ (a, c) # zs" using assms(2) by (meson split_list)
  have d: "deref (sv_heap s) a = Some (c\<lparr>cl_next := hd_ptr zs NULL\<rparr>)"
    using rep_deref[of "sv_clients s" "sv_heap s" ys a c zs] assms(1) xs by simp
  obtain r es ws e where w: "write_to_socket (sock_fd c) (text @ [CR, LF]) (sv_writes s) = (r, es, ws, e)"
    by (metis prod.exhaust)
  let ?r = "if r = 0 then 0 else if r = -1 \<and> (e = Some EPIPE \<or> e = Some ECONNRESET) then 2 else (1::int)"
  have sw: "sv_write a text s = Some (?r, quiet s ws es)"
    using d w assms(3) by (simp add: sv_write_def write_buf_to_client_def quiet_def)
  have "?r \<noteq> 2" "set ws \<subseteq> set (sv_writes s)"
    using write_to_socket_replies[OF w] assms(4) by (auto simp: no_disconnect_def)
  moreover have "writes_ok (sv_writes s) \<longrightarrow> r = 0 \<and> stdout_of es = [] \<and>
       delivers (\<lambda>fd. if fd = sock_fd c then text @ [CR, LF] else []) es"
    using write_to_socket_ok[of "sv_writes s" "sock_fd c" "text @ [CR, LF]"] w by (auto simp: delivers_def)
  ultimately show ?thesis using sw by (intro exI[of _ ?r] exI[of _ es] exI[of _ ws]) auto
qed

section \<open>A message to everybody\<close>

lemma broadcast_spec:
  assumes "rep (sv_clients s, sv_heap s) (ys @ zs)" and "(a, c) \<in> set (ys @ zs)"
    and "username c = Some name" and "length text + 2 \<le> BUF_SIZE" and "no_disconnect (sv_writes s)"
    and "distinct (fds zs)"
  shows "\<exists>es ws. broadcast a text (hd_ptr zs NULL) s = Some (quiet s ws es) \<and> set ws \<subseteq> set (sv_writes s) \<and>
    (writes_ok (sv_writes s) \<longrightarrow> stdout_of es = [] \<and>
       delivers (\<lambda>fd. if fd \<in> set (fds zs) then text @ [CR, LF] else []) es)"
  using assms
proof (induction zs arbitrary: s ys)
  case Nil
  have "broadcast a text NULL s = Some (quiet s (sv_writes s) [])"
    by (subst broadcast.simps) (simp add: quiet_def emit_def)
  then show ?case by (intro exI[of _ "[]"] exI[of _ "sv_writes s"]) (simp add: delivers_def)
next
  case (Cons z zs)
  obtain b d where z: "z = (b, d)" by (cases z)
  have r: "rep (sv_clients s, sv_heap s) (ys @ (b, d) # zs)" using Cons.prems(1) z by simp
  obtain rc es ws where w: "sv_write b text s = Some (rc, quiet s ws es)" "rc \<noteq> 2"
      "set ws \<subseteq> set (sv_writes s)"
      "writes_ok (sv_writes s) \<longrightarrow> rc = 0 \<and> stdout_of es = [] \<and>
         delivers (\<lambda>fd. if fd = sock_fd d then text @ [CR, LF] else []) es"
    using sv_write_spec[OF r, of b d "text"] Cons.prems(4,5) by auto
  obtain us vs where "ys @ (b, d) # zs = us @ (a, c) # vs" using Cons.prems(2) z by (metis split_list)
  then have da: "deref (sv_heap s) a = Some (c\<lparr>cl_next := hd_ptr vs NULL\<rparr>)"
    using rep_deref[of "sv_clients s" "sv_heap s" us a c vs] r by simp
  have db: "deref (sv_heap s) b = Some (d\<lparr>cl_next := hd_ptr zs NULL\<rparr>)" "b \<noteq> NULL"
    using rep_deref[OF r] r by (auto simp: rep_def seg_append)
  define fs where "fs = es @ (if rc = 0 then []
     else display_message (snprintf BUF_SIZE (name @ '' has failed to send message.'' @ [LF])))"
  have step: "broadcast_step a text b s = Some (hd_ptr zs NULL, quiet s ws fs)"
    using w(1,2) da db Cons.prems(3) by (simp add: broadcast_step_def fs_def)
  have "no_disconnect ws" using Cons.prems(5) w(3) by (rule no_disconnect_subset)
  then obtain gs vs where b: "broadcast a text (hd_ptr zs NULL) (quiet s ws fs) = Some (quiet s vs (fs @ gs))"
      "set vs \<subseteq> set ws"
      "writes_ok ws \<longrightarrow> stdout_of gs = [] \<and>
         delivers (\<lambda>fd. if fd \<in> set (fds zs) then text @ [CR, LF] else []) gs"
    using Cons.IH[of "quiet s ws fs" "ys @ [z]"] Cons.prems(1,2,3,4,6) by auto
  have "broadcast a text (hd_ptr (z # zs) NULL) s = Some (quiet s vs (fs @ gs))"
    using db(2) step b(1) z by (subst broadcast.simps) simp
  moreover have "sock_fd d \<notin> set (fds zs)" using Cons.prems(6) z by simp
  then have "writes_ok (sv_writes s) \<longrightarrow> stdout_of (fs @ gs) = [] \<and>
     delivers (\<lambda>fd. if fd \<in> set (fds (z # zs)) then text @ [CR, LF] else []) (fs @ gs)"
    using w(3,4) b(3) writes_ok_subset z by (auto simp: fs_def delivers_def)
  ultimately show ?case using w(3) b(2) by blast
qed

section \<open>One message\<close>

text \<open>
  The contract: what a message \<open>m\<close> of the client \<open>name\<close> on descriptor \<open>me\<close> hands to the
  descriptor \<open>fd\<close> when \<open>n\<close> clients with descriptors \<open>ds\<close> are connected.
\<close>

definition connected_command :: string where
  "connected_command = CHR 0x5C # ''connected''"

definition chat_line :: "string \<Rightarrow> string \<Rightarrow> string" where
  "chat_line name m = name @ '' '' @ take MAX_USER_MSG m"

definition handed :: "int list \<Rightarrow> int \<Rightarrow> string \<Rightarrow> int \<Rightarrow> string \<Rightarrow> int \<Rightarrow> string" where
  "handed ds me name n m fd =
     (if m = connected_command then (if fd = me then show_int n @ [LF, CR, LF] else [])
      else if fd \<in> set ds then chat_line name m @ [CR, LF] else [])"

definition server_shows :: "string \<Rightarrow> string \<Rightarrow> string" where
  "server_shows name m = (if m = connected_command then [] else take MAX_STR_LEN (name @ '': '' @ m @ [LF]))"

lemma strncmp_connected: "strncmp_eq 11 m (CHR 0x5C # ''connected'') \<longleftrightarrow> m = connected_command"
proof
  assume e: "strncmp_eq 11 m (CHR 0x5C # ''connected'')"
  then have t: "take 11 m = CHR 0x5C # ''connected''" by (simp add: strncmp_eq_def)
  then have "length (take 11 m) = 10" by (simp only: t list.size)
  then have "take 11 m = m" by auto
  then show "m = connected_command" using t by (simp add: connected_command_def)
qed (simp add: strncmp_eq_def connected_command_def)

lemma chat_text_eq: "length name < MAX_NAME \<Longrightarrow> chat_text name m = Some (chat_line name m)"
  by (simp add: chat_text_def strncat_def chat_line_def Let_def)

lemma connected_reply_eq: "0 \<le> n \<Longrightarrow> n \<le> FD_SETSIZE \<Longrightarrow> connected_reply n = Some (show_int n @ [LF])"
  using length_show_int[of n] by (simp add: connected_reply_def strncat_def Let_def snprintf_def)

section \<open>The invariant of the server\<close>

definition peer_ok :: "client_socket \<Rightarrow> bool" where
  "peer_ok c \<longleftrightarrow> buffer_ok (cl_buf c, cl_inbuf c) \<and>
     (case username c of None \<Rightarrow> True | Some name \<Rightarrow> length name < MAX_NAME)"

definition server_ok :: "int \<Rightarrow> server \<Rightarrow> (ptr \<times> client_socket) list \<Rightarrow> bool" where
  "server_ok listener s xs \<longleftrightarrow>
     rep (sv_clients s, sv_heap s) xs \<and> (\<forall>x\<in>set xs. peer_ok (snd x)) \<and>
     distinct (listener # fds xs) \<and> set (fds xs) \<subseteq> {0..<FD_SETSIZE} \<and>
     all_fds s = insert listener (set (fds xs)) \<and> (\<forall>fd\<in>all_fds s. fd \<le> max_fd s) \<and>
     client_connected s = int (length xs)"

lemma server_ok_quiet [simp]: "server_ok l (quiet s ws es) xs = server_ok l s xs"
  by (simp add: server_ok_def)

lemma server_ok_deref:
  "server_ok l s (ys @ (a, c) # zs) \<Longrightarrow> deref (sv_heap s) a = Some (c\<lparr>cl_next := hd_ptr zs NULL\<rparr>)"
  unfolding server_ok_def by (blast intro: rep_deref)

lemma server_ok_length:
  assumes "server_ok l s xs"
  shows "int (length xs) \<le> FD_SETSIZE"
proof -
  have "length xs = card (set (fds xs))" using assms distinct_card[of "fds xs"] by (simp add: server_ok_def)
  also have "\<dots> \<le> card {0..<FD_SETSIZE}" using assms by (intro card_mono) (simp_all add: server_ok_def)
  finally show ?thesis by simp
qed

lemma server_ok_count:
  "server_ok l s xs \<Longrightarrow> 0 \<le> client_connected s \<and> client_connected s \<le> FD_SETSIZE"
  using server_ok_length[of l s xs] by (simp add: server_ok_def)

lemma handle_message_spec:
  assumes "server_ok l s xs" and "(a, c) \<in> set xs" and "username c = Some name"
    and "no_disconnect (sv_writes s)"
  shows "\<exists>es ws. handle_message a m s = Some (quiet s ws es) \<and> set ws \<subseteq> set (sv_writes s) \<and>
    (writes_ok (sv_writes s) \<longrightarrow> stdout_of es = server_shows name m \<and>
       delivers (handed (fds xs) (sock_fd c) name (client_connected s) m) es)"
proof -
  have r: "rep (sv_clients s, sv_heap s) xs" and hd: "sv_clients s = hd_ptr xs NULL"
    and n: "length name < MAX_NAME" and ds: "distinct (fds xs)"
    using assms(1,2,3) by (auto simp: server_ok_def rep_def peer_ok_def)
  obtain ys zs where xs: "xs = ys @ (a, c) # zs" using assms(2) by (meson split_list)
  have d: "deref (sv_heap s) a = Some (c\<lparr>cl_next := hd_ptr zs NULL\<rparr>)"
    using rep_deref[of "sv_clients s" "sv_heap s" ys a c zs] r xs by simp
  show ?thesis
  proof (cases "m = connected_command")
    case True
    let ?t = "show_int (client_connected s) @ [LF]"
    have t: "connected_reply (client_connected s) = Some ?t" "length ?t + 2 \<le> BUF_SIZE"
      using server_ok_count[OF assms(1)] length_show_int[of "client_connected s"]
      by (simp_all add: connected_reply_eq)
    obtain rc es ws where "sv_write a ?t s = Some (rc, quiet s ws es)" "set ws \<subseteq> set (sv_writes s)"
      "writes_ok (sv_writes s) \<longrightarrow> stdout_of es = [] \<and>
         delivers (\<lambda>fd. if fd = sock_fd c then ?t @ [CR, LF] else []) es"
      using sv_write_spec[OF r assms(2) t(2) assms(4)] by blast
    then show ?thesis using True t(1)
      by (intro exI[of _ es] exI[of _ ws])
        (simp add: handle_message_def strncmp_connected server_shows_def handed_def delivers_def)
  next
    case False
    have t: "length (chat_line name m) + 2 \<le> BUF_SIZE" using n by (simp add: chat_line_def)
    obtain es ws where b: "broadcast a (chat_line name m) (sv_clients s) s = Some (quiet s ws es)"
      "set ws \<subseteq> set (sv_writes s)"
      "writes_ok (sv_writes s) \<longrightarrow> stdout_of es = [] \<and>
         delivers (\<lambda>fd. if fd \<in> set (fds xs) then chat_line name m @ [CR, LF] else []) es"
      using broadcast_spec[of s "[]" xs a c name "chat_line name m"] r hd assms(2-4) t ds by auto
    let ?out = "display_message (snprintf BUF_SIZE (name @ '': '' @ m @ [LF]))"
    have o: "stdout_of ?out = server_shows name m"
      using False by (simp add: server_shows_def snprintf_def del: take_append)
    have "handle_message a m s = Some (quiet s ws (es @ ?out))"
      using d b(1) False assms(3) chat_text_eq[OF n]
      by (simp add: handle_message_def strncmp_connected)
    then show ?thesis using b(2,3) False o
      by (intro exI[of _ "es @ ?out"] exI[of _ ws]) (simp add: handed_def delivers_def)
  qed
qed

section \<open>The messages of one client\<close>

abbreviation view :: "client_socket \<Rightarrow> string" where
  "view c \<equiv> buffer_view (cl_buf c, cl_inbuf c)"

abbreviation same_peer :: "client_socket \<Rightarrow> client_socket \<Rightarrow> bool" where
  "same_peer c c' \<equiv> sock_fd c' = sock_fd c \<and> username c' = username c \<and> peer_ok c'"

text \<open>Replacing a node in place keeps the invariant.\<close>

lemma server_ok_node:
  assumes "server_ok l s (ys @ (a, c) # zs)" and "rep (sv_clients s, h) (ys @ (a, c') # zs)"
    and "sock_fd c' = sock_fd c" and "peer_ok c'"
  shows "server_ok l (s\<lparr>sv_heap := h\<rparr>) (ys @ (a, c') # zs)"
  using assms by (auto simp: server_ok_def)

definition answers :: "(string \<Rightarrow> int \<Rightarrow> string) \<Rightarrow> string list \<Rightarrow> int \<Rightarrow> string" where
  "answers f ms fd = concat (map (\<lambda>m. f m fd) ms)"

text \<open>What handling the messages \<open>ms\<close> of a client does.\<close>

definition served :: "(ptr \<times> client_socket) list \<Rightarrow> client_socket \<Rightarrow> string \<Rightarrow> string list \<Rightarrow> server \<Rightarrow> server \<Rightarrow> bool" where
  "served xs c name ms s s' \<longleftrightarrow>
     set (sv_writes s') \<subseteq> set (sv_writes s) \<and> client_id s' = client_id s \<and>
     (\<exists>es. sv_trace s' = sv_trace s @ es \<and>
       (writes_ok (sv_writes s) \<longrightarrow> stdout_of es = concat (map (server_shows name) (map cstr ms)) \<and>
          delivers (answers (handed (fds xs) (sock_fd c) name (int (length xs))) (map cstr ms)) es))"

lemma serve_messages_spec:
  "server_ok l s (ys @ (a, c) # zs) \<Longrightarrow> username c = Some name \<Longrightarrow> no_disconnect (sv_writes s) \<Longrightarrow>
   \<exists>s' c'. serve_messages a s = Some s' \<and> server_ok l s' (ys @ (a, c') # zs) \<and> same_peer c c' \<and>
     view c' = snd (messages (view c)) \<and>
     served (ys @ (a, c) # zs) c name (fst (messages (view c))) s s'"
proof (induction "cl_inbuf c" arbitrary: s c rule: less_induct)
  case less
  let ?xs = "ys @ (a, c) # zs"
  have r: "rep (sv_clients s, sv_heap s) ?xs" and p: "peer_ok c"
    using less.prems(1) by (auto simp: server_ok_def)
  have b: "buffer_ok (cl_buf c, cl_inbuf c)" using p by (simp add: peer_ok_def)
  then have bl: "cl_inbuf c \<le> length (cl_buf c)" by (simp add: buffer_ok_def)
  have d: "deref (sv_heap s) a = Some (c\<lparr>cl_next := hd_ptr zs NULL\<rparr>)" using rep_deref[OF r] .
  show ?case
  proof (cases "get_message (cl_buf c) (cl_inbuf c)")
    case None
    then have "serve_messages a s = Some s" using d by (subst serve_messages.simps) simp
    moreover have "messages (view c) = ([], view c)"
      using None get_message_None[OF bl] by (simp add: messages.simps buffer_view_def)
    ultimately show ?thesis using less.prems p
      by (intro exI[of _ s] exI[of _ c]) (simp add: served_def delivers_def answers_def)
  next
    case (Some x)
    obtain m buf inbuf where x: "get_message (cl_buf c) (cl_inbuf c) = Some (m, buf, inbuf)"
      using Some by (cases x) auto
    let ?c = "c\<lparr>cl_buf := buf, cl_inbuf := inbuf\<rparr>"
    have t: "split_crlf (view c) = Some (m, view ?c)" "buffer_ok (buf, inbuf)"
      using sock.take_Some[OF b, of m "(buf, inbuf)"] x by (simp_all add: next_message_def)
    have ms: "messages (view c) = (m # fst (messages (view ?c)), snd (messages (view ?c)))"
      using t(1) by (subst messages.simps) simp
    have nx: "cl_next c = NULL" using r by (auto simp: rep_def seg_append)
    obtain h where h: "upd (sv_heap s) a (\<lambda>c. c\<lparr>cl_buf := buf, cl_inbuf := inbuf\<rparr>) = Some h"
      "rep (sv_clients s, h) (ys @ (a, ?c) # zs)"
      using rep_upd[OF r, of "\<lambda>c. c\<lparr>cl_buf := buf, cl_inbuf := inbuf\<rparr>" ?c] nx by auto
    let ?s = "s\<lparr>sv_heap := h\<rparr>"
    have ok: "server_ok l ?s (ys @ (a, ?c) # zs)"
      using server_ok_node[OF less.prems(1) h(2)] p t(2) by (simp add: peer_ok_def)
    have count: "client_connected ?s = int (length ?xs)" using less.prems(1) by (simp add: server_ok_def)
    obtain es ws where hm: "handle_message a (cstr m) ?s = Some (quiet ?s ws es)"
      "set ws \<subseteq> set (sv_writes s)"
      "writes_ok (sv_writes s) \<longrightarrow> stdout_of es = server_shows name (cstr m) \<and>
         delivers (handed (fds ?xs) (sock_fd c) name (int (length ?xs)) (cstr m)) es"
      using handle_message_spec[OF ok, of a ?c name "cstr m"] less.prems(2,3) count by auto
    have "inbuf < cl_inbuf c" using get_message_shrinks[OF x] .
    moreover have "no_disconnect ws" using less.prems(3) hm(2) by (rule no_disconnect_subset)
    ultimately obtain s' c' where ih: "serve_messages a (quiet ?s ws es) = Some s'"
      "server_ok l s' (ys @ (a, c') # zs)" "same_peer ?c c'"
      "view c' = snd (messages (view ?c))"
      "served (ys @ (a, ?c) # zs) ?c name (fst (messages (view ?c))) (quiet ?s ws es) s'"
      using less.hyps[of ?c "quiet ?s ws es"] ok less.prems(2) by auto
    have "serve_messages a s = Some s'"
      using d x h(1) hm(1) ih(1) by (subst serve_messages.simps) simp
    moreover have "served ?xs c name (fst (messages (view c))) s s'"
      using ih(5) hm(2,3) writes_ok_subset[of "sv_writes s" ws]
      by (auto simp: served_def ms delivers_def answers_def)
    ultimately show ?thesis using ih(2,3,4) ms by (intro exI[of _ s'] exI[of _ c']) simp
  qed
qed

section \<open>One client\<close>

lemma sv_read_spec:
  assumes "server_ok l s (ys @ (a, c) # zs)"
  shows "\<exists>r h c'. sv_read reply a s = Some (r, s\<lparr>sv_heap := h\<rparr>) \<and>
    server_ok l (s\<lparr>sv_heap := h\<rparr>) (ys @ (a, c') # zs) \<and> same_peer c c' \<and> r \<in> {-1, 0, 1, 2} \<and>
    (case reply of
       Read_Error \<Rightarrow> r = -1
     | Read_Bytes offered \<Rightarrow>
         (let bs = take (BUF_SIZE - cl_inbuf c - 1) offered in
            view c' = view c @ bs \<and>
            r = (if bs = [] then 1 else if split_crlf (view c @ bs) = None then 2 else 0)))"
proof -
  have r: "rep (sv_clients s, sv_heap s) (ys @ (a, c) # zs)" and p: "peer_ok c"
    using assms by (auto simp: server_ok_def)
  have b: "buffer_ok (cl_buf c, cl_inbuf c)" using p by (simp add: peer_ok_def)
  obtain k buf inbuf where rd: "read_from_socket reply (cl_buf c) (cl_inbuf c) = (k, buf, inbuf)"
    by (metis prod.exhaust)
  let ?c = "c\<lparr>cl_buf := buf, cl_inbuf := inbuf\<rparr>"
  note cases = read_from_socket_cases[OF b rd]
  have v: "view ?c = take inbuf buf" "view c = take (cl_inbuf c) (cl_buf c)"
    by (simp_all add: buffer_view_def)
  obtain h where h: "read_from_client reply a (sv_heap s) = Some (k, h)" "rep (sv_clients s, h) (ys @ (a, ?c) # zs)"
    using read_from_client_rep[OF r rd] by blast
  have pc: "peer_ok ?c" using p cases by (simp add: peer_ok_def)
  have "server_ok l (s\<lparr>sv_heap := h\<rparr>) (ys @ (a, ?c) # zs)"
    using server_ok_node[OF assms h(2)] pc by simp
  moreover have "sv_read reply a s = Some (k, s\<lparr>sv_heap := h\<rparr>)" using h(1) by (simp add: sv_read_def)
  moreover have "k \<in> {-1, 0, 1, 2}" using cases by (auto simp: Let_def split: read_reply.splits if_splits)
  moreover have "case reply of
       Read_Error \<Rightarrow> k = -1
     | Read_Bytes offered \<Rightarrow>
         (let bs = take (BUF_SIZE - cl_inbuf c - 1) offered in
            view ?c = view c @ bs \<and>
            k = (if bs = [] then 1 else if split_crlf (view c @ bs) = None then 2 else 0))"
    unfolding v using cases by (cases reply; simp only: read_reply.case Let_def; blast)
  ultimately show ?thesis using pc
    by (intro exI[of _ k] exI[of _ h] exI[of _ ?c] conjI; (assumption | simp))
qed

definition client_name :: "int \<Rightarrow> string" where
  "client_name i = take 99 (''client'' @ show_int i)"

lemma greet_spec:
  assumes "server_ok l s (ys @ (a, c) # zs)"
  shows "\<exists>k s' c'. greet inp a closed s = Some (k, s') \<and> server_ok l s' (ys @ (a, c') # zs) \<and>
    sock_fd c' = sock_fd c \<and> view c' = view c \<and> sv_writes s' = sv_writes s \<and>
    (if closed = 0 \<and> username c = None then
       (if strdup_ok inp (client_id s + 1)
        then k = 0 \<and> username c' = Some (client_name (client_id s + 1)) \<and> sv_trace s' = sv_trace s \<and>
          client_id s' = client_id s + 1
        else k = 1)
     else k = closed \<and> c' = c \<and> s' = s)"
proof -
  have r: "rep (sv_clients s, sv_heap s) (ys @ (a, c) # zs)" and p: "peer_ok c"
    using assms by (auto simp: server_ok_def)
  have d: "deref (sv_heap s) a = Some (c\<lparr>cl_next := hd_ptr zs NULL\<rparr>)" using rep_deref[OF r] .
  have nx: "cl_next c = NULL" using r by (auto simp: rep_def seg_append)
  let ?i = "client_id s + 1"
  show ?thesis
  proof (cases "closed = 0 \<and> username c = None")
    case False
    then show ?thesis using d assms
      by (intro exI[of _ closed] exI[of _ s] exI[of _ c]) (simp add: greet_def)
  next
    case True
    show ?thesis
    proof (cases "strdup_ok inp ?i")
      case dup: True
      let ?c = "c\<lparr>username := Some (client_name ?i)\<rparr>"
      obtain h where h: "set_username True a ?i (sv_heap s) = Some (0, h, [])"
        "rep (sv_clients s, h) (ys @ (a, ?c) # zs)"
        using set_username_rep[OF r] unfolding client_name_def by blast
      have "length (client_name ?i) < MAX_NAME" by (simp add: client_name_def)
      then have "server_ok l (s\<lparr>sv_heap := h\<rparr>) (ys @ (a, ?c) # zs)"
        using server_ok_node[OF assms h(2)] p by (simp add: peer_ok_def)
      then have "server_ok l (s\<lparr>client_id := ?i, sv_heap := h\<rparr>) (ys @ (a, ?c) # zs)"
        by (simp add: server_ok_def)
      then show ?thesis using True dup d h(1)
        by (intro exI[of _ 0] exI[of _ "s\<lparr>client_id := ?i, sv_heap := h\<rparr>"] exI[of _ ?c])
          (simp add: greet_def emit_def)
    next
      case dup: False
      let ?c = "c\<lparr>username := None\<rparr>"
      obtain h where h: "upd (sv_heap s) a (\<lambda>c. c\<lparr>username := None\<rparr>) = Some h"
        "rep (sv_clients s, h) (ys @ (a, ?c) # zs)"
        using rep_upd[OF r, of "\<lambda>c. c\<lparr>username := None\<rparr>" ?c] nx by auto
      have "server_ok l (s\<lparr>sv_heap := h\<rparr>) (ys @ (a, ?c) # zs)"
        using server_ok_node[OF assms h(2)] p by (simp add: peer_ok_def)
      then have ok: "server_ok l (emit es (emit fs (s\<lparr>client_id := ?i, sv_heap := h\<rparr>))) (ys @ (a, ?c) # zs)" for es fs
        by (simp add: server_ok_def emit_def)
      let ?t = "emit (display_error (''ERROR: Failed to assign USER ID.'' @ [LF]) [])
        (emit (display_error ''ERROR: Failed to allocate memory for clients'' [])
          (s\<lparr>client_id := ?i, sv_heap := h\<rparr>))"
      have "greet inp a closed s = Some (1, ?t)"
        using True dup d h(1) by (simp add: greet_def set_username_def emit_def)
      then show ?thesis using True dup ok
        by (intro exI[of _ 1] exI[of _ ?t] exI[of _ ?c]) (simp add: emit_def)
    qed
  qed
qed

lemma drop_client_spec:
  assumes "server_ok l s (ys @ (a, c) # zs)"
  shows "\<exists>s'. drop_client a s = Some (hd_ptr zs NULL, s') \<and> server_ok l s' (ys @ zs) \<and>
    sv_writes s' = sv_writes s \<and> sv_trace s' = sv_trace s @ [Close_Fd (sock_fd c)]"
proof -
  have r: "rep (sv_clients s, sv_heap s) (ys @ (a, c) # zs)" using assms by (simp add: server_ok_def)
  have d: "deref (sv_heap s) a = Some (c\<lparr>cl_next := hd_ptr zs NULL\<rparr>)" using rep_deref[OF r] .
  obtain p h where h: "remove_client a (sv_clients s) (sv_heap s) = Some (0, hd_ptr zs NULL, p, h)"
    "rep (p, h) (ys @ zs)" using remove_client_rep[OF r] by blast
  let ?s = "emit [Close_Fd (sock_fd c)]
    (s\<lparr>all_fds := all_fds s - {sock_fd c}, client_connected := client_connected s - 1\<rparr>)"
  let ?t = "?s\<lparr>sv_clients := p, sv_heap := h\<rparr>"
  have "drop_client a s = Some (hd_ptr zs NULL, ?t)"
    using d h(1) by (simp add: drop_client_def sv_remove_def emit_def)
  moreover have "server_ok l ?t (ys @ zs)"
    using assms h(2) by (auto simp: server_ok_def emit_def)
  ultimately show ?thesis by (intro exI[of _ ?t]) (simp add: emit_def)
qed


lemma client_step_spec:
  assumes "server_ok l s (ys @ (a, c) # zs)" and "no_disconnect (sv_writes s)"
  shows "\<exists>s' mid. client_step inp a s = Some (hd_ptr zs NULL, s') \<and> server_ok l s' (ys @ mid @ zs) \<and>
    (mid = [] \<or> (\<exists>c'. mid = [(a, c')] \<and> sock_fd c' = sock_fd c)) \<and> no_disconnect (sv_writes s')"
proof -
  have r: "rep (sv_clients s, sv_heap s) (ys @ (a, c) # zs)" using assms(1) by (simp add: server_ok_def)
  have d: "deref (sv_heap s) a = Some (c\<lparr>cl_next := hd_ptr zs NULL\<rparr>)" using rep_deref[OF r] .
  show ?thesis
  proof (cases "sock_fd c \<in> listen_fds inp")
    case False
    then show ?thesis using d assms
      by (intro exI[of _ s] exI[of _ "[(a, c)]"]) (simp add: client_step_def)
  next
    case True
    obtain k h c1 where rd: "sv_read (read_replies inp (sock_fd c)) a s = Some (k, s\<lparr>sv_heap := h\<rparr>)"
      "server_ok l (s\<lparr>sv_heap := h\<rparr>) (ys @ (a, c1) # zs)" "same_peer c c1"
      using sv_read_spec[OF assms(1)] by blast
    let ?k = "if k = -1 then 1 else k"
    obtain k2 s2 c2 where g: "greet inp a ?k (s\<lparr>sv_heap := h\<rparr>) = Some (k2, s2)"
      "server_ok l s2 (ys @ (a, c2) # zs)" "sock_fd c2 = sock_fd c1" "sv_writes s2 = sv_writes s"
      "k2 = 0 \<longrightarrow> username c2 \<noteq> None"
      using greet_spec[OF rd(2), of inp ?k] by (auto split: if_splits)
    obtain s3 c3 where s3: "(if k2 = 0 then serve_messages a s2 else Some s2) = Some s3"
      "server_ok l s3 (ys @ (a, c3) # zs)" "sock_fd c3 = sock_fd c2" "set (sv_writes s3) \<subseteq> set (sv_writes s2)"
    proof (cases "k2 = 0")
      case True
      then obtain name where "username c2 = Some name" using g(5) by auto
      then show ?thesis using serve_messages_spec[OF g(2)] assms(2) g(4) True that
        by (auto simp: served_def)
    qed (use g that in auto)
    have nd: "no_disconnect (sv_writes s3)" using assms(2) s3(4) g(4) no_disconnect_subset by metis
    have step: "client_step inp a s =
        (if k2 = 1 then drop_client a s3 else do { c3 \<leftarrow> deref (sv_heap s3) a; Some (cl_next c3, s3) })"
      using d True rd(1) g(1) s3(1) by (simp add: client_step_def)
    show ?thesis
    proof (cases "k2 = 1")
      case True
      then obtain s4 where "client_step inp a s = Some (hd_ptr zs NULL, s4)" "server_ok l s4 (ys @ zs)"
        "sv_writes s4 = sv_writes s3" using drop_client_spec[OF s3(2)] step by auto
      then show ?thesis using nd by (intro exI[of _ s4] exI[of _ "[]"]) simp
    next
      case False
      have "deref (sv_heap s3) a = Some (c3\<lparr>cl_next := hd_ptr zs NULL\<rparr>)"
        using s3(2) by (rule server_ok_deref)
      then show ?thesis using False step nd s3 g(3) rd(3)
        by (intro exI[of _ s3] exI[of _ "[(a, c3)]"]) simp
    qed
  qed
qed

section \<open>One round, and the loop\<close>

text \<open>Every client is visited once; clients that are not ready stay as they are.\<close>

lemma serve_clients_spec:
  "server_ok l s (ys @ zs) \<Longrightarrow> no_disconnect (sv_writes s) \<Longrightarrow>
   \<exists>s' zs'. serve_clients inp (hd_ptr zs NULL) s = Some s' \<and> server_ok l s' (ys @ zs') \<and>
     set (fds zs') \<subseteq> set (fds zs) \<and> no_disconnect (sv_writes s')"
proof (induction zs arbitrary: s ys)
  case Nil
  then show ?case by (intro exI[of _ s] exI[of _ "[]"]) (simp add: serve_clients.simps)
next
  case (Cons z zs)
  obtain a c where z: "z = (a, c)" by (cases z)
  obtain s1 mid where s1: "client_step inp a s = Some (hd_ptr zs NULL, s1)"
      "server_ok l s1 ((ys @ mid) @ zs)" "set (fds mid) \<subseteq> {sock_fd c}" "no_disconnect (sv_writes s1)"
    using client_step_spec[of l s ys a c zs inp] Cons.prems z by (auto; force)
  obtain s2 zs' where s2: "serve_clients inp (hd_ptr zs NULL) s1 = Some s2"
      "server_ok l s2 ((ys @ mid) @ zs')" "set (fds zs') \<subseteq> set (fds zs)" "no_disconnect (sv_writes s2)"
    using Cons.IH[OF s1(2,4)] by blast
  have "a \<noteq> NULL" using Cons.prems(1) z by (simp add: server_ok_def rep_def seg_append)
  then have "serve_clients inp (hd_ptr (z # zs) NULL) s = Some s2"
    using z s1(1) s2(1) by (subst serve_clients.simps) simp
  then show ?case using s1(3) s2 z
    by (intro exI[of _ s2] exI[of _ "mid @ zs'"]) auto
qed


text \<open>What the system answers: a new connection comes with a descriptor that is not in use.\<close>

fun input_ok :: "int \<Rightarrow> server \<Rightarrow> select_reply \<Rightarrow> bool" where
  "input_ok listener s Select_EINTR = True"
| "input_ok listener s Select_Error = False"
| "input_ok listener s (Ready inp) =
     (listener \<in> listen_fds inp \<longrightarrow>
        0 \<le> accept_reply inp \<and> accept_reply inp < FD_SETSIZE \<and> accept_reply inp \<notin> all_fds s)"

lemma accept_phase_spec:
  assumes "server_ok l s xs" and "input_ok l s (Ready inp)"
  shows "\<exists>s' new. accept_phase l inp s = Some (Serving s') \<and> server_ok l s' (xs @ new) \<and>
    fds new = (if l \<in> listen_fds inp then [accept_reply inp] else []) \<and>
    sv_writes s' = sv_writes s \<and> sv_trace s' = sv_trace s \<and> client_id s' = client_id s \<and>
    (\<forall>x\<in>set new. view (snd x) = [] \<and> username (snd x) = None)"
proof (cases "l \<in> listen_fds inp")
  case False
  then show ?thesis using assms by (intro exI[of _ s] exI[of _ "[]"]) (simp add: accept_phase_def)
next
  case True
  let ?fd = "accept_reply inp"
  have fd: "0 \<le> ?fd" "?fd < FD_SETSIZE" "?fd \<notin> all_fds s" using True assms(2) by simp_all
  have r: "rep (sv_clients s, sv_heap s) xs" using assms(1) by (simp add: server_ok_def)
  obtain h p where a: "append_client ?fd (sv_clients s) (sv_heap s) = Some (p, h)"
    "rep (p, h) (xs @ [(fresh (sv_heap s), new_client ?fd)])" using append_client_rep[OF r] by blast
  then obtain q where "last_node (sv_heap s) (sv_clients s) = Some q"
    by (auto simp: append_client_def split: Option.bind_splits)
  then have ac: "accept_phase l inp s = Some (Serving (s\<lparr>sv_clients := p, sv_heap := h,
      client_connected := client_connected s + 1, max_fd := max ?fd (max_fd s), all_fds := insert ?fd (all_fds s)\<rparr>))"
    (is "_ = Some (Serving ?s)")
    using True fd a(1) by (simp add: accept_phase_def accept_connection_def)
  have "peer_ok (new_client ?fd)" "sock_fd (new_client ?fd) = ?fd"
    by (simp_all add: peer_ok_def new_client_def buffer_ok_def)
  then have "server_ok l ?s (xs @ [(fresh (sv_heap s), new_client ?fd)])"
    using assms(1) a(2) fd by (auto simp: server_ok_def le_max_iff_disj)
  then show ?thesis using True ac
    by (intro exI[of _ ?s] exI[of _ "[(fresh (sv_heap s), new_client ?fd)]"])
      (simp add: new_client_def buffer_view_def)
qed

lemma server_round_spec:
  assumes "server_ok l s xs" and "no_disconnect (sv_writes s)" and "input_ok l s reply"
  shows "\<exists>s' xs'. server_round l reply s = Some (Serving s') \<and> server_ok l s' xs' \<and> no_disconnect (sv_writes s')"
proof (cases reply)
  case (Ready inp)
  obtain s1 new where s1: "accept_phase l inp s = Some (Serving s1)" "server_ok l s1 (xs @ new)"
    "sv_writes s1 = sv_writes s" using accept_phase_spec assms(1,3) Ready by blast
  then have "sv_clients s1 = hd_ptr (xs @ new) NULL" by (simp add: server_ok_def rep_def)
  then obtain s2 zs where "serve_clients inp (sv_clients s1) s1 = Some s2" "server_ok l s2 zs"
    "no_disconnect (sv_writes s2)"
    using serve_clients_spec[of l s1 "[]" "xs @ new" inp] s1 assms(2) by auto
  then show ?thesis using Ready s1(1) by (auto simp: server_round_def)
qed (use assms in \<open>auto simp: server_round_def\<close>)

inductive server_reaches :: "int \<Rightarrow> write_reply list \<Rightarrow> server \<Rightarrow> bool" for listener ws where
  start: "server_reaches listener ws (start_state listener ws)"
| round: "server_reaches listener ws s \<Longrightarrow> input_ok listener s reply \<Longrightarrow>
          server_round listener reply s = Some (Serving s') \<Longrightarrow> server_reaches listener ws s'"

lemma start_state_ok: "server_ok l (start_state l ws) []"
  by (simp add: server_ok_def start_state_def rep_empty)

lemma server_reaches_ok:
  assumes "server_reaches l ws s" and "no_disconnect ws"
  shows "(\<exists>xs. server_ok l s xs) \<and> no_disconnect (sv_writes s)"
  using assms
proof (induction rule: server_reaches.induct)
  case start
  then show ?case using start_state_ok[of l ws] by (auto simp: start_state_def)
next
  case (round s reply s')
  then show ?case using server_round_spec by fastforce
qed

lemma server_progress:
  assumes "server_reaches l ws s" and "no_disconnect ws" and "input_ok l s reply"
  shows "\<exists>s' xs. server_round l reply s = Some (Serving s') \<and> server_reaches l ws s' \<and>
    server_ok l s' xs \<and> client_connected s' = int (length xs)"
proof -
  obtain xs where "server_ok l s xs" "no_disconnect (sv_writes s)"
    using server_reaches_ok[OF assms(1,2)] by blast
  then obtain s' xs' where "server_round l reply s = Some (Serving s')" "server_ok l s' xs'"
    using server_round_spec assms(3) by blast
  moreover from this have "client_connected s' = int (length xs')" by (simp add: server_ok_def)
  ultimately show ?thesis using server_reaches.round[OF assms(1,3)] by blast
qed

section \<open>Delivery\<close>

text \<open>
  The client's name for this round: a client that has none gets one with its first complete
  message.
\<close>

definition name_of :: "client_socket \<Rightarrow> server \<Rightarrow> string" where
  "name_of c s = (case username c of Some name \<Rightarrow> name | None \<Rightarrow> client_name (client_id s + 1))"

lemma client_step_ready:
  assumes ok: "server_ok l s (ys @ (a, c) # zs)" (is "server_ok l s ?xs")
    and rdy: "sock_fd c \<in> listen_fds inp" "strdup_ok inp (client_id s + 1)"
    and bs: "read_replies inp (sock_fd c) = Read_Bytes bs" "bs \<noteq> []" "length bs \<le> BUF_SIZE - cl_inbuf c - 1"
    and ws: "writes_ok (sv_writes s)"
  shows "\<exists>s' c' es. client_step inp a s = Some (hd_ptr zs NULL, s') \<and>
    server_ok l s' (ys @ (a, c') # zs) \<and> sock_fd c' = sock_fd c \<and>
    view c' = snd (messages (view c @ bs)) \<and> sv_trace s' = sv_trace s @ es \<and>
    stdout_of es = concat (map (server_shows (name_of c s)) (map cstr (fst (messages (view c @ bs))))) \<and>
    delivers (answers (handed (fds ?xs) (sock_fd c) (name_of c s) (int (length ?xs)))
      (map cstr (fst (messages (view c @ bs))))) es \<and>
    set (sv_writes s') \<subseteq> set (sv_writes s) \<and>
    (if fst (messages (view c @ bs)) = [] then username c' = username c \<and> client_id s' = client_id s
     else username c' = Some (name_of c s) \<and> client_id s' = (if username c = None then client_id s + 1 else client_id s))"
proof -
  have d: "deref (sv_heap s) a = Some (c\<lparr>cl_next := hd_ptr zs NULL\<rparr>)" using ok by (rule server_ok_deref)
  have tk: "take (BUF_SIZE - cl_inbuf c - 1) bs = bs" using bs(3) by simp
  obtain k h c1 where rd: "sv_read (Read_Bytes bs) a s = Some (k, s\<lparr>sv_heap := h\<rparr>)"
      "server_ok l (s\<lparr>sv_heap := h\<rparr>) (ys @ (a, c1) # zs)" "same_peer c c1" "view c1 = view c @ bs"
      "k = (if split_crlf (view c @ bs) = None then 2 else 0)"
    using sv_read_spec[OF ok, of "Read_Bytes bs", unfolded read_reply.case Let_def tk] bs(2) by auto
  let ?s = "s\<lparr>sv_heap := h\<rparr>"
  show ?thesis
  proof (cases "split_crlf (view c @ bs)")
    case None
    have m: "messages (view c @ bs) = ([], view c @ bs)" using None by (simp add: messages.simps)
    have "greet inp a 2 ?s = Some (2, ?s)" using greet_spec[OF rd(2), of inp 2] by simp
    then have "client_step inp a s = Some (hd_ptr zs NULL, ?s)"
      using d rdy(1) rd(1,5) bs(1) None server_ok_deref[OF rd(2)] by (simp add: client_step_def)
    then show ?thesis using rd m
      by (intro exI[of _ ?s] exI[of _ c1] exI[of _ "[]"]) (simp add: delivers_def answers_def)
  next
    case (Some x)
    obtain s2 c2 where g: "greet inp a 0 ?s = Some (0, s2)" "server_ok l s2 (ys @ (a, c2) # zs)"
      "sock_fd c2 = sock_fd c1" "view c2 = view c1" "sv_writes s2 = sv_writes s" "sv_trace s2 = sv_trace s"
      "username c2 = Some (name_of c s)" "client_id s2 = (if username c = None then client_id s + 1 else client_id s)"
    proof (cases "username c")
      case None
      then show ?thesis using greet_spec[OF rd(2), of inp 0] rdy(2) rd(3) that
        by (auto simp: name_of_def)
    next
      case (Some n)
      then show ?thesis using greet_spec[OF rd(2), of inp 0] rd(3) that by (auto simp: name_of_def)
    qed
    have nd: "no_disconnect (sv_writes s2)" using ws g(5) by (simp add: writes_ok_no_disconnect)
    obtain s' c' where sm: "serve_messages a s2 = Some s'" "server_ok l s' (ys @ (a, c') # zs)"
      "same_peer c2 c'" "view c' = snd (messages (view c2))"
      "served (ys @ (a, c2) # zs) c2 (name_of c s) (fst (messages (view c2))) s2 s'"
      using serve_messages_spec[OF g(2,7) nd] by blast
    have "client_step inp a s = Some (hd_ptr zs NULL, s')"
      using d rdy(1) rd(1,5) bs(1) Some g(1) sm(1) server_ok_deref[OF sm(2)] by (simp add: client_step_def)
    moreover have "fds (ys @ (a, c2) # zs) = fds ?xs" using g(3) rd(3) by simp
    moreover have "fst (messages (view c @ bs)) \<noteq> []"
      using Some by (subst messages.simps) (simp split: prod.splits)
    ultimately show ?thesis using sm ws g rd(3,4) unfolding served_def by auto
  qed
qed

lemma client_step_delivers:
  assumes ok: "server_ok l s (ys @ (a, c) # zs)" (is "server_ok l s ?xs")
    and rdy: "sock_fd c \<in> listen_fds inp" "strdup_ok inp (client_id s + 1)"
    and bs: "read_replies inp (sock_fd c) = Read_Bytes bs" "bs \<noteq> []" "length bs \<le> BUF_SIZE - cl_inbuf c - 1"
    and ws: "writes_ok (sv_writes s)"
  shows "\<exists>s' c' es. client_step inp a s = Some (hd_ptr zs NULL, s') \<and>
    server_ok l s' (ys @ (a, c') # zs) \<and> sock_fd c' = sock_fd c \<and>
    view c' = snd (messages (view c @ bs)) \<and> sv_trace s' = sv_trace s @ es \<and>
    stdout_of es = concat (map (server_shows (name_of c s)) (map cstr (fst (messages (view c @ bs))))) \<and>
    delivers (answers (handed (fds ?xs) (sock_fd c) (name_of c s) (int (length ?xs)))
      (map cstr (fst (messages (view c @ bs))))) es"
  using client_step_ready[OF assms] by blast

section \<open>When a write finds the connection gone\<close>

lemma deref_upd_keeps: "upd h a f = Some h' \<Longrightarrow> deref h b = None \<Longrightarrow> deref h' b = None"
  by (auto simp: upd_def deref_def split: Option.bind_splits if_splits)

lemma deref_free_keeps: "free h a = Some h' \<Longrightarrow> deref h b = None \<Longrightarrow> deref h' b = None"
  by (auto simp: free_def deref_def split: Option.bind_splits if_splits)

lemma remove_client_keeps:
  "remove_client a p h = Some (r, q, p', h') \<Longrightarrow> deref h b = None \<Longrightarrow> deref h' b = None"
  by (auto simp: remove_client_def split: Option.bind_splits if_splits option.splits
      dest: deref_upd_keeps deref_free_keeps)

lemma remove_client_frees: "remove_client a p h = Some (0, q, p', h') \<Longrightarrow> deref h' a = None"
  by (auto simp: remove_client_def free_def deref_def split: Option.bind_splits if_splits option.splits)

lemma sv_write_heap: "sv_write a t s = Some (r, s') \<Longrightarrow> sv_heap s' = sv_heap s \<and> sv_clients s' = sv_clients s"
  by (auto simp: sv_write_def emit_def split: Option.bind_splits)

lemma broadcast_step_keeps:
  assumes "broadcast_step a t dest s = Some (d', s')" and "deref (sv_heap s) b = None"
  shows "deref (sv_heap s') b = None"
proof -
  obtain r s1 where w: "sv_write dest t s = Some (r, s1)" "deref (sv_heap s1) b = None"
    using assms sv_write_heap by (fastforce simp: broadcast_step_def split: Option.bind_splits)
  then show ?thesis using assms(1)
    by (auto simp: broadcast_step_def Let_def sv_remove_def emit_def
        split: Option.bind_splits if_splits dest: remove_client_keeps)
qed

text \<open>A freed node stays freed through the rest of the loop.\<close>

lemma broadcast_keeps:
  assumes "broadcast a t dest s = Some s'" and "deref (sv_heap s) b = None"
  shows "deref (sv_heap s') b = None"
proof -
  have "deref (sv_heap s) b = None \<longrightarrow> deref (sv_heap s') b = None"
  proof (rule broadcast.raw_induct[of "\<lambda>a t dest s s'. deref (sv_heap s) b = None \<longrightarrow> deref (sv_heap s') b = None", OF _ assms(1)])
    fix bc a t dest s s'
    assume ih: "\<And>a t dest s s'. bc a t dest s = Some s' \<Longrightarrow> deref (sv_heap s) b = None \<longrightarrow> deref (sv_heap s') b = None"
      and r: "(if dest = NULL then Some s
        else Option.bind (broadcast_step a t dest s) (\<lambda>(dest', s'). bc a t dest' s')) = Some s'"
    show "deref (sv_heap s) b = None \<longrightarrow> deref (sv_heap s') b = None"
    proof (cases "dest = NULL")
      case False
      then obtain d s1 where "broadcast_step a t dest s = Some (d, s1)" "bc a t d s1 = Some s'"
        using r by (auto split: Option.bind_splits)
      then show ?thesis using ih broadcast_step_keeps by blast
    qed (use r in simp)
  qed
  then show ?thesis using assms(2) by blast
qed

text \<open>
  The loop frees a destination whose connection is gone, even when it is the sender. The
  sender is used again afterwards, so the server then has no defined behaviour.
\<close>

lemma broadcast_frees_sender:
  assumes ok: "server_ok l s (ys @ (a, c) # zs)" and u: "username c = Some name"
    and t: "length t + 2 \<le> BUF_SIZE"
    and w: "sv_writes s = Write_Error e # ws" "e = EPIPE \<or> e = ECONNRESET"
    and b: "broadcast a t a s = Some s'"
  shows "deref (sv_heap s') a = None"
proof -
  have r: "rep (sv_clients s, sv_heap s) (ys @ (a, c) # zs)" using ok by (simp add: server_ok_def)
  have d: "deref (sv_heap s) a = Some (c\<lparr>cl_next := hd_ptr zs NULL\<rparr>)" using ok by (rule server_ok_deref)
  have a: "a \<noteq> NULL" using r by (simp add: rep_def seg_append)
  obtain p h where h: "remove_client a (sv_clients s) (sv_heap s) = Some (0, hd_ptr zs NULL, p, h)"
    "rep (p, h) (ys @ zs)" using remove_client_rep[OF r] by blast
  obtain s1 where s1: "broadcast_step a t a s = Some (hd_ptr zs NULL, s1)" "sv_heap s1 = h"
  proof -
    obtain x y where t2: "t @ [CR, LF] = x # y" by (cases "t @ [CR, LF]") auto
    have "sv_write a t s = Some (2, emit (display_error ''ERROR: Failed to write'' []) (s\<lparr>sv_writes := ws\<rparr>))"
      using d t w t2 by (auto simp: sv_write_def write_buf_to_client_def)
    then show ?thesis using d u h(1) that by (simp add: broadcast_step_def sv_remove_def emit_def)
  qed
  have "deref h a = None" using h(1) by (rule remove_client_frees)
  then show ?thesis using b s1 a broadcast_keeps[of a t "hd_ptr zs NULL" s1 s' a]
    by (subst (asm) broadcast.simps) simp
qed


lemma handle_message_fault:
  assumes "server_ok l s ((a, c) # zs)" and "username c = Some name" and "m \<noteq> connected_command"
    and "sv_writes s = Write_Error e # ws" and "e = EPIPE \<or> e = ECONNRESET"
  shows "handle_message a m s = fault"
proof -
  have hd: "sv_clients s = a" using assms(1) by (simp add: server_ok_def rep_def)
  have d: "deref (sv_heap s) a = Some (c\<lparr>cl_next := hd_ptr zs NULL\<rparr>)"
    using server_ok_deref[of l s "[]"] assms(1) by simp
  have n: "length name < MAX_NAME" using assms(1,2) by (simp add: server_ok_def peer_ok_def)
  then have t: "length (chat_line name m) + 2 \<le> BUF_SIZE" by (simp add: chat_line_def)
  have "deref (sv_heap s1) a = None" if "broadcast a (chat_line name m) a s = Some s1" for s1
    using broadcast_frees_sender[of l s "[]" a c zs, OF _ assms(2) t assms(4,5) that] assms(1) by simp
  then show ?thesis using hd d assms(2,3) chat_text_eq[OF n, of m]
    by (cases "broadcast a (chat_line name m) a s") (simp_all add: handle_message_def strncmp_connected)
qed

text \<open>
  A destination other than the sender is removed and its descriptor closed, but the counter
  that \<open>\connected\<close> reports stays: it is then larger than the number of clients.
\<close>

lemma broadcast_step_disconnect:
  assumes ok: "server_ok l s (ys @ (b, d) # zs)"
    and a: "(a, c) \<in> set (ys @ zs)" "username c = Some name" and t: "length t + 2 \<le> BUF_SIZE"
    and w: "sv_writes s = Write_Error e # ws" "e = EPIPE \<or> e = ECONNRESET"
  shows "\<exists>s'. broadcast_step a t b s = Some (hd_ptr zs NULL, s') \<and>
    rep (sv_clients s', sv_heap s') (ys @ zs) \<and> all_fds s' = all_fds s - {sock_fd d} \<and>
    client_connected s' = int (length (ys @ zs)) + 1"
proof -
  have r: "rep (sv_clients s, sv_heap s) (ys @ (b, d) # zs)" using ok by (simp add: server_ok_def)
  have d: "deref (sv_heap s) b = Some (d\<lparr>cl_next := hd_ptr zs NULL\<rparr>)" using ok by (rule server_ok_deref)
  obtain us vs where "ys @ (b, d) # zs = us @ (a, c) # vs" using a(1)
    by (metis Un_iff list.set_intros(2) set_append split_list)
  then have da: "deref (sv_heap s) a = Some (c\<lparr>cl_next := hd_ptr vs NULL\<rparr>)"
    using server_ok_deref[of l s us a c vs] ok by simp
  obtain p h where h: "remove_client b (sv_clients s) (sv_heap s) = Some (0, hd_ptr zs NULL, p, h)"
    "rep (p, h) (ys @ zs)" using remove_client_rep[OF r] by blast
  obtain x y where t2: "t @ [CR, LF] = x # y" by (cases "t @ [CR, LF]") auto
  have "sv_write b t s = Some (2, emit (display_error ''ERROR: Failed to write'' []) (s\<lparr>sv_writes := ws\<rparr>))"
    using d t w t2 by (auto simp: sv_write_def write_buf_to_client_def)
  then show ?thesis using d da a(2) h ok
    by (auto simp: broadcast_step_def sv_remove_def emit_def server_ok_def)
qed

section \<open>Cleaning up\<close>

lemma close_clients_spec:
  "rep (p, h) xs \<Longrightarrow> \<exists>h'. close_clients p h es = Some (h', es @ map Close_Fd (fds xs)) \<and> rep (NULL, h') []"
proof (induction xs arbitrary: p h es)
  case Nil
  then have "p = NULL" by (simp add: rep_def)
  then show ?case using Nil by (subst close_clients.simps) simp
next
  case (Cons x xs)
  obtain a c where x: "x = (a, c)" by (cases x)
  have r: "rep (p, h) ([] @ (a, c) # xs)" using Cons.prems x by simp
  have d: "deref h a = Some (c\<lparr>cl_next := hd_ptr xs NULL\<rparr>)" using rep_deref[OF r] .
  have p: "p = a" "a \<noteq> NULL" using r by (simp_all add: rep_def)
  obtain q h1 where h1: "remove_client a p h = Some (0, hd_ptr xs NULL, q, h1)" "rep (q, h1) xs"
    using remove_client_rep[OF r] by auto
  then have "free h a = Some h1" "q = hd_ptr xs NULL"
    using p d by (auto simp: remove_client_def split: Option.bind_splits)
  then show ?case using Cons.IH[of q h1 "es @ [Close_Fd (sock_fd c)]"] h1(2) d p x
    by (subst close_clients.simps) auto
qed

lemma clean_exit_closes:
  "server_ok l s xs \<Longrightarrow> \<exists>h. clean_exit l s = Some (h, map Close_Fd (fds xs @ [l])) \<and> rep (NULL, h) []"
  using close_clients_spec[of "sv_clients s" "sv_heap s" xs "[]"]
  by (auto simp: server_ok_def clean_exit_def)

end
