(* ===== verification/Chat_Rounds.thy ===== *)
theory Chat_Rounds
  imports Server_Correct
begin

text \<open>
  The server as a sequencer. What happens in a chat is a history: somebody joins, somebody
  says something. The history alone determines the log of its messages: a message goes to
  everyone who has joined before it, under the name of its speaker, and the names are given
  in the order of first messages. Whatever a round of the select loop reads, its effect is
  that of a piece of history, with the messages in the order in which they are handled.
\<close>

section \<open>The log\<close>

record entry =
  en_to :: "int list"     \<comment> \<open>descriptors connected\<close>
  en_from :: int          \<comment> \<open>the sender's descriptor\<close>
  en_name :: string
  en_text :: string

definition hands :: "entry \<Rightarrow> int \<Rightarrow> string" where
  "hands e fd = handed (en_to e) (en_from e) (en_name e) (int (length (en_to e))) (en_text e) fd"

definition handed_log :: "entry list \<Rightarrow> int \<Rightarrow> string" where
  "handed_log log fd = concat (map (\<lambda>e. hands e fd) log)"

definition texts_of :: "int \<Rightarrow> entry list \<Rightarrow> string list" where
  "texts_of fd log = map en_text (filter (\<lambda>e. en_from e = fd) log)"

lemma handed_log_simps [simp]:
  "handed_log [] fd = []" "handed_log (log @ log') fd = handed_log log fd @ handed_log log' fd"
  by (simp_all add: handed_log_def)

lemma texts_of_simps [simp]:
  "texts_of fd [] = []" "texts_of fd (log @ log') = texts_of fd log @ texts_of fd log'"
  by (simp_all add: texts_of_def)

lemma texts_of_same: "(\<And>e. e \<in> set log \<Longrightarrow> en_from e = fd) \<Longrightarrow> texts_of fd log = map en_text log"
  by (simp add: texts_of_def)

lemma texts_of_other: "(\<And>e. e \<in> set log \<Longrightarrow> en_from e \<noteq> fd) \<Longrightarrow> texts_of fd log = []"
  by (simp add: texts_of_def)

definition logged :: "entry list \<Rightarrow> event list \<Rightarrow> bool" where
  "logged log es \<longleftrightarrow> (\<forall>fd. sent_to fd es = handed_log log fd)"

lemma logged_append: "logged log es \<Longrightarrow> logged log' fs \<Longrightarrow> logged (log @ log') (es @ fs)"
  by (simp add: logged_def)

section \<open>Histories\<close>

datatype happening = Joins int | Says int string

fun members :: "happening list \<Rightarrow> int list" where
  "members [] = []"
| "members (Joins fd # h) = fd # members h"
| "members (Says fd t # h) = members h"

fun said :: "int \<Rightarrow> happening list \<Rightarrow> string list" where
  "said fd [] = []"
| "said fd (Joins f # h) = said fd h"
| "said fd (Says f t # h) = (if f = fd then t # said fd h else said fd h)"

text \<open>Those who have said something, in the order of their first messages, and their names.\<close>

definition speaks :: "int \<Rightarrow> int list \<Rightarrow> int list" where
  "speaks fd sp = (if fd \<in> set sp then sp else sp @ [fd])"

fun speakers :: "int list \<Rightarrow> happening list \<Rightarrow> int list" where
  "speakers sp [] = sp"
| "speakers sp (Joins fd # h) = speakers sp h"
| "speakers sp (Says fd t # h) = speakers (speaks fd sp) h"

definition place :: "int list \<Rightarrow> int \<Rightarrow> int" where
  "place sp fd = int (length (takeWhile (\<lambda>f. f \<noteq> fd) sp)) + 1"

text \<open>The log of a history that begins with the members \<open>ms\<close> and the speakers \<open>sp\<close>.\<close>

fun log_of :: "int list \<Rightarrow> int list \<Rightarrow> happening list \<Rightarrow> entry list" where
  "log_of ms sp [] = []"
| "log_of ms sp (Joins fd # h) = log_of (ms @ [fd]) sp h"
| "log_of ms sp (Says fd t # h) =
     \<lparr>en_to = ms, en_from = fd, en_name = client_name (place (speaks fd sp) fd), en_text = t\<rparr> #
     log_of ms (speaks fd sp) h"

text \<open>Nobody joins twice, and only members speak.\<close>

fun happens_ok :: "int list \<Rightarrow> happening list \<Rightarrow> bool" where
  "happens_ok ms [] = True"
| "happens_ok ms (Joins fd # h) = (fd \<notin> set ms \<and> happens_ok (ms @ [fd]) h)"
| "happens_ok ms (Says fd t # h) = (fd \<in> set ms \<and> happens_ok ms h)"

lemma members_append [simp]: "members (h @ h') = members h @ members h'"
  by (induction h rule: members.induct) auto

lemma said_append [simp]: "said fd (h @ h') = said fd h @ said fd h'"
  by (induction fd h rule: said.induct) auto

lemma speakers_append [simp]: "speakers sp (h @ h') = speakers (speakers sp h) h'"
  by (induction sp h rule: speakers.induct) auto

lemma log_of_append [simp]:
  "log_of ms sp (h @ h') = log_of ms sp h @ log_of (ms @ members h) (speakers sp h) h'"
  by (induction ms sp h rule: log_of.induct) auto

lemma happens_ok_append [simp]:
  "happens_ok ms (h @ h') \<longleftrightarrow> happens_ok ms h \<and> happens_ok (ms @ members h) h'"
  by (induction ms h rule: happens_ok.induct) auto

lemma texts_of_log: "texts_of fd (log_of ms sp h) = said fd h"
  by (induction ms sp h rule: log_of.induct) (auto simp: texts_of_def)

lemma log_of_from: "e \<in> set (log_of ms sp h) \<Longrightarrow> \<exists>i. en_name e = client_name i"
  by (induction ms sp h rule: log_of.induct) auto

text \<open>Only messages of \<open>fds\<close>, to members that stay the same.\<close>

definition only_says :: "int set \<Rightarrow> happening list \<Rightarrow> bool" where
  "only_says F h \<longleftrightarrow> (\<forall>x\<in>set h. case x of Joins fd \<Rightarrow> False | Says fd t \<Rightarrow> fd \<in> F)"

lemma only_says_props:
  assumes "only_says F h"
  shows "members h = []" and "F \<subseteq> set ms \<Longrightarrow> happens_ok ms h"
    and "e \<in> set (log_of ms sp h) \<Longrightarrow> en_from e \<in> F \<and> en_to e = ms"
    and "fd \<notin> F \<Longrightarrow> said fd h = []"
  using assms
proof -
  show "members h = []" using assms by (induction h rule: members.induct) (auto simp: only_says_def)
  show "happens_ok ms h" if "F \<subseteq> set ms"
    using assms that by (induction ms h rule: happens_ok.induct) (auto simp: only_says_def)
  show "en_from e \<in> F \<and> en_to e = ms" if "e \<in> set (log_of ms sp h)"
    using assms that by (induction ms sp h rule: log_of.induct) (auto simp: only_says_def)
  show "said fd h = []" if "fd \<notin> F"
    using assms that by (induction fd h rule: said.induct) (auto simp: only_says_def)
qed

lemma only_says_append [simp]: "only_says F (h @ h') \<longleftrightarrow> only_says F h \<and> only_says F h'"
  by (auto simp: only_says_def)

lemma only_says_mono: "only_says F h \<Longrightarrow> F \<subseteq> G \<Longrightarrow> only_says G h"
  by (auto simp: only_says_def split: happening.splits)

text \<open>One client says several things.\<close>

lemma speaks_idem [simp]: "speaks fd (speaks fd sp) = speaks fd sp"
  by (simp add: speaks_def)

lemma says_all:
  "log_of ms sp (map (Says fd) ts) =
     map (\<lambda>t. \<lparr>en_to = ms, en_from = fd, en_name = client_name (place (speaks fd sp) fd), en_text = t\<rparr>) ts"
  "speakers sp (map (Says fd) ts) = (if ts = [] then sp else speaks fd sp)"
  "said fd (map (Says fd) ts) = ts" "only_says {fd} (map (Says fd) ts)"
  by (induction ts arbitrary: sp) (auto simp: only_says_def)

lemma joins_all: "log_of ms sp (map Joins fs) = []" "members (map Joins fs) = fs" "speakers sp (map Joins fs) = sp"
    "said fd (map Joins fs) = []"
  by (induction fs arbitrary: ms) auto

text \<open>Nobody joins twice; and what a history is when nobody, or only one member, speaks.\<close>

lemma happens_ok_distinct: "happens_ok ms h \<Longrightarrow> distinct ms \<Longrightarrow> distinct (ms @ members h)"
  by (induction ms h rule: happens_ok.induct) auto

lemma one_speaker:
  "happens_ok ms h \<Longrightarrow> members h = [] \<Longrightarrow> \<forall>f\<in>set ms - {fd}. said f h = [] \<Longrightarrow> h = map (Says fd) (said fd h)"
  by (induction ms h rule: happens_ok.induct) (auto split: if_splits)

lemma silent_history:
  "happens_ok ms h \<Longrightarrow> \<forall>f\<in>set ms \<union> set (members h). said f h = [] \<Longrightarrow> h = map Joins (members h)"
  by (induction ms h rule: happens_ok.induct) (auto split: if_splits)

section \<open>Numbers and names\<close>

text \<open>The names in the list of the server are those of the history.\<close>

definition name_in :: "int list \<Rightarrow> int \<Rightarrow> string option" where
  "name_in sp fd = (if fd \<in> set sp then Some (client_name (place sp fd)) else None)"

definition names_ok :: "server \<Rightarrow> int list \<Rightarrow> (ptr \<times> client_socket) list \<Rightarrow> bool" where
  "names_ok s sp xs \<longleftrightarrow> client_id s = int (length sp) \<and> (\<forall>x\<in>set xs. username (snd x) = name_in sp (sock_fd (snd x))) \<and>
     set sp \<subseteq> set (fds xs)"

lemma names_ok_start: "names_ok (start_state l ws) [] []"
  by (simp add: names_ok_def start_state_def)

lemma place_new: "fd \<notin> set sp \<Longrightarrow> place (sp @ [fd]) fd = int (length sp) + 1"
proof -
  assume "fd \<notin> set sp"
  then have "takeWhile (\<lambda>f. f \<noteq> fd) (sp @ [fd]) = sp" by (subst takeWhile_append2) auto
  then show ?thesis by (simp add: place_def)
qed

lemma place_old: "fd \<in> set sp \<Longrightarrow> place (sp @ zs) fd = place sp fd"
  by (simp add: place_def takeWhile_append1)

lemma name_in_speaks: "name_in (speaks fd sp) f =
    (if f = fd \<and> fd \<notin> set sp then Some (client_name (int (length sp) + 1)) else name_in sp f)"
  by (auto simp: name_in_def speaks_def place_new place_old)

text \<open>The name under which the client at hand speaks is that of the history.\<close>

lemma name_of_place:
  assumes "names_ok s sp (ys @ (a, c) # zs)"
  shows "name_of c s = client_name (place (speaks (sock_fd c) sp) (sock_fd c))"
  using assms by (auto simp: names_ok_def name_of_def name_in_def speaks_def place_new)

lemma names_ok_step:
  assumes nm: "names_ok s sp (ys @ (a, c) # zs)" and d: "distinct (fds (ys @ (a, c) # zs))"
    and c': "sock_fd c' = sock_fd c"
    and up: "if ts = [] then username c' = username c \<and> client_id s' = client_id s
       else username c' = Some (name_of c s) \<and> client_id s' = (if username c = None then client_id s + 1 else client_id s)"
  shows "names_ok s' (speakers sp (map (Says (sock_fd c)) ts)) (ys @ (a, c') # zs)"
proof (cases "ts = []")
  case True
  then show ?thesis using nm c' up by (simp add: names_ok_def)
next
  case False
  let ?fd = "sock_fd c" and ?sp = "speaks (sock_fd c) sp"
  have c: "username c = name_in sp ?fd" "client_id s = int (length sp)" using nm by (auto simp: names_ok_def)
  have "username (snd x) = name_in ?sp (sock_fd (snd x))" if x: "x \<in> set ys \<union> set zs" for x
  proof -
    have "sock_fd (snd x) \<noteq> ?fd" using d x by force
    then show ?thesis using nm x by (auto simp: names_ok_def name_in_speaks)
  qed
  moreover have "username c' = name_in ?sp (sock_fd c')"
    using up False c' name_of_place[OF nm] by (simp add: name_in_def speaks_def)
  moreover have "client_id s' = int (length ?sp)" using up False c by (auto simp: name_in_def speaks_def)
  moreover have "set ?sp \<subseteq> set (fds (ys @ (a, c') # zs))" using nm c' by (auto simp: names_ok_def speaks_def)
  ultimately show ?thesis using False by (auto simp: says_all names_ok_def)
qed

section \<open>One client\<close>

definition arrived :: "round_input \<Rightarrow> int \<Rightarrow> string" where
  "arrived inp fd =
     (if fd \<in> listen_fds inp then (case read_replies inp fd of Read_Bytes bs \<Rightarrow> bs | Read_Error \<Rightarrow> []) else [])"

text \<open>
  What a read gives: some bytes, no more than there is room for. A client that is not ready
  has no complete message left over.
\<close>

definition reads_ok :: "round_input \<Rightarrow> client_socket \<Rightarrow> bool" where
  "reads_ok inp c \<longleftrightarrow>
     (if sock_fd c \<in> listen_fds inp
      then \<exists>bs. read_replies inp (sock_fd c) = Read_Bytes bs \<and> bs \<noteq> [] \<and> length bs \<le> BUF_SIZE - cl_inbuf c - 1
      else fst (messages (view c)) = [])"

lemma client_step_logged:
  assumes ok: "server_ok l s (ys @ (a, c) # zs)" (is "server_ok l s ?xs")
    and dup: "\<forall>i. strdup_ok inp i" and rd: "reads_ok inp c"
    and ws: "writes_ok (sv_writes s)" and nm: "names_ok s sp (ys @ (a, c) # zs)"
  defines "ts \<equiv> map cstr (fst (messages (view c @ arrived inp (sock_fd c))))"
  defines "h \<equiv> map (Says (sock_fd c)) ts"
  shows "\<exists>s' c' es. client_step inp a s = Some (hd_ptr zs NULL, s') \<and>
    server_ok l s' (ys @ (a, c') # zs) \<and> names_ok s' (speakers sp h) (ys @ (a, c') # zs) \<and> sock_fd c' = sock_fd c \<and>
    writes_ok (sv_writes s') \<and> sv_trace s' = sv_trace s @ es \<and> logged (log_of (fds ?xs) sp h) es \<and>
    view c' = snd (messages (view c @ arrived inp (sock_fd c)))"
proof (cases "sock_fd c \<in> listen_fds inp")
  case False
  then have m: "messages (view c) = ([], view c)" using rd messages_none by (simp add: reads_ok_def)
  have "client_step inp a s = Some (hd_ptr zs NULL, s)"
    using False server_ok_deref[OF ok] by (simp add: client_step_def)
  then show ?thesis using False ok nm ws m unfolding h_def ts_def
    by (intro exI[of _ s] exI[of _ c] exI[of _ "[]"]) (simp add: logged_def arrived_def)
next
  case True
  then obtain bs where bs: "read_replies inp (sock_fd c) = Read_Bytes bs" "bs \<noteq> []"
    "length bs \<le> BUF_SIZE - cl_inbuf c - 1" using rd by (auto simp: reads_ok_def)
  have arr: "arrived inp (sock_fd c) = bs" using True bs(1) by (simp add: arrived_def)
  have ts: "ts = map cstr (fst (messages (view c @ bs)))" by (simp add: ts_def arr)
  obtain s' c' es where st: "client_step inp a s = Some (hd_ptr zs NULL, s')"
      "server_ok l s' (ys @ (a, c') # zs)" "sock_fd c' = sock_fd c" "view c' = snd (messages (view c @ bs))"
      "sv_trace s' = sv_trace s @ es"
      "delivers (answers (handed (fds ?xs) (sock_fd c) (name_of c s) (int (length ?xs))) ts) es"
      "set (sv_writes s') \<subseteq> set (sv_writes s)"
      "if ts = [] then username c' = username c \<and> client_id s' = client_id s
       else username c' = Some (name_of c s) \<and> client_id s' = (if username c = None then client_id s + 1 else client_id s)"
    using client_step_ready[OF ok True _ bs ws] dup unfolding ts map_is_Nil_conv by blast
  have "logged (log_of (fds ?xs) sp h) es"
    using st(6) by (simp add: h_def says_all name_of_place[OF nm] logged_def delivers_def answers_def
        handed_log_def hands_def comp_def)
  moreover have "distinct (fds ?xs)" using ok by (simp add: server_ok_def)
  then have "names_ok s' (speakers sp h) (ys @ (a, c') # zs)"
    using names_ok_step[OF nm _ st(3,8)] by (simp add: h_def)
  moreover have "writes_ok (sv_writes s')" using ws st(7) writes_ok_subset by blast
  ultimately show ?thesis using st unfolding arr by blast
qed

section \<open>A round\<close>

definition client_served :: "round_input \<Rightarrow> happening list \<Rightarrow> ptr \<times> client_socket \<Rightarrow> ptr \<times> client_socket \<Rightarrow> bool" where
  "client_served inp h x x' \<longleftrightarrow>
     (let fd = sock_fd (snd x); r = messages (view (snd x) @ arrived inp fd) in
      sock_fd (snd x') = fd \<and> view (snd x') = snd r \<and> said fd h = map cstr (fst r))"

lemma client_served_more:
  assumes "said (sock_fd (snd x)) h' = []"
  shows "client_served inp (h' @ h) x x' = client_served inp h x x'"
    and "client_served inp (h @ h') x x' = client_served inp h x x'"
  using assms by (simp_all add: client_served_def Let_def)

lemma serve_clients_logged:
  "server_ok l s (ys @ zs) \<Longrightarrow> \<forall>i. strdup_ok inp i \<Longrightarrow> \<forall>x\<in>set zs. reads_ok inp (snd x) \<Longrightarrow>
   writes_ok (sv_writes s) \<Longrightarrow> names_ok s sp (ys @ zs) \<Longrightarrow>
   \<exists>s' zs' h es. serve_clients inp (hd_ptr zs NULL) s = Some s' \<and> server_ok l s' (ys @ zs') \<and>
     names_ok s' (speakers sp h) (ys @ zs') \<and> writes_ok (sv_writes s') \<and> sv_trace s' = sv_trace s @ es \<and>
     logged (log_of (fds (ys @ zs)) sp h) es \<and> only_says (set (fds zs)) h \<and>
     list_all2 (client_served inp h) zs zs'"
proof (induction zs arbitrary: s ys sp)
  case Nil
  then show ?case
    by (intro exI[of _ s] exI[of _ "[]"]) (simp add: serve_clients.simps logged_def only_says_def)
next
  case (Cons z zs)
  obtain a c where z: "z = (a, c)" by (cases z)
  let ?F = "fds (ys @ z # zs)"
  have ok: "server_ok l s (ys @ (a, c) # zs)" using Cons.prems(1) z by simp
  define ts where "ts = map cstr (fst (messages (view c @ arrived inp (sock_fd c))))"
  define h1 where "h1 = map (Says (sock_fd c)) ts"
  obtain s1 c1 es1 where s1: "client_step inp a s = Some (hd_ptr zs NULL, s1)"
      "server_ok l s1 (ys @ (a, c1) # zs)" "names_ok s1 (speakers sp h1) (ys @ (a, c1) # zs)" "sock_fd c1 = sock_fd c"
      "writes_ok (sv_writes s1)" "sv_trace s1 = sv_trace s @ es1" "logged (log_of ?F sp h1) es1"
      "view c1 = snd (messages (view c @ arrived inp (sock_fd c)))"
    using client_step_logged[OF ok Cons.prems(2) _ Cons.prems(4)] Cons.prems(3,5) z
    unfolding h1_def ts_def by (metis list.set_intros(1) snd_conv)
  have F: "fds ((ys @ [(a, c1)]) @ zs) = ?F" using s1(4) z by simp
  have "server_ok l s1 ((ys @ [(a, c1)]) @ zs)" "names_ok s1 (speakers sp h1) ((ys @ [(a, c1)]) @ zs)"
    using s1(2,3) by simp_all
  then obtain s2 zs' h2 es2 where s2: "serve_clients inp (hd_ptr zs NULL) s1 = Some s2"
      "server_ok l s2 ((ys @ [(a, c1)]) @ zs')" "names_ok s2 (speakers (speakers sp h1) h2) ((ys @ [(a, c1)]) @ zs')"
      "writes_ok (sv_writes s2)" "sv_trace s2 = sv_trace s1 @ es2" "logged (log_of ?F (speakers sp h1) h2) es2"
      "only_says (set (fds zs)) h2" "list_all2 (client_served inp h2) zs zs'"
    using Cons.IH[of s1 "ys @ [(a, c1)]" "speakers sp h1"] Cons.prems(2,3) s1(5) unfolding F
    by (metis list.set_intros(2))
  have "a \<noteq> NULL" using ok by (simp add: server_ok_def rep_def seg_append)
  then have run: "serve_clients inp (hd_ptr (z # zs) NULL) s = Some s2"
    using z s1(1) s2(1) by (subst serve_clients.simps) simp
  have o1: "only_says {sock_fd c} h1" "said (sock_fd c) h1 = ts" by (simp_all add: h1_def says_all)
  have out: "sock_fd c \<notin> set (fds zs)" using ok by (auto simp: server_ok_def)
  have "client_served inp h1 z (a, c1)"
    using s1(4,8) z o1(2) by (simp add: client_served_def Let_def ts_def)
  then have head: "client_served inp (h1 @ h2) z (a, c1)"
    using client_served_more(2)[of z h2] only_says_props(4)[OF s2(7) out] z by simp
  have "client_served inp (h1 @ h2) x x'" if "x \<in> set zs" "client_served inp h2 x x'" for x x'
  proof -
    have "sock_fd (snd x) \<notin> {sock_fd c}" using that(1) out by force
    then show ?thesis using client_served_more(1)[of x h1] only_says_props(4)[OF o1(1)] that(2) by blast
  qed
  then have "list_all2 (client_served inp (h1 @ h2)) (z # zs) ((a, c1) # zs')"
    using head s2(8) by (auto elim: list_all2_mono simp: list.rel_mono_strong)
  moreover have "logged (log_of ?F sp (h1 @ h2)) (es1 @ es2)"
    using logged_append[OF s1(7) s2(6)] only_says_props(1)[OF o1(1)] by simp
  moreover have "only_says (set (fds (z # zs))) (h1 @ h2)"
    using only_says_mono[OF o1(1)] only_says_mono[OF s2(7)] z by (simp add: subset_insertI)
  ultimately show ?case using run s2 s1(6)
    by (intro exI[of _ s2] exI[of _ "(a, c1) # zs'"] exI[of _ "h1 @ h2"] exI[of _ "es1 @ es2"]) simp
qed

text \<open>A whole round of the loop: first the new connection, then every client.\<close>

definition joining :: "int \<Rightarrow> round_input \<Rightarrow> int list" where
  "joining l inp = (if l \<in> listen_fds inp then [accept_reply inp] else [])"

lemma server_round_logged:
  assumes "server_ok l s xs" and "input_ok l s (Ready inp)" and "\<forall>i. strdup_ok inp i"
    and "\<forall>x\<in>set xs. reads_ok inp (snd x)"
    and acc: "l \<in> listen_fds inp \<longrightarrow> accept_reply inp \<notin> listen_fds inp"
    and "writes_ok (sv_writes s)" and "names_ok s sp xs"
  shows "\<exists>s' new xs' h es. server_round l (Ready inp) s = Some (Serving s') \<and> server_ok l s' xs' \<and>
    names_ok s' (speakers sp h) xs' \<and> writes_ok (sv_writes s') \<and> sv_trace s' = sv_trace s @ es \<and>
    logged (log_of (fds (xs @ new)) sp h) es \<and> only_says (set (fds (xs @ new))) h \<and>
    fds new = joining l inp \<and>
    (\<forall>x\<in>set new. view (snd x) = []) \<and> list_all2 (client_served inp h) (xs @ new) xs'"
proof -
  obtain s1 new where s1: "accept_phase l inp s = Some (Serving s1)" "server_ok l s1 (xs @ new)"
    "fds new = joining l inp"
    "sv_writes s1 = sv_writes s" "sv_trace s1 = sv_trace s" "client_id s1 = client_id s"
    "\<forall>x\<in>set new. view (snd x) = [] \<and> username (snd x) = None"
    using accept_phase_spec[OF assms(1,2)] unfolding joining_def by blast
  have hd: "sv_clients s1 = hd_ptr (xs @ new) NULL" using s1(2) by (simp add: server_ok_def rep_def)
  have "sock_fd (snd x) \<notin> set sp" if "x \<in> set new" for x
  proof -
    have "sock_fd (snd x) \<in> set (fds new)" using that by force
    then have "sock_fd (snd x) \<notin> set (fds xs)" using s1(2) by (auto simp: server_ok_def)
    then show ?thesis using assms(7) by (auto simp: names_ok_def)
  qed
  then have nm: "names_ok s1 sp (xs @ new)" using assms(7) s1(6,7) by (auto simp: names_ok_def name_in_def)
  have "reads_ok inp (snd x)" if "x \<in> set new" for x
  proof -
    have "sock_fd (snd x) \<in> set (fds new)" using that by force
    then have "sock_fd (snd x) \<notin> listen_fds inp" using s1(3) acc by (auto simp: joining_def split: if_splits)
    then show ?thesis using s1(7) that by (simp add: reads_ok_def messages.simps)
  qed
  then have rd: "\<forall>x\<in>set (xs @ new). reads_ok inp (snd x)" using assms(4) by auto
  have ok1: "server_ok l s1 ([] @ (xs @ new))" "names_ok s1 sp ([] @ (xs @ new))" "writes_ok (sv_writes s1)"
    using s1(2,4) nm assms(6) by simp_all
  obtain s' xs' h es where r: "serve_clients inp (sv_clients s1) s1 = Some s'" "server_ok l s' xs'"
    "names_ok s' (speakers sp h) xs'" "writes_ok (sv_writes s')" "sv_trace s' = sv_trace s1 @ es"
    "logged (log_of (fds (xs @ new)) sp h) es" "only_says (set (fds (xs @ new))) h"
    "list_all2 (client_served inp h) (xs @ new) xs'"
    using serve_clients_logged[OF ok1(1) assms(3) rd ok1(3,2)] unfolding hd append_Nil by blast
  have "server_round l (Ready inp) s = Some (Serving s')" using s1(1) r(1) by (simp add: server_round_def)
  then show ?thesis using r s1(3,5,7)
    by (intro exI[of _ s'] exI[of _ new] exI[of _ xs'] exI[of _ h] exI[of _ es] conjI; (assumption | simp))
qed

end
