(* ===== verification/Variables.thy ===== *)
theory Variables
  imports IO_Helpers
begin

text \<open>
  src/src/variables.c, the variable store: a linked list of key/value nodes whose head is
  the newest variable. The list is a HOL list of records, the head of the C list first;
  nodes are never shared, so the list carries all of the state. Pointers that can be NULL
  are options. \<open>is_valid_varname\<close> and \<open>find_key\<close> take and return strings: \<open>find_key\<close>
  says with its first component whether the string was allocated by it (\<open>True\<close>) or is its
  argument itself (\<open>False\<close>), because freeing the second kind is a fault.
\<close>

record var =
  key :: string
  val :: string

type_synonym var_list = "var list"

section \<open>The interface: what a variable store promises\<close>

text \<open>
  Expansion only looks variables up: it relies on every value being short enough for one
  buffer and on the empty name having no value. Assignment relies on a store that is
  updated at one name.
\<close>

locale var_lookup =
  fixes get :: "'s \<Rightarrow> string \<Rightarrow> string"
    and ok :: "'s \<Rightarrow> bool"
  assumes get_bound: "ok s \<Longrightarrow> length (get s k) \<le> MAX_STR_LEN"
    and get_empty_name: "ok s \<Longrightarrow> get s [] = []"

locale var_store = var_lookup get ok
  for get :: "'s \<Rightarrow> string \<Rightarrow> string" and ok :: "'s \<Rightarrow> bool" +
  fixes put :: "string \<Rightarrow> string \<Rightarrow> 's \<Rightarrow> 's"
    and name_ok :: "string \<Rightarrow> bool"
    and settable :: "string \<Rightarrow> 's \<Rightarrow> bool"
  assumes ok_put: "ok s \<Longrightarrow> name_ok k \<Longrightarrow> length v \<le> MAX_STR_LEN \<Longrightarrow> ok (put k v s)"
    and get_put: "ok s \<Longrightarrow> settable k s \<Longrightarrow> get (put k v s) = (get s)(k := v)"
    and settable_put: "settable k s \<Longrightarrow> take (length k) j \<noteq> k \<or> j = k \<Longrightarrow> settable k (put j v s)"
begin

lemma get_put_same: "ok s \<Longrightarrow> settable k s \<Longrightarrow> get (put k v s) k = v"
  by (simp add: get_put)

lemma get_put_other: "ok s \<Longrightarrow> settable k s \<Longrightarrow> j \<noteq> k \<Longrightarrow> get (put k v s) j = get s j"
  by (simp add: get_put)

text \<open>Two assignments of unrelated names commute, as seen by every lookup.\<close>

lemma put_commute:
  assumes "ok s" "name_ok j" "name_ok k" "length v \<le> MAX_STR_LEN" "length w \<le> MAX_STR_LEN"
    and "settable j s" "settable k s"
    and "take (length k) j \<noteq> k" "take (length j) k \<noteq> j"
  shows "get (put j v (put k w s)) = get (put k w (put j v s))"
proof -
  have "settable j (put k w s)" "settable k (put j v s)" using assms by (blast intro: settable_put)+
  moreover have "ok (put k w s)" "ok (put j v s)" using assms by (blast intro: ok_put)+
  moreover have "j \<noteq> k" using assms(8) by auto
  ultimately show ?thesis using assms by (simp add: get_put fun_upd_twist)
qed

end

section \<open>Names and values of an assignment\<close>

definition find_key :: "string option \<Rightarrow> (bool \<times> string) option" where
  "find_key s =
     (case s of None \<Rightarrow> None
      | Some s \<Rightarrow> (case strchr s (CHR ''='') of
                     None \<Rightarrow> Some (False, s)
                   | Some key_len \<Rightarrow> Some (True, take key_len s)))"

definition find_value :: "string option \<Rightarrow> string option" where
  "find_value s =
     (case s of None \<Rightarrow> None
      | Some s \<Rightarrow> (case strchr s (CHR ''='') of
                     None \<Rightarrow> None
                   | Some pos \<Rightarrow> Some (drop (pos + 1) s)))"

text \<open>\<open>free\<close> of a pointer that malloc returned, or of one that it did not.\<close>

definition free_str :: "bool \<times> string \<Rightarrow> unit checked" where
  "free_str p = require (fst p)"

definition name_char :: "char \<Rightarrow> bool" where
  "name_char c = (isalpha c \<or> isdigit c \<or> c = CHR ''_'')"

fun name_loop :: "string \<Rightarrow> bool" where
  "name_loop [] = True"
| "name_loop (c # cs) = (if name_char c then name_loop cs else False)"

definition is_valid_varname :: "string \<Rightarrow> bool checked" where
  "is_valid_varname s =
     (case find_key (Some s) of
        None \<Rightarrow> fault
      | Some p \<Rightarrow>
         (let key = snd p in
          do {
            free_str p;
            Some (if key = [] then False
                  else if \<not> isalpha (hd key) \<and> hd key \<noteq> CHR ''_'' then False
                  else name_loop (tl key))
          }))"

section \<open>The store\<close>

text \<open>
  \<open>set_variable\<close> with the replies of its allocations: \<open>a1\<close> for the new value of an
  existing node or the new node, \<open>a2\<close> and \<open>a3\<close> for the key and the value of a new node.
\<close>

fun set_loop :: "string \<Rightarrow> string \<Rightarrow> var_list \<Rightarrow> var_list option" where
  "set_loop k v [] = None"
| "set_loop k v (n # ns) =
     (if strncmp_eq (length k) (key n) k then Some (n\<lparr>val := v\<rparr> # ns)
      else map_option (\<lambda>ms. n # ms) (set_loop k v ns))"

definition set_variable_alloc ::
  "bool \<Rightarrow> bool \<Rightarrow> bool \<Rightarrow> string option \<Rightarrow> string option \<Rightarrow> var_list \<Rightarrow> int \<times> var_list" where
  "set_variable_alloc a1 a2 a3 k v head =
     (case (k, v) of
        (Some k, Some v) \<Rightarrow>
          (case set_loop k v head of
             Some head' \<Rightarrow> if a1 then (0, head') else (-1, head)
           | None \<Rightarrow> if a1 \<and> a2 \<and> a3 then (0, \<lparr>key = k, val = v\<rparr> # head) else (-1, head))
      | _ \<Rightarrow> (-1, head))"

text \<open>The call as the shell makes it, with every allocation successful.\<close>

definition set_variable :: "string \<Rightarrow> string \<Rightarrow> var_list \<Rightarrow> int \<times> var_list" where
  "set_variable k v head = set_variable_alloc True True True (Some k) (Some v) head"

fun find_val_with_key :: "string \<Rightarrow> var_list \<Rightarrow> string" where
  "find_val_with_key k [] = []"
| "find_val_with_key k (n # ns) =
     (if length (key n) \<noteq> length k then find_val_with_key k ns
      else if strncmp_eq (length k) k (key n) then val n
      else find_val_with_key k ns)"

text \<open>
  \<open>remove_all_var\<close> frees the nodes one after the other, then the slots of the global array
  \<open>expanded_tokens\<close> of mysh.c up to its counter.
\<close>

fun free_nodes :: "var_list \<Rightarrow> var_list" where
  "free_nodes [] = []"
| "free_nodes (n # ns) = free_nodes ns"

function free_expanded :: "nat \<Rightarrow> nat \<Rightarrow> string option list \<Rightarrow> string option list checked" where
  "free_expanded i n ts =
     (if i < n then if i < length ts then free_expanded (Suc i) n (ts[i := None]) else fault
      else Some ts)"
  by pat_completeness auto
termination
  by (relation "measure (\<lambda>(i, n, ts). n - i)") auto

declare free_expanded.simps [simp del]

definition remove_all_var ::
  "var_list \<Rightarrow> string option list \<Rightarrow> nat \<Rightarrow> (int \<times> var_list \<times> string option list \<times> nat) checked" where
  "remove_all_var head expanded_tokens expanded_token_count =
     do {
       ts \<leftarrow> free_expanded 0 expanded_token_count expanded_tokens;
       Some (1, free_nodes head, ts, 0)
     }"

section \<open>The finite map the store stands for\<close>

definition var_map :: "var_list \<Rightarrow> string \<Rightarrow> string option" where
  "var_map vs = map_of (map (\<lambda>n. (key n, val n)) vs)"

definition valid_name :: "string \<Rightarrow> bool" where
  "valid_name k \<longleftrightarrow> k \<noteq> [] \<and> (isalpha (hd k) \<or> hd k = CHR ''_'') \<and> (\<forall>c\<in>set (tl k). name_char c)"

text \<open>No stored name other than \<open>k\<close> begins with \<open>k\<close>.\<close>

definition no_longer_name :: "string \<Rightarrow> var_list \<Rightarrow> bool" where
  "no_longer_name k vs \<longleftrightarrow> (\<forall>n\<in>set vs. take (length k) (key n) = k \<longrightarrow> key n = k)"

definition vars_ok :: "var_list \<Rightarrow> bool" where
  "vars_ok vs \<longleftrightarrow> distinct (map key vs) \<and>
     (\<forall>n\<in>set vs. valid_name (key n) \<and> length (val n) \<le> MAX_STR_LEN)"

section \<open>Lemmas\<close>

lemma strchr_eq_sign: "c \<notin> set k \<Longrightarrow> strchr (k @ c # v) c = Some (length k)"
proof -
  assume "c \<notin> set k"
  then have "takeWhile (\<lambda>x. x \<noteq> c) (k @ c # v) = k" by (induction k) auto
  then show ?thesis by (simp add: strchr_def)
qed

lemma find_key_assignment:
  "CHR ''='' \<notin> set k \<Longrightarrow> find_key (Some (k @ CHR ''='' # v)) = Some (True, k)"
  by (simp add: find_key_def strchr_eq_sign)

lemma find_value_assignment:
  "CHR ''='' \<notin> set k \<Longrightarrow> find_value (Some (k @ CHR ''='' # v)) = Some v"
  by (simp add: find_value_def strchr_eq_sign)

lemma name_loop_all: "name_loop cs \<longleftrightarrow> (\<forall>c\<in>set cs. name_char c)"
  by (induction cs) auto

lemma is_valid_varname_assignment:
  "CHR ''='' \<notin> set k \<Longrightarrow> is_valid_varname (k @ CHR ''='' # v) = Some (valid_name k)"
  by (auto simp: is_valid_varname_def find_key_assignment free_str_def valid_name_def name_loop_all)

lemma is_valid_varname_no_assignment: "CHR ''='' \<notin> set s \<Longrightarrow> is_valid_varname s = fault"
  by (simp add: is_valid_varname_def find_key_def strchr_def free_str_def Let_def)

lemma assignment_split:
  assumes "CHR ''='' \<in> set s"
  obtains k v where "s = k @ CHR ''='' # v" "CHR ''='' \<notin> set k"
  using assms by (metis split_list_first)

lemma set_loop_None: "set_loop k v vs = None \<longleftrightarrow> (\<forall>n\<in>set vs. take (length k) (key n) \<noteq> k)"
  by (induction vs) (auto simp: strncmp_eq_def)

lemma set_loop_Some:
  "set_loop k v vs = Some ws \<Longrightarrow>
     \<exists>pre n post. vs = pre @ n # post \<and> ws = pre @ n\<lparr>val := v\<rparr> # post \<and>
       take (length k) (key n) = k \<and> (\<forall>m\<in>set pre. take (length k) (key m) \<noteq> k)"
proof (induction vs arbitrary: ws)
  case (Cons m vs)
  show ?case
  proof (cases "strncmp_eq (length k) (key m) k")
    case True
    then show ?thesis using Cons.prems by (intro exI[of _ "[]"]) (auto simp: strncmp_eq_def)
  next
    case False
    then obtain us where us: "set_loop k v vs = Some us" "ws = m # us"
      using Cons.prems by auto
    from Cons.IH[OF us(1)] obtain pre n post where
      "vs = pre @ n # post" "us = pre @ n\<lparr>val := v\<rparr> # post"
      "take (length k) (key n) = k" "\<forall>x\<in>set pre. take (length k) (key x) \<noteq> k" by blast
    then show ?thesis using us(2) False
      by (intro exI[of _ "m # pre"] exI[of _ n] exI[of _ post]) (auto simp: strncmp_eq_def)
  qed
qed simp

lemma find_val_is_map:
  "find_val_with_key k vs = (case var_map vs k of None \<Rightarrow> [] | Some v \<Rightarrow> v)"
  by (induction vs) (auto simp: var_map_def strncmp_eq_def)

lemma var_map_append: "var_map (xs @ ys) = var_map ys ++ var_map xs"
  by (simp add: var_map_def)

lemma var_map_Cons: "var_map (n # ns) = (var_map ns)(key n \<mapsto> val n)"
  by (simp add: var_map_def)

lemma var_map_None: "var_map vs k = None \<longleftrightarrow> k \<notin> key ` set vs"
  by (induction vs) (auto simp: var_map_def)

lemma var_map_replace:
  "key n \<notin> key ` set pre \<Longrightarrow>
     var_map (pre @ n\<lparr>val := v\<rparr> # post) = (var_map (pre @ n # post))(key n \<mapsto> v)"
  by (induction pre) (auto simp: var_map_Cons fun_upd_twist)

text \<open>Where no longer name gets in the way, setting a variable is a map update.\<close>

lemma set_variable_map:
  assumes "no_longer_name k vs"
  shows "var_map (snd (set_variable k v vs)) = (var_map vs)(k \<mapsto> v)"
proof (cases "set_loop k v vs")
  case None
  then show ?thesis by (simp add: set_variable_def set_variable_alloc_def var_map_Cons)
next
  case (Some ws)
  from set_loop_Some[OF this] obtain pre n post where
    *: "vs = pre @ n # post" "ws = pre @ n\<lparr>val := v\<rparr> # post"
      "take (length k) (key n) = k" "\<forall>m\<in>set pre. take (length k) (key m) \<noteq> k" by blast
  have "key n = k" using assms * by (auto simp: no_longer_name_def)
  moreover have "key n \<notin> key ` set pre" using * \<open>key n = k\<close> by auto
  ultimately show ?thesis using Some *
    by (simp add: set_variable_def set_variable_alloc_def var_map_replace)
qed

lemma set_variable_ret: "fst (set_variable k v vs) = 0"
  by (simp add: set_variable_def set_variable_alloc_def split: option.splits)

lemma set_variable_keys:
  "key ` set (snd (set_variable k v vs)) \<subseteq> insert k (key ` set vs)"
  by (auto simp: set_variable_def set_variable_alloc_def split: option.splits dest!: set_loop_Some)

text \<open>The invariant of the store is kept, whatever prefix matching does.\<close>

lemma set_variable_ok [mysh_inv]:
  assumes "vars_ok vs" and "valid_name k" and "length v \<le> MAX_STR_LEN"
  shows "vars_ok (snd (set_variable k v vs))"
proof (cases "set_loop k v vs")
  case None
  then have "k \<notin> key ` set vs" by (force simp: set_loop_None)
  then show ?thesis using None assms
    by (auto simp: set_variable_def set_variable_alloc_def vars_ok_def)
next
  case (Some ws)
  from set_loop_Some[OF this] obtain pre n post where
    "vs = pre @ n # post" "ws = pre @ n\<lparr>val := v\<rparr> # post" by blast
  then show ?thesis using Some assms
    by (auto simp: set_variable_def set_variable_alloc_def vars_ok_def)
qed

lemma vars_ok_Nil [simp]: "vars_ok []"
  by (simp add: vars_ok_def)

lemma find_val_bound: "vars_ok vs \<Longrightarrow> length (find_val_with_key k vs) \<le> MAX_STR_LEN"
  by (induction vs) (auto simp: vars_ok_def)

lemma find_val_no_name: "vars_ok vs \<Longrightarrow> \<not> valid_name k \<Longrightarrow> find_val_with_key k vs = []"
  by (induction vs) (auto simp: vars_ok_def strncmp_eq_def)

lemma find_val_Nil: "vars_ok vs \<Longrightarrow> find_val_with_key [] vs = []"
  by (rule find_val_no_name) (simp_all add: valid_name_def)

text \<open>The prefix match: a longer name takes the value meant for a shorter new one.\<close>

lemma set_variable_hits_longer:
  assumes "vs = pre @ n # post" and "\<forall>m\<in>set pre. take (length k) (key m) \<noteq> k"
    and "take (length k) (key n) = k"
  shows "set_variable k v vs = (0, pre @ n\<lparr>val := v\<rparr> # post)"
proof -
  have "set_loop k v vs = Some (pre @ n\<lparr>val := v\<rparr> # post)"
    unfolding assms(1) using assms(2,3) by (induction pre) (auto simp: strncmp_eq_def)
  then show ?thesis by (simp add: set_variable_def set_variable_alloc_def)
qed

lemma settable_set_variable:
  assumes "no_longer_name k vs" and "take (length k) j \<noteq> k \<or> j = k"
  shows "no_longer_name k (snd (set_variable j v vs))"
proof -
  have "key n = k" if "n \<in> set (snd (set_variable j v vs))" "take (length k) (key n) = k" for n
  proof -
    have "key n = j \<or> key n \<in> key ` set vs" using set_variable_keys[of j v vs] that(1) by blast
    then show ?thesis using assms that(2) by (auto simp: no_longer_name_def)
  qed
  then show ?thesis by (simp add: no_longer_name_def)
qed

interpretation vars: var_store "\<lambda>vs k. find_val_with_key k vs" vars_ok
  "\<lambda>k v vs. snd (set_variable k v vs)" valid_name no_longer_name
proof unfold_locales
  fix vs k v
  assume "no_longer_name k vs"
  then show "(\<lambda>j. find_val_with_key j (snd (set_variable k v vs))) =
      (\<lambda>j. find_val_with_key j vs)(k := v)"
    by (auto simp: find_val_is_map set_variable_map)
qed (auto simp: find_val_bound find_val_Nil set_variable_ok settable_set_variable)

lemma free_nodes_Nil [simp]: "free_nodes vs = []"
  by (induction vs) auto

lemma free_expanded_fits:
  "n \<le> length ts \<Longrightarrow> free_expanded i n ts = Some (take i ts @ replicate (min n (length ts) - i) None @ drop (max i n) ts)"
proof (induction i n ts rule: free_expanded.induct)
  case (1 i n ts)
  show ?case
  proof (cases "i < n")
    case True
    then have "free_expanded i n ts = free_expanded (Suc i) n (ts[i := None])"
      using "1.prems" by (subst free_expanded.simps) simp
    also have "\<dots> = Some (take (Suc i) (ts[i := None]) @ replicate (n - Suc i) None @ drop n ts)"
      using True "1" by (simp add: max_def)
    also have "take (Suc i) (ts[i := None]) = take i ts @ [None]"
      using True "1.prems" by (simp add: take_Suc_conv_app_nth)
    finally show ?thesis using True "1.prems"
      by (simp add: max_def replicate_Suc[symmetric] Suc_diff_Suc del: replicate_Suc)
  next
    case False
    then show ?thesis using "1.prems" by (subst free_expanded.simps) (simp add: max_def)
  qed
qed

lemma remove_all_var_clears:
  "n \<le> length ts \<Longrightarrow>
     remove_all_var vs ts n = Some (1, [], replicate n None @ drop n ts, 0)"
  by (simp add: remove_all_var_def free_expanded_fits min_def)

end
