(* ===== verification/Str_Buffer.thy ===== *)
theory Str_Buffer
  imports IO_Helpers
begin

text \<open>
  The idiom by which mysh builds a text of at most 128 bytes in an array of 129:
  \<open>strncat(array, s, remaining); remaining -= strlen(s)\<close> with \<open>size_t remaining\<close>. It is
  used by \<open>expand_variables\<close> (variables.c) and by \<open>bn_echo\<close> (builtins.c).

  The subtraction takes the whole length of \<open>s\<close> off, also where strncat copied less. A text
  that does not fit therefore leaves the array full and \<open>remaining\<close> wrapped around to a
  huge number, and the next non-empty append writes past the array. The invariant
  \<open>buf_ok\<close> says exactly how far \<open>remaining\<close> can be trusted, and the locale
  \<open>bounded_text\<close> what a client may still conclude.
\<close>

section \<open>The interface\<close>

locale bounded_text =
  fixes add :: "string \<Rightarrow> 'b \<Rightarrow> 'b checked"
    and contents :: "'b \<Rightarrow> string"
    and ok :: "'b \<Rightarrow> bool"
    and limit :: nat
  assumes add_ok: "ok b \<Longrightarrow> add s b = Some b' \<Longrightarrow> ok b'"
    and add_contents: "ok b \<Longrightarrow> add s b = Some b' \<Longrightarrow>
          take limit (contents b' @ x) = take limit (contents b @ s @ x)"
    and contents_limit: "ok b \<Longrightarrow> length (contents b) \<le> limit"
    and add_fits: "ok b \<Longrightarrow> length (contents b) + length s \<le> limit \<Longrightarrow>
          \<exists>b'. add s b = Some b' \<and> contents b' = contents b @ s"
begin

lemma add_all_ok: "ok b \<Longrightarrow> foldM add ss b = Some b' \<Longrightarrow> ok b'"
  by (rule foldM_invariant[of add ss b b' ok]) (auto intro: add_ok)

text \<open>Whatever a sequence of appends returns is the concatenation, cut at the limit.\<close>

lemma add_all_contents:
  "ok b \<Longrightarrow> foldM add ss b = Some b' \<Longrightarrow> contents b' = take limit (contents b @ concat ss)"
proof (induction ss arbitrary: b)
  case Nil
  then show ?case using contents_limit by simp
next
  case (Cons s ss)
  then obtain c where c: "add s b = Some c" "foldM add ss c = Some b'"
    by (auto split: Option.bind_splits)
  have "contents b' = take limit (contents c @ concat ss)"
    using Cons.IH[OF add_ok[OF Cons.prems(1) c(1)] c(2)] .
  then show ?case using add_contents[OF Cons.prems(1) c(1)] by simp
qed

text \<open>A sequence whose total length fits never faults and is complete.\<close>

lemma add_all_fits:
  "ok b \<Longrightarrow> length (contents b) + length (concat ss) \<le> limit \<Longrightarrow>
     \<exists>b'. foldM add ss b = Some b' \<and> contents b' = contents b @ concat ss"
proof (induction ss arbitrary: b)
  case (Cons s ss)
  then obtain c where c: "add s b = Some c" "contents c = contents b @ s"
    using add_fits[of b s] by auto
  have "\<exists>b'. foldM add ss c = Some b' \<and> contents b' = contents c @ concat ss"
    by (rule Cons.IH) (use Cons.prems c add_ok in auto)
  then show ?case using c by auto
qed simp

end

section \<open>The array and its counter\<close>

record text_buf =
  content :: string
  room :: size_t

definition empty_buf :: text_buf where
  "empty_buf = \<lparr>content = [], room = of_nat MAX_STR_LEN\<rparr>"

definition append_dec :: "string \<Rightarrow> text_buf \<Rightarrow> text_buf checked" where
  "append_dec s b =
     do {
       a \<leftarrow> strncat (MAX_STR_LEN + 1) (content b) s (unat (room b));
       Some \<lparr>content = a, room = room b - of_nat (length s)\<rparr>
     }"

definition buf_ok :: "text_buf \<Rightarrow> bool" where
  "buf_ok b \<longleftrightarrow> length (content b) \<le> MAX_STR_LEN \<and>
     (length (content b) < MAX_STR_LEN \<longrightarrow> unat (room b) = MAX_STR_LEN - length (content b))"

lemma buf_ok_empty [simp]: "buf_ok empty_buf"
  by (simp add: buf_ok_def empty_buf_def)

lemma content_empty [simp]: "content empty_buf = []"
  by (simp add: empty_buf_def)

lemma room_empty [simp]: "room empty_buf = 128"
  by (simp add: empty_buf_def)

lemma append_dec_Some:
  "append_dec s b = Some b' \<longleftrightarrow>
     b' = \<lparr>content = content b @ take (unat (room b)) s, room = room b - of_nat (length s)\<rparr> \<and>
     length (content b @ take (unat (room b)) s) \<le> MAX_STR_LEN"
  by (auto simp: append_dec_def strncat_def Let_def split: if_splits)

lemma append_dec_ok:
  assumes "buf_ok b" and "append_dec s b = Some b'"
  shows "buf_ok b'"
proof -
  have b': "content b' = content b @ take (unat (room b)) s" "room b' = room b - of_nat (length s)"
    and len: "length (content b') \<le> 128"
    using assms(2) by (auto simp: append_dec_Some)
  have "unat (room b') = 128 - length (content b')" if "length (content b') < 128"
  proof -
    have r: "unat (room b) = 128 - length (content b)" using assms(1) b' that by (simp add: buf_ok_def)
    then have "length s \<le> unat (room b)" using b' that by (cases "length s \<le> unat (room b)") auto
    then show ?thesis using b' r by (simp add: unat_sub_of_nat)
  qed
  then show ?thesis using len by (simp add: buf_ok_def)
qed

lemma append_dec_contents:
  assumes "buf_ok b" and "append_dec s b = Some b'"
  shows "take MAX_STR_LEN (content b' @ x) = take MAX_STR_LEN (content b @ s @ x)"
proof (cases "length (content b) < 128")
  case True
  then have "unat (room b) = 128 - length (content b)" using assms(1) by (simp add: buf_ok_def)
  then show ?thesis using assms(2)
    by (cases "length s \<le> unat (room b)") (auto simp: append_dec_Some)
next
  case False
  then have "length (content b) = 128" using assms(1) by (simp add: buf_ok_def)
  then show ?thesis using assms(2) by (auto simp: append_dec_Some)
qed

lemma append_dec_fits:
  assumes "buf_ok b" and "length (content b) + length s \<le> MAX_STR_LEN"
  shows "append_dec s b = Some \<lparr>content = content b @ s, room = room b - of_nat (length s)\<rparr>"
proof (cases "length (content b) < 128")
  case True
  then have "unat (room b) = 128 - length (content b)" using assms(1) by (simp add: buf_ok_def)
  then show ?thesis using assms(2) by (simp add: append_dec_Some)
next
  case False
  then have "length s = 0" using assms(2) by linarith
  then have "s = []" by simp
  then show ?thesis using assms by (simp add: append_dec_Some buf_ok_def)
qed

interpretation tb: bounded_text append_dec content buf_ok MAX_STR_LEN
proof unfold_locales
  show "length (content b) \<le> MAX_STR_LEN" if "buf_ok b" for b using that by (simp add: buf_ok_def)
  show "take MAX_STR_LEN (content b' @ x) = take MAX_STR_LEN (content b @ s @ x)"
    if "buf_ok b" "append_dec s b = Some b'" for b b' s x
    using that by (rule append_dec_contents)
qed (auto simp: append_dec_fits intro: append_dec_ok)

section \<open>The wrap-around\<close>

text \<open>An append that does not fit fills the array and leaves a positive counter ...\<close>

lemma append_dec_overflow:
  assumes "buf_ok b" and "length (content b) < MAX_STR_LEN"
    and "MAX_STR_LEN < length (content b) + length s" and "length s < 2 ^ 63"
  obtains b' where "append_dec s b = Some b'" "length (content b') = MAX_STR_LEN" "0 < unat (room b')"
proof -
  have r: "unat (room b) = 128 - length (content b)" using assms by (simp add: buf_ok_def)
  let ?b = "\<lparr>content = content b @ take (unat (room b)) s, room = room b - of_nat (length s)\<rparr>"
  have "append_dec s b = Some ?b" using assms r by (simp add: append_dec_Some)
  moreover have "length (content ?b) = 128" using assms r by simp
  moreover have "unat (room ?b) = 2 ^ 64 + unat (room b) - length s"
    using assms r unat_sub_of_nat_wrap[of "room b" "length s"] by simp
  then have "0 < unat (room ?b)" using assms(4) by (simp del: text_buf.simps)
  ultimately show thesis using that by simp
qed

text \<open>... and the next non-empty append writes out of bounds.\<close>

lemma append_dec_full_faults:
  assumes "length (content b) = MAX_STR_LEN" and "0 < unat (room b)" and "s \<noteq> []"
  shows "append_dec s b = fault"
proof -
  obtain c cs where s: "s = c # cs" using assms(3) by (cases s) auto
  obtain n where n: "unat (room b) = Suc n" using assms(2) by (cases "unat (room b)") auto
  show ?thesis using assms(1) by (simp add: append_dec_def strncat_def s n)
qed

end
