(* ===== verification/Expand.thy ===== *)
theory Expand
  imports Variables Str_Buffer
begin

text \<open>
  \<open>expand_variables\<close> of src/src/variables.c: the scanner that replaces \<open>$name\<close> by the value
  of the variable. Its state is the output array with its counter, the array \<open>var_name\<close>
  (a name or literal text being collected) and the flag \<open>taking_var\<close>. The lookup
  \<open>find_val_with_key\<close> on the global list is the function argument \<open>get\<close> of the scanner.

  \<open>expand_ref\<close> is the specification: split at the dollar signs, keep the first piece,
  replace every other piece by its value, and keep a final lone dollar sign.
\<close>

record exp_state =
  out_buf :: text_buf
  taking_var :: bool
  var_name :: string

definition exp_init :: exp_state where
  "exp_init = \<lparr>out_buf = empty_buf, taking_var = False, var_name = []\<rparr>"

abbreviation dollar :: char where "dollar \<equiv> CHR ''$''"

text \<open>
  One character of the input. The array \<open>var_name\<close> has 128 bytes and its last one must
  stay NUL for the strlen calls that follow the write.
\<close>

definition exp_char :: "(string \<Rightarrow> string) \<Rightarrow> char \<Rightarrow> exp_state \<Rightarrow> exp_state checked" where
  "exp_char get c st =
     (if c = dollar then
        if \<not> taking_var st \<and> var_name st = [] then Some (st\<lparr>taking_var := True\<rparr>)
        else if \<not> taking_var st then
          do {
            b \<leftarrow> append_dec (var_name st) (out_buf st);
            Some \<lparr>out_buf = b, taking_var = True, var_name = []\<rparr>
          }
        else if get (var_name st) = [] then Some (st\<lparr>var_name := []\<rparr>)
        else
          do {
            b \<leftarrow> append_dec (get (var_name st)) (out_buf st);
            Some \<lparr>out_buf = b, taking_var = True, var_name = []\<rparr>
          }
      else if length (var_name st) + 1 < MAX_STR_LEN then Some (st\<lparr>var_name := var_name st @ [c]\<rparr>)
      else fault)"

text \<open>The for loop: it returns the array at once (\<open>Inl\<close>) when no room is left.\<close>

fun exp_loop :: "(string \<Rightarrow> string) \<Rightarrow> string \<Rightarrow> exp_state \<Rightarrow> (string + exp_state) checked" where
  "exp_loop get [] st = Some (Inr st)"
| "exp_loop get (c # cs) st =
     (if room (out_buf st) < 1 then Some (Inl (content (out_buf st)))
      else Option.bind (exp_char get c st) (exp_loop get cs))"

definition exp_finish :: "(string \<Rightarrow> string) \<Rightarrow> exp_state \<Rightarrow> string checked" where
  "exp_finish get st =
     do {
       st \<leftarrow>
         (if var_name st \<noteq> [] then
            if \<not> taking_var st then
              do {
                b \<leftarrow> append_dec (var_name st) (out_buf st);
                Some \<lparr>out_buf = b, taking_var = False, var_name = []\<rparr>
              }
            else
              do {
                b \<leftarrow> append_dec (get (var_name st)) (out_buf st);
                Some \<lparr>out_buf = b, taking_var = False, var_name = []\<rparr>
              }
          else Some st);
       b \<leftarrow> (if var_name st = [] \<and> taking_var st then append_dec [dollar] (out_buf st)
             else Some (out_buf st));
       Some (content b)
     }"

definition expand_with :: "(string \<Rightarrow> string) \<Rightarrow> string \<Rightarrow> string checked" where
  "expand_with get inp =
     do {
       r \<leftarrow> exp_loop get inp exp_init;
       (case r of Inl a \<Rightarrow> Some a | Inr st \<Rightarrow> exp_finish get st)
     }"

text \<open>The C function: a NULL input gives the empty string.\<close>

definition expand_variables :: "var_list \<Rightarrow> string option \<Rightarrow> string checked" where
  "expand_variables vs inp =
     (case inp of None \<Rightarrow> Some [] | Some s \<Rightarrow> expand_with (\<lambda>k. find_val_with_key k vs) s)"

section \<open>The specification\<close>

fun split_dollar :: "string \<Rightarrow> string list" where
  "split_dollar [] = [[]]"
| "split_dollar (c # cs) =
     (if c = dollar then [] # split_dollar cs
      else case split_dollar cs of [] \<Rightarrow> [[c]] | t # ts \<Rightarrow> (c # t) # ts)"

definition lone_dollar :: "string list \<Rightarrow> string" where
  "lone_dollar ns = (if ns \<noteq> [] \<and> last ns = [] then [dollar] else [])"

definition expand_ref :: "(string \<Rightarrow> string) \<Rightarrow> string \<Rightarrow> string" where
  "expand_ref get s =
     (let ps = split_dollar s in hd ps @ concat (map get (tl ps)) @ lone_dollar (tl ps))"

section \<open>Lemmas\<close>

lemma split_dollar_nonempty [simp]: "split_dollar s \<noteq> []"
  by (induction s) (auto split: list.splits)

lemma split_dollar_other [simp]:
  "c \<noteq> dollar \<Longrightarrow> split_dollar (c # cs) = (c # hd (split_dollar cs)) # tl (split_dollar cs)"
  by (cases "split_dollar cs") (simp_all add: split_dollar_nonempty[of cs])

lemma split_dollar_dollar [simp]: "split_dollar (dollar # cs) = [] # split_dollar cs"
  by simp

declare split_dollar.simps(2) [simp del]

lemma split_dollar_plain: "dollar \<notin> set s \<Longrightarrow> split_dollar s = [s]"
  by (induction s) auto

lemma split_dollar_word: "dollar \<notin> set w \<Longrightarrow> split_dollar (w @ dollar # cs) = w # split_dollar cs"
  by (induction w) auto

lemma expand_ref_plain: "dollar \<notin> set s \<Longrightarrow> expand_ref get s = s"
  by (simp add: expand_ref_def split_dollar_plain lone_dollar_def)

text \<open>A single variable, and text followed by one.\<close>

lemma expand_ref_one:
  "dollar \<notin> set t \<Longrightarrow> dollar \<notin> set k \<Longrightarrow> k \<noteq> [] \<Longrightarrow> expand_ref get (t @ dollar # k) = t @ get k"
  by (simp add: expand_ref_def split_dollar_word split_dollar_plain lone_dollar_def)

text \<open>What the scanner still has to produce in a given state.\<close>

definition exp_rest :: "(string \<Rightarrow> string) \<Rightarrow> bool \<Rightarrow> string \<Rightarrow> string \<Rightarrow> string" where
  "exp_rest get taking name cs =
     (let t = name @ hd (split_dollar cs); ns = tl (split_dollar cs)
      in if taking then concat (map get (t # ns)) @ lone_dollar (t # ns)
         else t @ concat (map get ns) @ lone_dollar ns)"

lemma exp_rest_init: "exp_rest get False [] s = expand_ref get s"
  by (simp add: exp_rest_def expand_ref_def Let_def)

lemma exp_text_init:
  "content (out_buf exp_init) @ exp_rest get (taking_var exp_init) (var_name exp_init) s = expand_ref get s"
  by (simp add: exp_init_def exp_rest_init)

lemma lone_dollar_Cons: "ns \<noteq> [] \<Longrightarrow> lone_dollar (t # ns) = lone_dollar ns"
  by (simp add: lone_dollar_def)

lemma hd_tl_split: "hd (split_dollar cs) # tl (split_dollar cs) = split_dollar cs"
  by simp

lemma exp_rest_dollar:
  "exp_rest get t name (dollar # cs) = (if t then get name else name) @ exp_rest get True [] cs"
  by (simp add: exp_rest_def Let_def lone_dollar_Cons del: list.map) (simp flip: list.map concat.simps)

lemma exp_rest_other:
  "c \<noteq> dollar \<Longrightarrow> exp_rest get t name (c # cs) = exp_rest get t (name @ [c]) cs"
  by (simp add: exp_rest_def)

lemma exp_rest_Nil:
  "exp_rest get t name [] =
     (if t then get name @ (if name = [] then [dollar] else []) else name)"
  by (simp add: exp_rest_def lone_dollar_def)

abbreviation exp_text :: "(string \<Rightarrow> string) \<Rightarrow> exp_state \<Rightarrow> string \<Rightarrow> string" where
  "exp_text get st cs \<equiv> content (out_buf st) @ exp_rest get (taking_var st) (var_name st) cs"

lemma exp_char_text:
  assumes "exp_char get c st = Some st'" and "buf_ok (out_buf st)"
  shows "buf_ok (out_buf st')"
    and "take MAX_STR_LEN (exp_text get st' cs) = take MAX_STR_LEN (exp_text get st (c # cs))"
  using assms
  by (auto simp: exp_char_def exp_rest_dollar exp_rest_other append_dec_contents
      simp del: take_append intro: append_dec_ok split: if_splits Option.bind_splits)

lemma exp_finish_text:
  assumes "exp_finish get st = Some r" and "buf_ok (out_buf st)" and "get [] = []"
  shows "r = take MAX_STR_LEN (exp_text get st [])"
  using assms append_dec_contents[of "out_buf st" _ _ "[]"] tb.contents_limit append_dec_ok
  by (fastforce simp: exp_finish_def exp_rest_Nil split: if_splits Option.bind_splits)

lemma buf_full:
  assumes "buf_ok b" and "room b < 1"
  shows "take MAX_STR_LEN (content b @ x) = content b"
proof -
  have "unat (room b) = 0" using assms(2) by (simp add: word_less_nat_alt)
  then have "length (content b) = 128" using assms(1) by (auto simp: buf_ok_def)
  then show ?thesis by simp
qed

lemma exp_loop_text:
  assumes "exp_loop get cs st = Some r" and "buf_ok (out_buf st)"
  shows "case r of Inl a \<Rightarrow> a = take MAX_STR_LEN (exp_text get st cs)
         | Inr st' \<Rightarrow> buf_ok (out_buf st') \<and>
             take MAX_STR_LEN (exp_text get st' []) = take MAX_STR_LEN (exp_text get st cs)"
  using assms
proof (induction cs arbitrary: st)
  case (Cons c cs)
  show ?case
  proof (cases "room (out_buf st) < 1")
    case True
    then show ?thesis using Cons.prems buf_full by auto
  next
    case False
    then obtain st' where st': "exp_char get c st = Some st'" "exp_loop get cs st' = Some r"
      using Cons.prems(1) by (auto split: Option.bind_splits)
    then show ?thesis
      using Cons.IH[OF st'(2)] exp_char_text[OF st'(1) Cons.prems(2)]
      by (cases r) (simp_all del: take_append)
  qed
qed auto

text \<open>The scanner returns the specified expansion, cut at 128 bytes, or faults.\<close>

lemma expand_with_text:
  assumes "expand_with get s = Some r" and "get [] = []"
  shows "r = take MAX_STR_LEN (expand_ref get s)"
proof -
  obtain q where q: "exp_loop get s exp_init = Some q"
    and r: "(case q of Inl a \<Rightarrow> Some a | Inr st \<Rightarrow> exp_finish get st) = Some r"
    using assms(1) by (auto simp: expand_with_def split: Option.bind_splits)
  have *: "case q of Inl a \<Rightarrow> a = take 128 (expand_ref get s)
       | Inr st' \<Rightarrow> buf_ok (out_buf st') \<and> take 128 (exp_text get st' []) = take 128 (expand_ref get s)"
    using exp_loop_text[OF q] unfolding exp_text_init by (simp add: exp_init_def)
  show ?thesis
    using r * exp_finish_text[of get _ r] assms(2) by (cases q) auto
qed

text \<open>
  It does not fault when the expansion fits the array and no collected piece is longer than
  \<open>var_name\<close> can hold.
\<close>

definition pieces_ok :: "string \<Rightarrow> bool" where
  "pieces_ok s \<longleftrightarrow> (\<forall>t\<in>set (split_dollar s). length t < MAX_STR_LEN)"

lemma exp_char_fits:
  assumes "buf_ok (out_buf st)"
    and "length (exp_text get st (c # cs)) \<le> MAX_STR_LEN"
    and "length (var_name st @ hd (split_dollar (c # cs))) < MAX_STR_LEN"
    and "\<forall>t\<in>set (tl (split_dollar (c # cs))). length t < MAX_STR_LEN"
  shows "\<exists>st'. exp_char get c st = Some st' \<and> exp_text get st' cs = exp_text get st (c # cs) \<and>
     length (var_name st' @ hd (split_dollar cs)) < MAX_STR_LEN"
proof (cases "c = dollar")
  case True
  have "length (hd (split_dollar cs)) < MAX_STR_LEN" using assms(4) True by simp
  then show ?thesis using assms True
    by (cases "taking_var st"; cases "var_name st = []"; cases "get (var_name st) = []")
      (auto simp: exp_char_def exp_rest_dollar append_dec_fits)
next
  case False
  then show ?thesis using assms by (auto simp: exp_char_def exp_rest_other)
qed

lemma exp_loop_fits:
  assumes "buf_ok (out_buf st)" and "get [] = []"
    and "length (exp_text get st cs) \<le> MAX_STR_LEN"
    and "length (var_name st @ hd (split_dollar cs)) < MAX_STR_LEN"
    and "\<forall>t\<in>set (tl (split_dollar cs)). length t < MAX_STR_LEN"
  shows "\<exists>r. exp_loop get cs st = Some r \<and> (\<forall>st'. r = Inr st' \<longrightarrow> exp_finish get st' \<noteq> None)"
  using assms
proof (induction cs arbitrary: st)
  case Nil
  then show ?case
    by (cases "var_name st = []"; cases "taking_var st")
      (auto simp: exp_finish_def exp_rest_Nil append_dec_fits)
next
  case (Cons c cs)
  show ?case
  proof (cases "room (out_buf st) < 1")
    case False
    obtain st' where st': "exp_char get c st = Some st'"
      "exp_text get st' cs = exp_text get st (c # cs)"
      "length (var_name st' @ hd (split_dollar cs)) < MAX_STR_LEN"
      using exp_char_fits[OF Cons.prems(1,3-5)] by blast
    have "\<exists>r. exp_loop get cs st' = Some r \<and> (\<forall>st'. r = Inr st' \<longrightarrow> exp_finish get st' \<noteq> None)"
    proof (rule Cons.IH)
      show "buf_ok (out_buf st')" using exp_char_text(1)[OF st'(1) Cons.prems(1)] .
      show "\<forall>t\<in>set (tl (split_dollar cs)). length t < MAX_STR_LEN"
        using Cons.prems(5) by (cases "c = dollar") (auto dest: list.set_sel(2)[OF split_dollar_nonempty])
    qed (use st' Cons.prems in auto)
    then show ?thesis using False st'(1) by auto
  qed simp
qed

lemma expand_with_fits:
  assumes "pieces_ok s" and "get [] = []" and "length (expand_ref get s) \<le> MAX_STR_LEN"
  shows "expand_with get s = Some (expand_ref get s)"
proof -
  have "\<exists>r. exp_loop get s exp_init = Some r \<and> (\<forall>st'. r = Inr st' \<longrightarrow> exp_finish get st' \<noteq> None)"
    by (rule exp_loop_fits)
      (use assms in \<open>auto simp: exp_init_def exp_rest_init pieces_ok_def list.set_sel\<close>)
  then obtain r where "expand_with get s = Some r"
    by (cases "exp_loop get s exp_init"; cases "the (exp_loop get s exp_init)")
      (auto simp: expand_with_def)
  then show ?thesis using expand_with_text[of get s r] assms by simp
qed

section \<open>Expansion over any store that keeps the interface\<close>

context var_lookup
begin

lemma expansion_text:
  "ok s \<Longrightarrow> expand_with (get s) inp = Some r \<Longrightarrow> r = take MAX_STR_LEN (expand_ref (get s) inp)"
  by (rule expand_with_text) (simp_all add: get_empty_name)

lemma expansion_length: "ok s \<Longrightarrow> expand_with (get s) inp = Some r \<Longrightarrow> length r \<le> MAX_STR_LEN"
  by (drule (1) expansion_text) simp

lemma expansion_fits:
  "ok s \<Longrightarrow> pieces_ok inp \<Longrightarrow> length (expand_ref (get s) inp) \<le> MAX_STR_LEN \<Longrightarrow>
     expand_with (get s) inp = Some (expand_ref (get s) inp)"
  by (rule expand_with_fits) (simp_all add: get_empty_name)

text \<open>One variable always fits: its value is at most one array long.\<close>

lemma expansion_of_one:
  "ok s \<Longrightarrow> dollar \<notin> set k \<Longrightarrow> k \<noteq> [] \<Longrightarrow> length k < MAX_STR_LEN \<Longrightarrow>
     expand_with (get s) (dollar # k) = Some (get s k)"
  using expansion_fits[of s "dollar # k"] expand_ref_one[of "[]" k "get s"] get_bound[of s k]
  by (simp add: pieces_ok_def split_dollar_plain)

text \<open>Text without a dollar sign is its own expansion.\<close>

lemma expansion_of_plain:
  "ok s \<Longrightarrow> dollar \<notin> set t \<Longrightarrow> length t < MAX_STR_LEN \<Longrightarrow> expand_with (get s) t = Some t"
  using expansion_fits[of s t] by (simp add: pieces_ok_def split_dollar_plain expand_ref_plain)

end

section \<open>The overflow\<close>

lemma exp_char_other:
  "c \<noteq> dollar \<Longrightarrow> length (var_name st) + 1 < MAX_STR_LEN \<Longrightarrow>
     exp_char get c st = Some (st\<lparr>var_name := var_name st @ [c]\<rparr>)"
  by (simp add: exp_char_def)

lemma exp_loop_word:
  assumes "dollar \<notin> set w" and "length (var_name st) + length w < MAX_STR_LEN"
    and "\<not> room (out_buf st) < 1"
  shows "exp_loop get (w @ cs) st = exp_loop get cs (st\<lparr>var_name := var_name st @ w\<rparr>)"
  using assms
proof (induction w arbitrary: st)
  case (Cons c w)
  have "exp_loop get ((c # w) @ cs) st = exp_loop get (w @ cs) (st\<lparr>var_name := var_name st @ [c]\<rparr>)"
    using Cons.prems exp_char_other[of c st get] by auto
  also have "\<dots> = exp_loop get cs (st\<lparr>var_name := var_name st @ [c], var_name := var_name st @ [c] @ w\<rparr>)"
    using Cons.IH[of "st\<lparr>var_name := var_name st @ [c]\<rparr>"] Cons.prems by simp
  finally show ?case by simp
qed simp

lemma room_pos: "0 < unat (room b) \<Longrightarrow> \<not> room b < 1"
  by (simp add: word_less_nat_alt)

text \<open>
  Three times a variable whose value fills more than half of the array: the second append
  is cut and wraps the counter, the third writes past the end.
\<close>

lemma expand_three_overflows:
  assumes a: "dollar \<notin> set a" "length a < MAX_STR_LEN"
    and v: "64 < length (get a)" "length (get a) < MAX_STR_LEN"
    and ne: "a \<noteq> []"
  shows "expand_with get (dollar # a @ dollar # a @ dollar # a) = fault"
proof -
  let ?v = "get a"
  let ?st = "\<lambda>b n. \<lparr>out_buf = b, taking_var = True, var_name = n\<rparr>"
  have vne: "?v \<noteq> []" using v by auto
  obtain b1 where b1: "append_dec ?v empty_buf = Some b1" "content b1 = ?v"
    using append_dec_fits[of empty_buf ?v] v by auto
  have ok1: "buf_ok b1" using b1 append_dec_ok buf_ok_empty by blast
  obtain b2 where b2: "append_dec ?v b1 = Some b2" "length (content b2) = MAX_STR_LEN" "0 < unat (room b2)"
    using append_dec_overflow[OF ok1, of ?v] b1 v by auto
  have b3: "append_dec ?v b2 = fault" by (rule append_dec_full_faults[OF b2(2,3) vne])
  have r0: "\<not> room empty_buf < 1" by (rule room_pos) (simp add: empty_buf_def)
  have r1: "\<not> room b1 < 1" by (rule room_pos) (use ok1 b1 v in \<open>simp add: buf_ok_def\<close>)
  have r2: "\<not> room b2 < 1" by (rule room_pos) (rule b2(3))
  have "exp_loop get (dollar # a @ dollar # a @ dollar # a) exp_init =
      exp_loop get (dollar # a @ dollar # a) (?st empty_buf a)"
    using exp_loop_word[of a "?st empty_buf []"] a r0 by (simp add: exp_init_def exp_char_def)
  also have "\<dots> = exp_loop get (dollar # a) (?st b1 a)"
    using exp_loop_word[of a "?st b1 []"] a r0 r1 b1 vne by (simp add: exp_char_def)
  also have "\<dots> = Some (Inr (?st b2 a))"
    using exp_loop_word[of a "?st b2 []" get "[]"] a r1 r2 b2 vne by (simp add: exp_char_def)
  finally show ?thesis using b3 ne by (simp add: expand_with_def exp_finish_def)
qed

end
