(* ===== verification/Builtin_Files.thy ===== *)
theory Builtin_Files
  imports Expand C_Numbers
begin

text \<open>
  \<open>bn_cd\<close>, \<open>bn_cat\<close> and \<open>bn_wc\<close> of src/src/builtins.c. The file system is an argument: what
  \<open>fopen\<close> of a path yields (the contents, or \<open>None\<close>), whether \<open>chdir\<close> succeeds, and the
  results of the reads of standard input. The counters of \<open>wc\<close> are C ints, whose overflow is
  undefined: \<open>INT_MAX + 1\<close> is a fault.
\<close>

abbreviation BUFFERSIZE :: nat where "BUFFERSIZE \<equiv> 4096"

section \<open>cd\<close>

text \<open>Three and four dots name the grandparent and its parent.\<close>

definition expand_dots :: "string \<Rightarrow> string" where
  "expand_dots s =
     (if length s = 3 \<and> strncmp_eq 3 s ''...'' then ''../..''
      else if length s = 4 \<and> strncmp_eq 4 s ''....'' then ''../../..''
      else s)"

definition cd_component :: "var_list \<Rightarrow> string \<Rightarrow> string checked" where
  "cd_component vs c =
     (if dollar \<in> set c then
        do { e \<leftarrow> expand_variables vs (Some c); Some (expand_dots e) }
      else Some (expand_dots c))"

text \<open>
  The loop over the components, with \<open>final_path\<close> in an array of 129 bytes. The component
  is appended with strncat within the room left, the separator with an unbounded strcat.
  The two loops of the source differ only in the test for a dollar sign, which no component
  of a path without one passes.
\<close>

fun cd_loop :: "var_list \<Rightarrow> string list \<Rightarrow> string \<Rightarrow> string checked" where
  "cd_loop vs [] final_path = Some final_path"
| "cd_loop vs (c # cs) final_path =
     do {
       e \<leftarrow> cd_component vs c;
       p \<leftarrow> strncat (MAX_STR_LEN + 1) final_path e (MAX_STR_LEN - length final_path);
       p \<leftarrow> (if cs \<noteq> [] then strcat (MAX_STR_LEN + 1) p ''/'' else Some p);
       cd_loop vs cs p
     }"

definition cd_path :: "var_list \<Rightarrow> string \<Rightarrow> string checked" where
  "cd_path vs path =
     cd_loop vs (strtok_all ''/'' path) (if path \<noteq> [] \<and> hd path = CHR ''/'' then ''/'' else [])"

definition bn_cd :: "(string \<Rightarrow> bool) \<Rightarrow> var_list \<Rightarrow> string list \<Rightarrow> (int \<times> event list) checked" where
  "bn_cd os_chdir vs tokens =
     (if length tokens \<le> 1 then Some (-1, display_error ''ERROR: No input source provided'' [])
      else if length tokens > 2
        then Some (-1, display_error ''ERROR: Too many arguments: cd takes a single path'' [])
      else do {
        p \<leftarrow> cd_path vs (tokens ! 1);
        Some (if os_chdir p then (0, [Chdir p])
              else (-1, display_error ''ERROR: Invalid path'' []))
      })"

section \<open>The path of cat and wc\<close>

text \<open>Expansion by components, where only the components are copied and joined.\<close>

fun file_path_loop :: "var_list \<Rightarrow> string list \<Rightarrow> string \<Rightarrow> string checked" where
  "file_path_loop vs [] final_path = Some final_path"
| "file_path_loop vs (c # cs) final_path =
     do {
       e \<leftarrow> (if dollar \<in> set c then expand_variables vs (Some c) else Some c);
       p \<leftarrow> strncat (BUFFERSIZE + 1) final_path e (BUFFERSIZE - length final_path);
       p \<leftarrow> (if cs \<noteq> [] then strncat (BUFFERSIZE + 1) p ''/'' (BUFFERSIZE - length p) else Some p);
       file_path_loop vs cs p
     }"

definition file_path :: "var_list \<Rightarrow> string \<Rightarrow> string checked" where
  "file_path vs t =
     (if dollar \<in> set t \<and> length t \<ge> 2 then file_path_loop vs (strtok_all ''/'' t) []
      else Some (take BUFFERSIZE t))"

section \<open>cat\<close>

text \<open>\<open>fgets\<close> with a buffer of \<open>n\<close> bytes: a line with its newline, or the first \<open>n - 1\<close> bytes of it.\<close>

definition fgets :: "nat \<Rightarrow> string \<Rightarrow> (string \<times> string) option" where
  "fgets n s =
     (if s = [] then None
      else let k = min (n - 1) (Suc (length (takeWhile (\<lambda>c. c \<noteq> LF) s)))
           in Some (take k s, drop k s))"

function fgets_all :: "nat \<Rightarrow> string \<Rightarrow> string list" where
  "fgets_all n s =
     (if n \<le> 1 then []
      else case fgets n s of None \<Rightarrow> [] | Some (l, r) \<Rightarrow> l # fgets_all n r)"
  by pat_completeness auto
termination
  by (relation "measure (\<lambda>(n, s). length s)") (auto simp: fgets_def Let_def split: if_splits)

declare fgets_all.simps [simp del]

text \<open>\<open>display_message\<close> of a C buffer: up to its first NUL, and at most 128 bytes.\<close>

definition display_chunk :: "string \<Rightarrow> event list" where
  "display_chunk bs = display_message (cstr bs)"

definition bn_cat ::
  "(string \<Rightarrow> string option) \<Rightarrow> string list \<Rightarrow> var_list \<Rightarrow> string list \<Rightarrow> (int \<times> event list) checked" where
  "bn_cat os_file stdin_reads vs tokens =
     (if length tokens \<le> 1 then
        Some (if stdin_reads = [] then (-1, display_error ''ERROR: No input source provided'' [])
              else (0, concat (map display_chunk stdin_reads)))
      else if length tokens > 2
        then Some (-1, display_error ''ERROR: Too many arguments: cat takes a single file'' [])
      else do {
        p \<leftarrow> file_path vs (tokens ! 1);
        Some (case os_file p of
                None \<Rightarrow> (-1, display_error ''ERROR: Cannot open file'' [])
              | Some contents \<Rightarrow>
                  (0, [Open p] @ concat (map display_chunk (fgets_all BUFFERSIZE contents)) @ [Close_File]))
      })"

section \<open>wc\<close>

record wc_state =
  word_count :: int
  char_count :: int
  line_count :: int
  in_word :: bool

definition wc_init :: wc_state where
  "wc_init = \<lparr>word_count = 0, char_count = 0, line_count = 0, in_word = False\<rparr>"

text \<open>\<open>++\<close> on an int.\<close>

definition int_incr :: "int \<Rightarrow> int checked" where
  "int_incr n = do { require (n + 1 < 2 ^ 31); Some (n + 1) }"

definition wc_char :: "char \<Rightarrow> wc_state \<Rightarrow> wc_state checked" where
  "wc_char c st =
     do {
       n \<leftarrow> int_incr (char_count st);
       let st = st\<lparr>char_count := n\<rparr>;
       if c = LF then do {
         n \<leftarrow> int_incr (line_count st);
         Some (st\<lparr>line_count := n, in_word := False\<rparr>)
       }
       else if isspace c then Some (st\<lparr>in_word := False\<rparr>)
       else if \<not> in_word st then do {
         n \<leftarrow> int_incr (word_count st);
         Some (st\<lparr>in_word := True, word_count := n\<rparr>)
       }
       else Some st
     }"

text \<open>The loop over the bytes of the file.\<close>

definition wc_read :: "string \<Rightarrow> wc_state checked" where
  "wc_read s = foldM wc_char s wc_init"

definition wc_report :: "wc_state \<Rightarrow> event list" where
  "wc_report st =
     display_message (snprintf BUFFERSIZE (''word count '' @ show_int (word_count st) @ [LF])) @
     display_message (snprintf BUFFERSIZE (''character count '' @ show_int (char_count st) @ [LF])) @
     display_message (snprintf BUFFERSIZE (''newline count '' @ show_int (line_count st) @ [LF]))"

text \<open>The file is never closed; \<open>stdin_text\<close> is \<open>None\<close> when fdopen fails.\<close>

definition bn_wc ::
  "(string \<Rightarrow> string option) \<Rightarrow> string option \<Rightarrow> var_list \<Rightarrow> string list \<Rightarrow> (int \<times> event list) checked" where
  "bn_wc os_file stdin_text vs tokens =
     (if length tokens \<le> 1 then
        (case stdin_text of
           None \<Rightarrow> Some (-1, display_error ''ERROR: Cannot read from stdin'' [])
         | Some contents \<Rightarrow> do { st \<leftarrow> wc_read contents; Some (0, wc_report st) })
      else if length tokens > 2
        then Some (-1, display_error ''ERROR: Too many arguments: cat takes a single file'' [])
      else do {
        p \<leftarrow> file_path vs (tokens ! 1);
        case os_file p of
          None \<Rightarrow> Some (-1, display_error ''ERROR: Cannot open file'' [])
        | Some contents \<Rightarrow> do { st \<leftarrow> wc_read contents; Some (0, [Open p] @ wc_report st) }
      })"

section \<open>Lemmas on cd\<close>

lemma cd_component_plain: "dollar \<notin> set c \<Longrightarrow> cd_component vs c = Some (expand_dots c)"
  by (simp add: cd_component_def)

lemma cd_loop_fits:
  assumes "\<forall>c\<in>set cs. dollar \<notin> set c"
    and "length p + length (join ''/'' (map expand_dots cs)) \<le> MAX_STR_LEN"
  shows "cd_loop vs cs p = Some (p @ join ''/'' (map expand_dots cs))"
  using assms
proof (induction cs arbitrary: p)
  case (Cons c cs)
  have c: "cd_component vs c = Some (expand_dots c)" using Cons.prems(1) by (simp add: cd_component_plain)
  show ?case
  proof (cases "cs = []")
    case True
    then show ?thesis using c Cons.prems(2) by (simp add: strncat_fits)
  next
    case False
    then have len: "length p + length (expand_dots c) + 1 + length (join ''/'' (map expand_dots cs)) \<le> 128"
      using Cons.prems(2) by (simp add: join_Cons)
    have "cd_loop vs cs (p @ expand_dots c @ ''/'') =
        Some ((p @ expand_dots c @ ''/'') @ join ''/'' (map expand_dots cs))"
      by (rule Cons.IH) (use Cons.prems(1) len in auto)
    then show ?thesis using c len False by (simp add: strncat_fits strcat_def join_Cons)
  qed
qed simp

text \<open>A component that fills the array before the last one: the separator is written past its end.\<close>

lemma cd_loop_overflow:
  assumes "dollar \<notin> set c" and "MAX_STR_LEN \<le> length p + length (expand_dots c)" and "cs \<noteq> []"
    and "length p \<le> MAX_STR_LEN"
  shows "cd_loop vs (c # cs) p = fault"
proof -
  let ?q = "p @ take (MAX_STR_LEN - length p) (expand_dots c)"
  have "length ?q = MAX_STR_LEN" using assms(2,4) by simp
  then have "strncat (MAX_STR_LEN + 1) p (expand_dots c) (MAX_STR_LEN - length p) = Some ?q"
    "strcat (MAX_STR_LEN + 1) ?q ''/'' = fault"
    by (simp_all add: strncat_def strcat_def)
  then show ?thesis using assms(1,3) by (simp add: cd_component_plain)
qed

lemma cd_loop_overflow_append:
  assumes "\<forall>c\<in>set (as @ [c]). dollar \<notin> set c" and "cs \<noteq> []"
    and "MAX_STR_LEN \<le> length p + length (join ''/'' (map expand_dots (as @ [c])))"
    and "length p \<le> MAX_STR_LEN"
  shows "cd_loop vs (as @ c # cs) p = fault"
  using assms
proof (induction as arbitrary: p)
  case Nil
  then show ?case using cd_loop_overflow[of c p cs vs] by (simp del: cd_loop.simps)
next
  case (Cons a as)
  show ?case
  proof (cases "MAX_STR_LEN \<le> length p + length (expand_dots a)")
    case True
    then show ?thesis using cd_loop_overflow[of a p "as @ c # cs" vs] Cons.prems
      by (simp del: cd_loop.simps)
  next
    case False
    then have "cd_loop vs ((a # as) @ c # cs) p = cd_loop vs (as @ c # cs) (p @ expand_dots a @ ''/'')"
      using Cons.prems(1) by (simp add: cd_component_plain strncat_fits strcat_def)
    also have "\<dots> = fault"
      by (rule Cons.IH) (use Cons.prems False in \<open>auto simp: join_Cons\<close>)
    finally show ?thesis .
  qed
qed

lemma strtok_all_subset: "c \<in> set (strtok_all ds s) \<Longrightarrow> x \<notin> set s \<Longrightarrow> x \<notin> set c"
  using strtok_all_clean[of c ds s] by auto

lemma cd_path_fits:
  assumes "dollar \<notin> set path"
    and "length ((if path \<noteq> [] \<and> hd path = CHR ''/'' then ''/'' else []) @
          join ''/'' (map expand_dots (strtok_all ''/'' path))) \<le> MAX_STR_LEN"
  shows "cd_path vs path = Some ((if path \<noteq> [] \<and> hd path = CHR ''/'' then ''/'' else []) @
          join ''/'' (map expand_dots (strtok_all ''/'' path)))"
  unfolding cd_path_def using assms strtok_all_subset
  by (intro cd_loop_fits) auto

lemma cd_path_overflow:
  assumes "dollar \<notin> set path" and "strtok_all ''/'' path = as @ c # cs" and "cs \<noteq> []"
    and "MAX_STR_LEN \<le> length (join ''/'' (map expand_dots (as @ [c])))"
  shows "cd_path vs path = fault"
proof -
  have "\<forall>x\<in>set (as @ [c]). dollar \<notin> set x"
    using strtok_all_subset[of _ "''/''" path dollar] assms(1,2) by auto
  then show ?thesis unfolding cd_path_def assms(2)
    by (rule cd_loop_overflow_append) (use assms in auto)
qed

text \<open>What the dots mean, and where \<open>cd\<close> goes.\<close>

definition levels_up :: "nat \<Rightarrow> string" where
  "levels_up n = join ''/'' (replicate n ''..'')"

definition dots_meaning :: "string \<Rightarrow> string" where
  "dots_meaning c = (if c = ''...'' then levels_up 2 else if c = ''....'' then levels_up 3 else c)"

definition cd_target :: "string \<Rightarrow> string" where
  "cd_target path = (if path \<noteq> [] \<and> hd path = CHR ''/'' then ''/'' else []) @
     join ''/'' (map dots_meaning (strtok_all ''/'' path))"

lemma expand_dots_meaning: "expand_dots c = dots_meaning c"
  by (auto simp: expand_dots_def dots_meaning_def levels_up_def strncmp_eq_def numeral_2_eq_2 numeral_3_eq_3)

lemma cd_path_target:
  assumes "dollar \<notin> set path" and "length (cd_target path) \<le> MAX_STR_LEN"
  shows "cd_path vs path = Some (cd_target path)"
proof -
  have "expand_dots = dots_meaning" by (rule ext) (rule expand_dots_meaning)
  then show ?thesis using cd_path_fits[OF assms(1), of vs] assms(2) by (simp add: cd_target_def)
qed

section \<open>Lemmas on cat\<close>

lemma fgets_all_concat: "1 < n \<Longrightarrow> concat (fgets_all n s) = s"
proof (induction n s rule: fgets_all.induct)
  case (1 n s)
  show ?case
  proof (cases "s = []")
    case True
    then show ?thesis by (subst fgets_all.simps) (simp add: fgets_def)
  next
    case False
    let ?k = "min (n - 1) (Suc (length (takeWhile (\<lambda>c. c \<noteq> LF) s)))"
    have e: "fgets n s = Some (take ?k s, drop ?k s)" using False by (simp add: fgets_def Let_def)
    have "concat (fgets_all n (drop ?k s)) = drop ?k s"
      by (rule "1.IH"[OF _ e refl]) (use "1.prems" in auto)
    moreover have "fgets_all n s = take ?k s # fgets_all n (drop ?k s)"
      using "1.prems" by (subst fgets_all.simps) (simp add: e)
    ultimately show ?thesis by simp
  qed
qed

lemma fgets_all_chunk: "l \<in> set (fgets_all n s) \<Longrightarrow> l \<noteq> [] \<and> length l < n \<and> LF \<notin> set (butlast l)"
proof (induction n s rule: fgets_all.induct)
  case (1 n s)
  show ?case
  proof (cases "n \<le> 1 \<or> s = []")
    case True
    then have "fgets_all n s = []" by (subst fgets_all.simps) (auto simp: fgets_def)
    then show ?thesis using "1.prems" by simp
  next
    case False
    let ?k = "min (n - 1) (Suc (length (takeWhile (\<lambda>c. c \<noteq> LF) s)))"
    have e: "fgets n s = Some (take ?k s, drop ?k s)" using False by (simp add: fgets_def Let_def)
    have nolf: "LF \<notin> set (butlast (take ?k s))"
    proof -
      have "butlast (take ?k s) = take (min (length (take ?k s) - 1) ?k) s"
        by (simp only: butlast_conv_take take_take)
      moreover have "min (length (take ?k s) - 1) ?k \<le> length (takeWhile (\<lambda>c. c \<noteq> LF) s)"
        unfolding length_take by arith
      ultimately have "set (butlast (take ?k s)) \<subseteq> set (take (length (takeWhile (\<lambda>c. c \<noteq> LF) s)) s)"
        using set_take_subset_set_take by metis
      also have "take (length (takeWhile (\<lambda>c. c \<noteq> LF) s)) s = takeWhile (\<lambda>c. c \<noteq> LF) s"
        by (simp add: takeWhile_eq_take[symmetric])
      finally show ?thesis by (auto dest: set_takeWhileD)
    qed
    have "l = take ?k s \<or> l \<in> set (fgets_all n (drop ?k s))"
      using "1.prems" False by (subst (asm) fgets_all.simps) (simp add: e)
    moreover have "take ?k s \<noteq> [] \<and> length (take ?k s) < n" using False by auto
    ultimately show ?thesis using "1.IH"[OF _ e refl] False nolf by auto
  qed
qed

text \<open>Everything of the file is shown only if no chunk is cut by \<open>display_message\<close>.\<close>

definition shown :: "string \<Rightarrow> string" where
  "shown bs = take MAX_STR_LEN (cstr bs)"

lemma stdout_display_chunks: "stdout_of (concat (map display_chunk bss)) = concat (map shown bss)"
  by (induction bss) (auto simp: display_chunk_def shown_def)

lemma shown_id: "NUL \<notin> set bs \<Longrightarrow> length bs \<le> MAX_STR_LEN \<Longrightarrow> shown bs = bs"
  by (simp add: shown_def cstr_id)

lemma bn_cat_file:
  assumes "file_path vs t = Some p" and "os_file p = Some contents"
  shows "\<exists>es. bn_cat os_file rs vs [c, t] = Some (0, es) \<and>
     stdout_of es = concat (map shown (fgets_all BUFFERSIZE contents))"
  using assms by (auto simp: bn_cat_def stdout_display_chunks)

lemma set_fgets_all: "l \<in> set (fgets_all BUFFERSIZE s) \<Longrightarrow> set l \<subseteq> set s"
proof -
  assume "l \<in> set (fgets_all BUFFERSIZE s)"
  then have "set l \<subseteq> set (concat (fgets_all BUFFERSIZE s))" by auto
  then show ?thesis using fgets_all_concat[of BUFFERSIZE s] by simp
qed

lemma cat_complete:
  assumes "NUL \<notin> set contents" and "\<forall>l\<in>set (fgets_all BUFFERSIZE contents). length l \<le> MAX_STR_LEN"
  shows "concat (map shown (fgets_all BUFFERSIZE contents)) = contents"
proof -
  have "map shown (fgets_all BUFFERSIZE contents) = fgets_all BUFFERSIZE contents"
  proof (rule map_idI)
    fix l
    assume l: "l \<in> set (fgets_all BUFFERSIZE contents)"
    have "NUL \<notin> set l" using set_fgets_all[OF l] assms(1) by blast
    then show "shown l = l" using assms(2) l by (intro shown_id) blast+
  qed
  then show ?thesis using fgets_all_concat[of BUFFERSIZE contents] by simp
qed

lemma cat_long_line:
  assumes "NUL \<notin> set l" and "LF \<notin> set l" and "MAX_STR_LEN \<le> length l" and "length l < BUFFERSIZE - 1"
  shows "concat (map shown (fgets_all BUFFERSIZE (l @ [LF]))) = take MAX_STR_LEN l"
proof -
  have tw: "takeWhile (\<lambda>c. c \<noteq> LF) (l @ [LF]) = l" using assms(2) by (induction l) auto
  have "fgets_all BUFFERSIZE (l @ [LF]) = [l @ [LF]]"
    using assms(4) by (subst fgets_all.simps) (simp add: fgets_def tw fgets_all.simps Let_def)
  moreover have "cstr (l @ [LF]) = l @ [LF]"
    using assms(1) by (intro cstr_id) auto
  ultimately show ?thesis using assms(3) by (simp add: shown_def)
qed

section \<open>Lemmas on wc\<close>

definition blanks :: string where
  "blanks = map char_of ([9, 10, 11, 12, 13, 32] :: nat list)"

lemma isspace_blanks: "isspace c \<longleftrightarrow> c \<in> set blanks"
proof -
  have "c = char_of n \<longleftrightarrow> (of_char c :: nat) = n" if "n < 256" for n :: nat
    using that by (metis char_of_char mod_less of_char_of)
  then have "c \<in> set blanks \<longleftrightarrow> (of_char c :: nat) \<in> {9, 10, 11, 12, 13, 32}"
    by (simp add: blanks_def)
  then show ?thesis by (auto simp: isspace_def Let_def)
qed

lemma LF_blank: "LF \<in> set blanks"
  using isspace_blanks[of LF] by (simp add: isspace_def)

text \<open>
  The word counter counts the runs of characters other than blanks; inside a run, the rest
  of it counts no more.
\<close>

fun words_from :: "bool \<Rightarrow> string \<Rightarrow> nat" where
  "words_from w [] = 0"
| "words_from w (c # s) =
     (if c \<in> set blanks then words_from False s else (if w then 0 else 1) + words_from True s)"

text \<open>
  As long as the character counter has room, neither of the others overflows, because they
  never exceed it; and it is the first to overflow.
\<close>

definition counters_ok :: "wc_state \<Rightarrow> bool" where
  "counters_ok st \<longleftrightarrow> word_count st \<le> char_count st \<and> line_count st \<le> char_count st \<and> 0 \<le> char_count st \<and> char_count st < 2 ^ 31"

lemma wc_char_room:
  assumes "counters_ok st" and "char_count st + 1 < 2 ^ 31"
  shows "\<exists>st'. wc_char c st = Some st' \<and> counters_ok st' \<and> char_count st' = char_count st + 1 \<and>
    line_count st' = line_count st + (if c = LF then 1 else 0) \<and>
    word_count st' = word_count st + (if c \<in> set blanks \<or> in_word st then 0 else 1) \<and>
    in_word st' = (c \<notin> set blanks)"
  using assms LF_blank by (auto simp: wc_char_def int_incr_def counters_ok_def isspace_blanks Let_def)

lemma wc_char_full: "char_count st + 1 = 2 ^ 31 \<Longrightarrow> wc_char c st = fault"
  by (simp add: wc_char_def int_incr_def)

lemma wc_char_counters: "counters_ok st \<Longrightarrow> wc_char c st = Some st' \<Longrightarrow> counters_ok st'"
  using wc_char_room[of st c] wc_char_full[of st c] by (fastforce simp: counters_ok_def)

lemma wc_fold:
  assumes "counters_ok st" and "char_count st + int (length s) < 2 ^ 31"
  shows "\<exists>st'. foldM wc_char s st = Some st' \<and> char_count st' = char_count st + int (length s) \<and>
    line_count st' = line_count st + int (count_list s LF) \<and>
    word_count st' = word_count st + int (words_from (in_word st) s)"
  using assms
proof (induction s arbitrary: st)
  case (Cons c s)
  then obtain u where u: "wc_char c st = Some u" "counters_ok u" "char_count u = char_count st + 1"
      "line_count u = line_count st + (if c = LF then 1 else 0)"
      "word_count u = word_count st + (if c \<in> set blanks \<or> in_word st then 0 else 1)"
      "in_word u = (c \<notin> set blanks)"
    using wc_char_room[of st c] by auto
  then obtain v where "foldM wc_char s u = Some v" "char_count v = char_count u + int (length s)"
      "line_count v = line_count u + int (count_list s LF)"
      "word_count v = word_count u + int (words_from (in_word u) s)"
    using Cons.IH[of u] Cons.prems by auto
  then show ?case using u by auto
qed simp

lemma wc_fold_overflow:
  assumes "counters_ok st" and "2 ^ 31 \<le> char_count st + int (length s)"
  shows "foldM wc_char s st = fault"
  using assms
proof (induction s arbitrary: st)
  case Nil
  then show ?case by (simp add: counters_ok_def)
next
  case (Cons c s)
  show ?case
  proof (cases "char_count st + 1 = 2 ^ 31")
    case True
    then show ?thesis by (simp add: wc_char_full)
  next
    case False
    then have "char_count st + 1 < 2 ^ 31" using Cons.prems(1) by (simp add: counters_ok_def)
    then obtain u where "wc_char c st = Some u" "counters_ok u" "char_count u = char_count st + 1"
      using wc_char_room[OF Cons.prems(1), of c] by auto
    then show ?thesis using Cons.IH[of u] Cons.prems(2) by simp
  qed
qed

lemma words_from_skip: "words_from True s = words_from False (dropWhile (\<lambda>c. c \<notin> set blanks) s)"
  by (induction s) auto

lemma words_from_tokens: "words_from False s = length (strtok_all blanks s)"
proof (induction s rule: strtok_all_induct[where ds = blanks])
  case (Token c s)
  then show ?case by (simp add: strtok_all_token words_from_skip)
qed auto

lemma wc_init_ok: "counters_ok wc_init"
  by (simp add: wc_init_def counters_ok_def)

lemma wc_read_fits:
  assumes "int (length s) < 2 ^ 31"
  shows "\<exists>st. wc_read s = Some st \<and> word_count st = int (length (strtok_all blanks s)) \<and>
    char_count st = int (length s) \<and> line_count st = int (count_list s LF)"
  using wc_fold[OF wc_init_ok, of s] assms by (auto simp: wc_read_def wc_init_def words_from_tokens)

lemma wc_read_overflow: "2 ^ 31 \<le> int (length s) \<Longrightarrow> wc_read s = fault"
  using wc_fold_overflow[OF wc_init_ok, of s] by (simp add: wc_read_def wc_init_def)

text \<open>The three lines of the report, none of which is cut.\<close>

lemma wc_line_shown:
  assumes "length w \<le> 16" and "0 \<le> n" and "n < 2 ^ 31"
  shows "stdout_of (display_message (snprintf BUFFERSIZE (w @ show_int n @ [LF]))) = w @ show_int n @ [LF]"
proof -
  have "length (show_int n) \<le> 11" using assms by (intro length_show_int) simp_all
  then have "length (w @ show_int n @ [LF]) \<le> 28" using assms(1) by simp
  then show ?thesis by (subst snprintf_fits) (simp_all add: display_message_def)
qed

lemma wc_report_shown:
  assumes "int (length s) < 2 ^ 31"
  shows "\<exists>st. wc_read s = Some st \<and> stdout_of (wc_report st) =
     ''word count '' @ show_int (int (length (strtok_all blanks s))) @ [LF] @
     ''character count '' @ show_int (int (length s)) @ [LF] @
     ''newline count '' @ show_int (int (count_list s LF)) @ [LF]"
proof -
  obtain st where st: "wc_read s = Some st" "word_count st = int (length (strtok_all blanks s))"
      "char_count st = int (length s)" "line_count st = int (count_list s LF)"
    using wc_read_fits[OF assms] by blast
  have "counters_ok st"
    using foldM_invariant[of wc_char s wc_init st counters_ok] st(1) wc_init_ok wc_char_counters
    by (auto simp: wc_read_def)
  then have "0 \<le> char_count st" "word_count st < 2 ^ 31" "line_count st < 2 ^ 31" "char_count st < 2 ^ 31"
    by (auto simp: counters_ok_def)
  then have "stdout_of (wc_report st) =
     ''word count '' @ show_int (word_count st) @ [LF] @
     ''character count '' @ show_int (char_count st) @ [LF] @
     ''newline count '' @ show_int (line_count st) @ [LF]"
    unfolding wc_report_def stdout_of_append using st(2-4) by (subst (1 2 3) wc_line_shown) simp_all
  then show ?thesis using st by auto
qed

end
