(* ===== verification/Client.thy ===== *)
theory Client
  imports Server Builtin_Files
begin

text \<open>
  The socket builtins of src/src/builtins.c: \<open>start-server\<close>, \<open>close-server\<close>, \<open>send\<close> and the
  interactive \<open>start-client\<close>.

  The standard input of \<open>start-client\<close> is the text that is still to come, up to its end.
  \<open>fgets\<close> takes a line or the first 1025 bytes of it; \<open>ungetc\<close> puts a byte back in front.
  The replies of select and read are the input of a step of the loop, the replies of write
  are in the state. A read error of standard input (as opposed to its end) is not modelled.
\<close>

section \<open>start-server and close-server\<close>

definition valid_port :: "int \<Rightarrow> bool" where
  "valid_port p \<longleftrightarrow> \<not> (p < 1024 \<or> p > 65535)"

text \<open>\<open>None\<close>: the call does not return (the child serves, or has exited).\<close>

definition bn_start_server ::
  "int \<Rightarrow> run_result \<Rightarrow> string list \<Rightarrow> server_globals \<Rightarrow> (int \<times> server_globals \<times> event list) option" where
  "bn_start_server fork_reply run tokens g =
     (if length tokens \<le> 1 then Some (-1, g, display_error ''ERROR: No port provided'' [])
      else
        let port = atoi (tokens ! 1) in
        if port < 1024 \<or> port > 65535 then Some (-1, g, display_error ''ERROR: Invalid port number'' [])
        else do {
          (r, g1) \<leftarrow> start_server fork_reply run g;
          Some (if r = -1 then (-1, g1, display_error ''ERROR: Failed to start server'' [])
                else (0, g1\<lparr>server_port := port, server_num := 1\<rparr>, []))
        })"

definition bn_close_server :: "(int \<Rightarrow> int \<Rightarrow> int) \<Rightarrow> server_globals \<Rightarrow> int \<times> server_globals \<times> event list" where
  "bn_close_server os_kill g = cleanup_server os_kill g"

section \<open>send\<close>

abbreviation MESSAGE_SIZE :: nat where "MESSAGE_SIZE \<equiv> MAX_USER_MSG + 2"

fun send_loop :: "bool \<Rightarrow> nat \<Rightarrow> string \<Rightarrow> string list \<Rightarrow> string checked" where
  "send_loop first left message [] = Some message"
| "send_loop first left message (t # ts) = do {
     m1 \<leftarrow> (if \<not> first \<and> left > 0 then strncat MESSAGE_SIZE message '' '' left else Some message);
     let left1 = (if \<not> first \<and> left > 0 then left - 1 else left);
     let append_len = (if length t < left1 then length t else left1);
     m2 \<leftarrow> (if left1 > 0 then strncat MESSAGE_SIZE m1 t append_len else Some m1);
     send_loop False (if left1 > 0 then left1 - append_len else left1) m2 ts
   }"

definition bn_send ::
  "net_calls \<Rightarrow> write_reply \<Rightarrow> string list \<Rightarrow> (int \<times> event list) checked" where
  "bn_send os reply tokens =
     (if length tokens \<le> 1 then Some (-1, display_error ''ERROR: No port provided'' [])
      else if length tokens \<le> 2 then Some (-1, display_error ''ERROR: No hostname provided'' [])
      else if length tokens \<le> 3 then Some (-1, display_error ''ERROR: No message provided'' [])
      else
        let port = atoi (tokens ! 1) in
        if port < 1024 \<or> port > 65535 then Some (-1, display_error ''ERROR: Invalid port number'' [])
        else
          let (sockfd, es) = connect_to_server os in
          if sockfd = -1 then Some (-1, es @ display_error ''ERROR: Failed to connect server.'' [])
          else do {
            message \<leftarrow> send_loop True MAX_USER_MSG [] (drop 3 tokens);
            require (length message + 2 \<le> MESSAGE_SIZE);
            Some (case reply of
                Write_Error e \<Rightarrow>
                  (-1, es @ display_error ''ERROR: Failed to send message'' [] @ [Close_Fd sockfd])
              | Wrote n \<Rightarrow>
                  (0, es @ [Send sockfd (take n (message @ [CR, LF])), Close_Fd sockfd]))
          })"

section \<open>start-client\<close>

record chat_client =
  sc_fd :: int
  sc_buf :: string
  sc_inbuf :: nat
  sc_stdin :: string                \<comment> \<open>what standard input still holds\<close>
  has_unread_data :: bool
  disconnect_client :: bool
  sc_writes :: "write_reply list"
  sc_trace :: "event list"

datatype client_result =
    Chatting chat_client
  | Client_Return int chat_client   \<comment> \<open>return to the shell, the SIGINT action restored\<close>
  | Client_Exit int chat_client     \<comment> \<open>exit of the shell process\<close>

definition say :: "event list \<Rightarrow> chat_client \<Rightarrow> chat_client" where
  "say es s = s\<lparr>sc_trace := sc_trace s @ es\<rparr>"

text \<open>The reply of select: interrupted by a signal, failed, or which of the two are ready.\<close>

datatype client_select =
    Interrupted
  | Select_Failed
  | Ready_Fds bool "read_reply option"  \<comment> \<open>standard input; the socket, with what read gives\<close>

text \<open>
  The line that is sent: the last byte of \<open>io_buf\<close>, a newline or the byte that is put back,
  is overwritten by the carriage return. The second component is what is put back.
\<close>

definition outgoing :: "string \<Rightarrow> (string \<times> string) checked" where
  "outgoing io_buf = do {
     require (length io_buf + 1 \<le> MESSAGE_SIZE);
     Some (butlast io_buf @ [CR, LF], if last io_buf = LF then [] else [last io_buf])
   }"

definition read_stdin :: "chat_client \<Rightarrow> client_result checked" where
  "read_stdin s0 =
     (let s = s0\<lparr>has_unread_data := False\<rparr> in
      case fgets MESSAGE_SIZE (sc_stdin s) of
        None \<Rightarrow> Some (Client_Return 0 (say (display_message [LF] @ [Close_Fd (sc_fd s)]) s))
      | Some (line, rest) \<Rightarrow>
          let io_buf = cstr line; s1 = s\<lparr>sc_stdin := rest\<rparr> in
          if io_buf = [] then Some (Chatting s1)
          else do {
            (out, back) \<leftarrow> outgoing io_buf;
            let (r, es, ws, e) = write_to_socket (sc_fd s1) out (sc_writes s1);
            let s2 = say es (s1\<lparr>sc_stdin := back @ rest, has_unread_data := back \<noteq> [], sc_writes := ws\<rparr>);
            Some (if r \<noteq> 0
                  then Client_Exit 1 (say (display_error (''ERROR: Failed to write to socket'' @ [LF]) []) s2)
                  else Chatting s2)
          })"

text \<open>A message of the server: the first space ends the name.\<close>

definition shown_message :: "string \<Rightarrow> string" where
  "shown_message msg =
     (case strchr msg (CHR '' '') of
        Some i \<Rightarrow> snprintf BUF_SIZE (take i msg @ '': '' @ drop (i + 1) msg @ [LF])
      | None \<Rightarrow> msg)"

definition read_server :: "read_reply \<Rightarrow> chat_client \<Rightarrow> client_result" where
  "read_server reply s =
     (let (result, buf, inbuf) = read_from_socket reply (sc_buf s) (sc_inbuf s);
          s1 = s\<lparr>sc_buf := buf, sc_inbuf := inbuf\<rparr> in
      if result = -1 then Client_Exit 1 (say (perror ''read'') s1)
      else if result = 1 then Client_Exit 1 s1
      else
        let (ms, buf', inbuf') = drain buf inbuf in
        Chatting (say (concat (map (\<lambda>m. display_message (shown_message (cstr m))) ms))
          (s1\<lparr>sc_buf := buf', sc_inbuf := inbuf'\<rparr>)))"

text \<open>
  One pass through the loop. \<open>sigint\<close>: control-C arrived before select returned. An
  interrupted select is only looked at when standard input is waited for; an empty line
  (\<open>continue\<close>) skips the socket.
\<close>

definition socket_phase :: "read_reply option \<Rightarrow> client_result \<Rightarrow> client_result" where
  "socket_phase reply r =
     (case r of
        Chatting s \<Rightarrow> (case reply of None \<Rightarrow> Chatting s | Some rd \<Rightarrow> read_server rd s)
      | _ \<Rightarrow> r)"

definition client_signal_handler :: "int \<Rightarrow> bool \<Rightarrow> bool" where
  "client_signal_handler sig flag = (if sig = 2 then True else flag)"

definition client_pass :: "bool \<Rightarrow> client_select \<Rightarrow> chat_client \<Rightarrow> client_result checked" where
  "client_pass sigint sel s0 =
     (if disconnect_client s0 then Some (Client_Exit 0 (say [Close_Fd (sc_fd s0)] s0))
      else
        let s = (if sigint then s0\<lparr>disconnect_client := client_signal_handler 2 (disconnect_client s0)\<rparr> else s0);
            failed = say (display_error ''ERROR: Failed to Select'' [] @ [Close_Fd (sc_fd s)]) s in
        case sel of
          Interrupted \<Rightarrow>
            Some (if has_unread_data s then Client_Exit 1 failed
                  else if disconnect_client s
                    then Client_Return 0 (say (display_message [LF] @ [Close_Fd (sc_fd s)]) s)
                  else Chatting s)
        | Select_Failed \<Rightarrow> Some (Client_Exit 1 failed)
        | Ready_Fds stdin_ready sock \<Rightarrow>
            if has_unread_data s \<or> stdin_ready then do {
              r \<leftarrow> read_stdin s;
              Some (case fgets MESSAGE_SIZE (sc_stdin s) of
                  Some (line, rest) \<Rightarrow> if cstr line = [] then r else socket_phase sock r
                | None \<Rightarrow> r)
            } else Some (socket_phase sock (Chatting s)))"

fun client_loop :: "(bool \<times> client_select) list \<Rightarrow> chat_client \<Rightarrow> client_result checked" where
  "client_loop [] s = Some (Chatting s)"
| "client_loop ((sigint, sel) # ins) s = do {
     r \<leftarrow> client_pass sigint sel s;
     case r of Chatting s1 \<Rightarrow> client_loop ins s1 | other \<Rightarrow> Some other
   }"

definition client_start :: "int \<Rightarrow> string \<Rightarrow> write_reply list \<Rightarrow> event list \<Rightarrow> chat_client" where
  "client_start fd input ws es = \<lparr>sc_fd = fd, sc_buf = replicate BUF_SIZE NUL, sc_inbuf = 0, sc_stdin = input,
     has_unread_data = False, disconnect_client = False, sc_writes = ws, sc_trace = es\<rparr>"

text \<open>
  The result of the builtin: refused before the loop, with the events and whether the
  SIGINT action of the client is left installed, or what the loop gives. The global
  \<open>disconnect_client\<close> is cleared first, so that it is False in \<open>client_start\<close>.
\<close>

datatype start_result =
    Refused int "event list" bool
  | Looped client_result

definition bn_start_client ::
  "net_calls \<Rightarrow> string \<Rightarrow> write_reply list \<Rightarrow> (bool \<times> client_select) list \<Rightarrow> string list \<Rightarrow> start_result checked" where
  "bn_start_client os input ws ins tokens =
     (if length tokens \<le> 1 then Some (Refused (-1) (display_error ''ERROR: No port provided'' []) False)
      else if length tokens \<le> 2 then Some (Refused (-1) (display_error ''ERROR: No hostname provided'' []) False)
      else
        let port = atoi (tokens ! 1) in
        if port < 1024 \<or> port > 65535
        then Some (Refused (-1) (display_error ''ERROR: Invalid port number'' []) False)
        else
          let (sockfd, es) = connect_to_server os in
          if sockfd = -1
          then Some (Refused (-1) (es @ display_error ''ERROR: Failed to connect server.'' []) True)
          else do {
            r \<leftarrow> client_loop ins (client_start sockfd input ws es);
            Some (Looped r)
          })"

end
