(* ===== verification/Client_Correct.thy ===== *)
theory Client_Correct
  imports Client Server_Correct
begin

text \<open>
  The client side of the chat: what \<open>send\<close> and \<open>start-client\<close> put on the wire for a line of
  input, what they show for a message of the server, and how the two sides fit together.
\<close>

section \<open>send\<close>

lemma append_token:
  assumes "length message + left = MAX_USER_MSG"
  shows "(if left > 0 then strncat MESSAGE_SIZE message t (if length t < left then length t else left)
      else Some message) = Some (message @ take left t)"
    and "(if left > 0 then left - (if length t < left then length t else left) else left) = left - length t"
  using assms by (auto simp: strncat_def)

lemma send_loop_more:
  "length message + left = MAX_USER_MSG \<Longrightarrow>
     send_loop False left message ts = Some (message @ take left (concat (map (\<lambda>t. '' '' @ t) ts)))"
proof (induction ts arbitrary: left message)
  case (Cons t ts)
  show ?case
  proof (cases left)
    case 0
    then show ?thesis using Cons by simp
  next
    case (Suc k)
    have l: "length (message @ '' '') + k = MAX_USER_MSG" using Cons.prems Suc by simp
    have "length ((message @ '' '') @ take k t) + (k - length t) = MAX_USER_MSG" using l by auto
    note ih = Cons.IH[OF this]
    have "strncat MESSAGE_SIZE message '' '' left = Some (message @ '' '')"
      using Cons.prems Suc by (simp add: strncat_def)
    then have "send_loop False left message (t # ts) = send_loop False (k - length t) ((message @ '' '') @ take k t) ts"
      using Suc append_token[OF l, of t] by (simp add: Let_def del: append_assoc)
    then show ?thesis using ih Suc by simp
  qed
qed simp

lemma send_loop_eq: "send_loop True MAX_USER_MSG [] ts = Some (take MAX_USER_MSG (join '' '' ts))"
proof (cases ts)
  case (Cons t us)
  have j: "join '' '' (t # us) = t @ concat (map (\<lambda>t. '' '' @ t) us)"
    by (induction us arbitrary: t) auto
  have l: "length ([]::string) + MAX_USER_MSG = MAX_USER_MSG" by simp
  have "send_loop True MAX_USER_MSG [] (t # us) = send_loop False (MAX_USER_MSG - length t) (take MAX_USER_MSG t) us"
    using append_token[OF l, of t] by (simp add: Let_def)
  also have "\<dots> = Some (take MAX_USER_MSG t @ take (MAX_USER_MSG - length t) (concat (map (\<lambda>t. '' '' @ t) us)))"
    by (rule send_loop_more) auto
  finally show ?thesis using Cons j by simp
qed simp

text \<open>The builtin sends the words after the host name, joined by blanks and cut to 1024 bytes.\<close>

lemma bn_send_sends:
  assumes "3 < length tokens" and "valid_port (atoi (tokens ! 1))"
    and "connect_to_server os = (fd, [])" and "fd \<noteq> -1" and "n \<ge> BUF_SIZE"
  shows "bn_send os (Wrote n) tokens =
    Some (0, [Send fd (take MAX_USER_MSG (join '' '' (drop 3 tokens)) @ [CR, LF]), Close_Fd fd])"
  using assms by (simp add: bn_send_def send_loop_eq valid_port_def)

section \<open>start-client: from the keyboard to the wire\<close>

text \<open>A line as the client cuts it into messages of at most 1024 bytes.\<close>

function line_messages :: "string \<Rightarrow> string list" where
  "line_messages l =
     (if length l \<le> MAX_USER_MSG then [l]
      else take MAX_USER_MSG l # line_messages (drop MAX_USER_MSG l))"
  by pat_completeness auto
termination
  by (relation "measure length") auto

declare line_messages.simps [simp del]

lemma concat_line_messages: "concat (line_messages l) = l"
proof (induction l rule: line_messages.induct)
  case (1 l)
  then show ?case by (subst line_messages.simps) simp
qed

lemma line_messages_short: "m \<in> set (line_messages l) \<Longrightarrow> length m \<le> MAX_USER_MSG"
proof (induction l rule: line_messages.induct)
  case (1 l)
  then show ?case by (subst (asm) line_messages.simps) (auto split: if_splits)
qed

lemma line_messages_subset: "m \<in> set (line_messages l) \<Longrightarrow> set m \<subseteq> set l"
  using concat_line_messages[of l] by (metis UN_upper set_concat)

text \<open>One pass when standard input holds a line.\<close>

lemma fgets_line:
  assumes "LF \<notin> set l" and "length l \<le> MAX_USER_MSG"
  shows "fgets MESSAGE_SIZE (l @ LF # rest) = Some (l @ [LF], rest)"
proof -
  have "takeWhile (\<lambda>c. c \<noteq> LF) (l @ LF # rest) = l" using assms(1) by (induction l) auto
  then show ?thesis using assms(2) by (simp add: fgets_def Let_def min_def)
qed

lemma fgets_long:
  assumes "LF \<notin> set l" and "MAX_USER_MSG < length l"
  shows "fgets MESSAGE_SIZE (l @ rest) = Some (take (MAX_USER_MSG + 1) l, drop (MAX_USER_MSG + 1) l @ rest)"
proof -
  have "length l \<le> length (takeWhile (\<lambda>c. c \<noteq> LF) (l @ rest))" using assms(1) by (induction l) auto
  then show ?thesis using assms by (auto simp: fgets_def Let_def min_def)
qed

text \<open>The state after sending the message \<open>m\<close>.\<close>

definition sent :: "string \<Rightarrow> string \<Rightarrow> bool \<Rightarrow> chat_client \<Rightarrow> chat_client" where
  "sent m rest unread s =
     s\<lparr>sc_stdin := rest, has_unread_data := unread, sc_trace := sc_trace s @ [Send (sc_fd s) (m @ [CR, LF])]\<rparr>"

abbreviation typing :: "chat_client \<Rightarrow> bool" where
  "typing s \<equiv> sc_writes s = [] \<and> \<not> disconnect_client s"

abbreviation type_pass :: "bool \<times> client_select" where
  "type_pass \<equiv> (False, Ready_Fds True None)"

lemma write_all: "bs \<noteq> [] \<Longrightarrow> write_to_socket fd bs [] = (0, [Send fd bs], [], None)"
  by (cases bs) auto

lemma read_stdin_line:
  assumes "sc_writes s = []" and "sc_stdin s = l @ LF # rest" and "LF \<notin> set l" and "NUL \<notin> set l"
    and "length l \<le> MAX_USER_MSG"
  shows "read_stdin s = Some (Chatting (sent l rest False s))"
    and "cstr (fst (the (fgets MESSAGE_SIZE (sc_stdin s)))) \<noteq> []"
proof -
  have f: "fgets MESSAGE_SIZE (sc_stdin s) = Some (l @ [LF], rest)"
    using fgets_line[OF assms(3,5)] assms(2) by simp
  have c: "cstr (l @ [LF]) = l @ [LF]" using assms(4) by (intro cstr_id) simp
  show "read_stdin s = Some (Chatting (sent l rest False s))" "cstr (fst (the (fgets MESSAGE_SIZE (sc_stdin s)))) \<noteq> []"
    using f c assms(1,5) by (simp_all add: read_stdin_def outgoing_def write_all say_def sent_def)
qed

lemma read_stdin_chunk:
  assumes "sc_writes s = []" and "sc_stdin s = l @ rest" and "LF \<notin> set l" and "NUL \<notin> set l"
    and "MAX_USER_MSG < length l"
  shows "read_stdin s = Some (Chatting (sent (take MAX_USER_MSG l) (drop MAX_USER_MSG l @ rest) True s))"
    and "cstr (fst (the (fgets MESSAGE_SIZE (sc_stdin s)))) \<noteq> []"
proof -
  let ?k = "MAX_USER_MSG"
  have f: "fgets MESSAGE_SIZE (sc_stdin s) = Some (take (?k + 1) l, drop (?k + 1) l @ rest)"
    using fgets_long[OF assms(3,5)] assms(2) by simp
  have e: "take (?k + 1) l = take ?k l @ [l ! ?k]" using take_Suc_conv_app_nth[of ?k l] assms(5) by simp
  have d: "drop ?k l = l ! ?k # drop (?k + 1) l" using Cons_nth_drop_Suc[of ?k l] assms(5) by simp
  have n: "l ! ?k \<noteq> LF" using assms(3,5) by (metis nth_mem)
  have c: "cstr (take ?k l @ [l ! ?k]) = take ?k l @ [l ! ?k]"
    unfolding e[symmetric] using assms(4) by (intro cstr_id) (meson in_set_takeD)
  show "read_stdin s = Some (Chatting (sent (take ?k l) (drop ?k l @ rest) True s))"
    "cstr (fst (the (fgets MESSAGE_SIZE (sc_stdin s)))) \<noteq> []"
    using f[unfolded e] c assms(1) n
    by (simp_all add: read_stdin_def outgoing_def write_all say_def sent_def d)
qed

text \<open>A pass in which standard input is ready and the socket is not.\<close>

lemma pass_typed:
  assumes "\<not> disconnect_client s" and "read_stdin s = Some (Chatting s')"
    and "cstr (fst (the (fgets MESSAGE_SIZE (sc_stdin s)))) \<noteq> []"
  shows "client_pass False (Ready_Fds True None) s = Some (Chatting s')"
proof -
  have d: "s\<lparr>disconnect_client := False\<rparr> = s" using assms(1) by simp
  obtain line rest where f: "fgets MESSAGE_SIZE (sc_stdin s) = Some (line, rest)"
    using assms(2) by (cases "fgets MESSAGE_SIZE (sc_stdin s)") (auto simp: read_stdin_def Let_def)
  then show ?thesis using assms by (simp add: client_pass_def d socket_phase_def)
qed

lemma pass_line:
  assumes "typing s" and "sc_stdin s = l @ LF # rest" and "LF \<notin> set l" and "NUL \<notin> set l"
    and "length l \<le> MAX_USER_MSG"
  shows "client_pass False (Ready_Fds True None) s = Some (Chatting (sent l rest False s))"
  using assms read_stdin_line[of s l rest] by (intro pass_typed) simp_all

lemma pass_chunk:
  assumes "typing s" and "sc_stdin s = l @ rest" and "LF \<notin> set l" and "NUL \<notin> set l"
    and "MAX_USER_MSG < length l"
  shows "client_pass False (Ready_Fds True None) s =
    Some (Chatting (sent (take MAX_USER_MSG l) (drop MAX_USER_MSG l @ rest) True s))"
  using assms read_stdin_chunk[of s l rest] by (intro pass_typed) simp_all

lemma client_loop_append:
  "client_loop (xs @ ys) s = do {
     r \<leftarrow> client_loop xs s;
     case r of Chatting s1 \<Rightarrow> client_loop ys s1 | other \<Rightarrow> Some other }"
  by (induction xs s rule: client_loop.induct) (auto split: client_result.splits Option.bind_splits)

text \<open>A typed line becomes its messages, in as many passes.\<close>

lemma type_line:
  "typing s \<Longrightarrow> sc_stdin s = l @ LF # rest \<Longrightarrow> LF \<notin> set l \<Longrightarrow> NUL \<notin> set l \<Longrightarrow>
   \<exists>s'. client_loop (replicate (length (line_messages l)) type_pass) s = Some (Chatting s') \<and>
     typing s' \<and> sc_stdin s' = rest \<and> \<not> has_unread_data s' \<and> sc_fd s' = sc_fd s \<and>
     sc_trace s' = sc_trace s @ map (\<lambda>m. Send (sc_fd s) (m @ [CR, LF])) (line_messages l)"
proof (induction l arbitrary: s rule: line_messages.induct)
  case (1 l)
  show ?case
  proof (cases "length l \<le> MAX_USER_MSG")
    case True
    have ms: "line_messages l = [l]" using True by (subst line_messages.simps) simp
    show ?thesis using "1.prems" pass_line[OF "1.prems" True]
      by (intro exI[of _ "sent l rest False s"]) (simp add: ms sent_def)
  next
    case False
    let ?d = "drop MAX_USER_MSG l"
    let ?s1 = "sent (take MAX_USER_MSG l) (?d @ LF # rest) True s"
    have ms: "line_messages l = take MAX_USER_MSG l # line_messages ?d"
      using False by (subst line_messages.simps) simp
    have p: "client_pass False (Ready_Fds True None) s = Some (Chatting ?s1)"
      using pass_chunk[OF "1.prems"(1-4)] False by simp
    obtain s' where s': "client_loop (replicate (length (line_messages ?d)) type_pass) ?s1 = Some (Chatting s')"
       "typing s' \<and> sc_stdin s' = rest \<and> \<not> has_unread_data s' \<and> sc_fd s' = sc_fd ?s1 \<and>
        sc_trace s' = sc_trace ?s1 @ map (\<lambda>m. Send (sc_fd ?s1) (m @ [CR, LF])) (line_messages ?d)"
      using "1.IH"[OF False, of ?s1] "1.prems" by (auto simp: sent_def dest: in_set_dropD)
    show ?thesis using p s' by (intro exI[of _ s']) (simp add: ms sent_def)
  qed
qed

text \<open>
  At the end of an input whose last line has no newline the loop does not stop: the last
  byte is put back, read again and sent as an empty message, for ever.
\<close>

lemma pass_last_byte:
  assumes "typing s" and "sc_stdin s = [c]" and "c \<noteq> LF" and "c \<noteq> NUL" and "has_unread_data s \<or> rdy"
  shows "client_pass False (Ready_Fds rdy None) s = Some (Chatting (sent [] [c] True s))"
proof -
  have f: "fgets MESSAGE_SIZE (sc_stdin s) = Some ([c], [])" using assms(2,3) by (simp add: fgets_def)
  have c: "cstr [c] = [c]" using assms(4) by (simp add: cstr_def)
  show ?thesis using f c assms
    by (auto simp: client_pass_def read_stdin_def outgoing_def write_all socket_phase_def say_def sent_def)
qed

lemma client_livelock:
  "typing s \<Longrightarrow> sc_stdin s = [c] \<Longrightarrow> c \<noteq> LF \<Longrightarrow> c \<noteq> NUL \<Longrightarrow> has_unread_data s \<Longrightarrow>
   client_loop (replicate n (False, Ready_Fds False None)) s =
     Some (Chatting (s\<lparr>sc_trace := sc_trace s @ replicate n (Send (sc_fd s) [CR, LF])\<rparr>))"
proof (induction n arbitrary: s)
  case (Suc n)
  have "sent [] [c] True s = s\<lparr>sc_trace := sc_trace s @ [Send (sc_fd s) [CR, LF]]\<rparr>"
    using Suc.prems by (simp add: sent_def)
  then show ?case using Suc pass_last_byte[of s c False] by simp
qed simp

section \<open>start-client: from the wire to the screen\<close>

definition client_ok :: "chat_client \<Rightarrow> bool" where
  "client_ok s \<longleftrightarrow> buffer_ok (sc_buf s, sc_inbuf s)"

abbreviation client_view :: "chat_client \<Rightarrow> string" where
  "client_view s \<equiv> buffer_view (sc_buf s, sc_inbuf s)"

lemma drain_messages:
  assumes "buffer_ok (buf, inbuf)"
  shows "fst (drain buf inbuf) = fst (messages (buffer_view (buf, inbuf))) \<and>
    buffer_view (snd (drain buf inbuf)) = snd (messages (buffer_view (buf, inbuf))) \<and> buffer_ok (snd (drain buf inbuf))"
  using sock.drains_messages[OF drain_drains assms] by simp

text \<open>What arrives is shown message by message, and the rest is kept for the next read.\<close>

lemma read_server_spec:
  assumes "client_ok s" and "bs \<noteq> []" and "length bs \<le> BUF_SIZE - sc_inbuf s - 1"
  shows "\<exists>s'. read_server (Read_Bytes bs) s = Chatting s' \<and> client_ok s' \<and>
    client_view s' = snd (messages (client_view s @ bs)) \<and>
    sc_trace s' = sc_trace s @ map (\<lambda>m. Out (take MAX_STR_LEN (shown_message (cstr m)))) (fst (messages (client_view s @ bs)))"
proof -
  have b: "buffer_ok (sc_buf s, sc_inbuf s)" using assms(1) by (simp add: client_ok_def)
  have tk: "take (BUF_SIZE - sc_inbuf s - 1) bs = bs" using assms(3) by simp
  obtain k buf inbuf where rd: "read_from_socket (Read_Bytes bs) (sc_buf s) (sc_inbuf s) = (k, buf, inbuf)"
    by (metis prod.exhaust)
  note c = read_from_socket_cases[OF b rd, unfolded read_reply.case Let_def tk]
  have v: "buffer_view (buf, inbuf) = client_view s @ bs"
    using c unfolding buffer_view_def fst_conv snd_conv by blast
  have k: "k \<noteq> -1" "k \<noteq> 1" using c assms(2) by auto
  obtain ms buf' inbuf' where d: "drain buf inbuf = (ms, buf', inbuf')" by (metis prod.exhaust)
  have dm: "ms = fst (messages (client_view s @ bs))" "buffer_view (buf', inbuf') = snd (messages (client_view s @ bs))"
    "buffer_ok (buf', inbuf')" using drain_messages[of buf inbuf] c d v by auto
  have o: "concat (map (\<lambda>m. display_message (shown_message (cstr m))) ms) =
      map (\<lambda>m. Out (take MAX_STR_LEN (shown_message (cstr m)))) ms"
    by (induction ms) (simp_all add: display_message_def)
  show ?thesis using rd k d dm o
    by (simp add: read_server_def client_ok_def say_def)
qed

text \<open>A line of the server names its sender before the colon.\<close>

text \<open>The message as it appears on the terminal: its first word and the rest, around a colon.\<close>

lemma shown_message_text:
  "take MAX_STR_LEN (shown_message t) = take MAX_STR_LEN (if CHR '' '' \<in> set t
     then takeWhile (\<lambda>c. c \<noteq> CHR '' '') t @ '': '' @ tl (dropWhile (\<lambda>c. c \<noteq> CHR '' '') t) @ [LF] else t)"
proof -
  have "drop (length (takeWhile (\<lambda>c. c \<noteq> CHR '' '') t) + 1) t = tl (dropWhile (\<lambda>c. c \<noteq> CHR '' '') t)"
    by (simp add: dropWhile_eq_drop drop_Suc tl_drop)
  moreover have "take (length (takeWhile (\<lambda>c. c \<noteq> CHR '' '') t)) t = takeWhile (\<lambda>c. c \<noteq> CHR '' '') t"
    by (simp add: takeWhile_eq_take[symmetric])
  ultimately show ?thesis by (simp add: shown_message_def strchr_def snprintf_def min_def del: take_append)
qed

lemma shown_chat_line:
  assumes "CHR '' '' \<notin> set name" and "length name < MAX_NAME"
  shows "take MAX_STR_LEN (shown_message (chat_line name m)) =
    take MAX_STR_LEN (name @ '': '' @ m @ [LF])"
proof -
  have t: "takeWhile (\<lambda>x. x \<noteq> CHR '' '') (name @ CHR '' '' # take MAX_USER_MSG m) = name"
    using assms(1) by (induction name) auto
  have s: "strchr (chat_line name m) (CHR '' '') = Some (length name)"
    using t by (simp add: strchr_def chat_line_def)
  have "shown_message (chat_line name m) = take 1128 (name @ '': '' @ take MAX_USER_MSG m @ [LF])"
    using s by (simp add: shown_message_def snprintf_def chat_line_def)
  then have "take MAX_STR_LEN (shown_message (chat_line name m)) =
      take MAX_STR_LEN (name @ '': '' @ take MAX_USER_MSG m @ [LF])"
    by (simp add: min_def del: take_append)
  also have "\<dots> = take MAX_STR_LEN (name @ '': '' @ m @ [LF])"
  proof (cases "length m \<le> MAX_USER_MSG")
    case False
    have "take k (take MAX_USER_MSG m @ [LF]) = take k (m @ [LF])" if "k \<le> MAX_STR_LEN" for k
      using False that by simp
    then have "take MAX_STR_LEN ((name @ '': '') @ take MAX_USER_MSG m @ [LF]) =
        take MAX_STR_LEN ((name @ '': '') @ m @ [LF])"
      unfolding take_append[of _ "name @ '': ''"] by (simp only: diff_le_self)
    then show ?thesis by (simp only: append_assoc)
  qed simp
  finally show ?thesis .
qed

section \<open>From the client to the server\<close>

lemma no_LF_no_crlf: "LF \<notin> set m \<Longrightarrow> no_crlf m"
proof -
  have "LF \<notin> set s \<Longrightarrow> split_crlf s = None" for s
    by (induction s rule: split_crlf.induct) auto
  then show "LF \<notin> set m \<Longrightarrow> no_crlf m" by (simp add: no_crlf_def)
qed

lemma sent_to_lines: "sent_to fd (map (\<lambda>m. Send fd (m @ [CR, LF])) ms) = concat (map (\<lambda>m. m @ [CR, LF]) ms)"
  by (induction ms) auto

text \<open>The server finds the messages of the line in the bytes that the client sent for it.\<close>

lemma line_received:
  assumes "LF \<notin> set l"
  shows "messages (sent_to fd (map (\<lambda>m. Send fd (m @ [CR, LF])) (line_messages l))) = (line_messages l, [])"
proof -
  have "\<forall>m\<in>set (line_messages l). no_crlf m"
    using assms line_messages_subset no_LF_no_crlf by blast
  then show ?thesis using messages_encode[of "line_messages l" "[]"] by (simp add: sent_to_lines)
qed

end
