(* ===== verification/Client_Passes.thy ===== *)
theory Client_Passes
  imports Client_Correct
begin

text \<open>
  A pass through the loop of \<open>start-client\<close>, whatever is ready: which of the messages the user
  typed it puts on the wire, which bytes it takes from the socket and what it shows. The
  writes are complete.
\<close>

section \<open>What is typed\<close>

definition encode :: "string list \<Rightarrow> string" where
  "encode ms = concat (map (\<lambda>m. m @ [CR, LF]) ms)"

definition sendable :: "string \<Rightarrow> bool" where
  "sendable m \<longleftrightarrow> LF \<notin> set m \<and> length m \<le> MAX_USER_MSG"

lemma encode_simps [simp]: "encode [] = []" "encode (ms @ ns) = encode ms @ encode ns"
  by (simp_all add: encode_def)

lemma messages_of_encode: "\<forall>m\<in>set ms. no_crlf m \<Longrightarrow> messages (encode ms) = (ms, [])"
  using messages_encode[of ms "[]"] by (simp add: encode_def)

lemma sendable_no_crlf: "sendable m \<Longrightarrow> no_crlf m"
  by (simp add: sendable_def no_LF_no_crlf)

text \<open>Lines, each closed by a newline, without NUL; and the messages they make.\<close>

definition text_input :: "string \<Rightarrow> bool" where
  "text_input s \<longleftrightarrow> NUL \<notin> set s \<and> (s = [] \<or> last s = LF)"

function typed_messages :: "string \<Rightarrow> string list" where
  "typed_messages s =
     (let l = takeWhile (\<lambda>c. c \<noteq> LF) s in
      if LF \<in> set s then line_messages l @ typed_messages (drop (Suc (length l)) s) else [])"
  by pat_completeness auto
termination
  by (relation "measure length") (auto dest: length_pos_if_in_set)

declare typed_messages.simps [simp del]

lemma typed_messages_Nil [simp]: "typed_messages [] = []"
  by (simp add: typed_messages.simps)

lemma typed_messages_line: "LF \<notin> set l \<Longrightarrow> typed_messages (l @ LF # r) = line_messages l @ typed_messages r"
proof -
  assume "LF \<notin> set l"
  then have "takeWhile (\<lambda>c. c \<noteq> LF) (l @ LF # r) = l" by (induction l) auto
  then show ?thesis by (subst typed_messages.simps) (simp add: Let_def)
qed

lemma text_input_cases:
  assumes "text_input s" and "s \<noteq> []"
  obtains l r where "s = l @ LF # r" "LF \<notin> set l" "NUL \<notin> set l" "text_input r"
proof -
  have "LF \<in> set s" using assms by (metis last_in_set text_input_def)
  then obtain l r where s: "s = l @ LF # r" "LF \<notin> set l" by (meson split_list_first)
  moreover have "text_input r" using assms(1) s by (cases "r = []") (auto simp: text_input_def)
  moreover have "NUL \<notin> set l" using assms(1) s by (simp add: text_input_def)
  ultimately show thesis using that by blast
qed

lemma typed_messages_no_nul: "text_input s \<Longrightarrow> m \<in> set (typed_messages s) \<Longrightarrow> NUL \<notin> set m"
proof (induction "length s" arbitrary: s rule: less_induct)
  case less
  show ?case
  proof (cases "s = []")
    case True
    then show ?thesis using less.prems by simp
  next
    case False
    then obtain l r where s: "s = l @ LF # r" "LF \<notin> set l" "NUL \<notin> set l" "text_input r"
      using text_input_cases less.prems(1) by blast
    then have "m \<in> set (line_messages l) \<or> m \<in> set (typed_messages r)"
      using less.prems(2) by (simp add: typed_messages_line)
    then show ?thesis using less.hyps[of r] s line_messages_subset by auto
  qed
qed

definition typed_ok :: "string \<Rightarrow> string \<Rightarrow> string list \<Rightarrow> bool" where
  "typed_ok s s' ms \<longleftrightarrow> (text_input s \<longrightarrow> text_input s' \<and> typed_messages s = ms @ typed_messages s')"

lemma typed_ok_refl: "typed_ok s s []"
  by (simp add: typed_ok_def)

lemma typed_ok_trans: "typed_ok s s' ms \<Longrightarrow> typed_ok s' s'' ns \<Longrightarrow> typed_ok s s'' (ms @ ns)"
  by (simp add: typed_ok_def)

section \<open>Standard input\<close>

lemma fgets_props: "fgets MESSAGE_SIZE s = Some (l, r) \<Longrightarrow> length l \<le> MAX_USER_MSG + 1 \<and> LF \<notin> set (butlast l)"
proof -
  assume f: "fgets MESSAGE_SIZE s = Some (l, r)"
  let ?t = "takeWhile (\<lambda>c. c \<noteq> LF) s"
  obtain k where k: "l = take k s" "k \<le> MAX_USER_MSG + 1" "k \<le> Suc (length ?t)"
    using f by (auto simp: fgets_def Let_def split: if_splits)
  have "butlast l = take (length l - 1) l" by (simp add: butlast_conv_take)
  also have "\<dots> = take (min (length l - 1) k) s" unfolding k(1) take_take by simp
  finally have "butlast l = take (min (length l - 1) k) s" .
  moreover have "min (length l - 1) k \<le> length ?t" using k(1,3) by auto
  moreover have "take n s = take n ?t" if "n \<le> length ?t" for n
    using that by (metis take_append takeWhile_dropWhile_id diff_is_0_eq take0 append_Nil2)
  ultimately have "set (butlast l) \<subseteq> set ?t" by (metis set_take_subset)
  then have "LF \<notin> set (butlast l)" by (auto dest: set_takeWhileD)
  then show ?thesis using k(1,2) by simp
qed

text \<open>Input that is text is sent line by line.\<close>

lemma read_stdin_typed:
  assumes "text_input (sc_stdin c)" and "sc_writes c = []" and "read_stdin c = Some (Chatting c')"
  shows "\<exists>m. sc_trace c' = sc_trace c @ [Send (sc_fd c) (m @ [CR, LF])] \<and>
    text_input (sc_stdin c') \<and> typed_messages (sc_stdin c) = m # typed_messages (sc_stdin c')"
proof -
  have "sc_stdin c \<noteq> []" using assms(3) by (auto simp: read_stdin_def fgets_def Let_def)
  then obtain l r where s: "sc_stdin c = l @ LF # r" "LF \<notin> set l" "NUL \<notin> set l" "text_input r"
    using text_input_cases assms(1) by blast
  show ?thesis
  proof (cases "length l \<le> MAX_USER_MSG")
    case True
    have "c' = sent l r False c" using read_stdin_line(1)[OF assms(2) s(1-3) True] assms(3) by simp
    moreover have "line_messages l = [l]" using True by (subst line_messages.simps) simp
    ultimately show ?thesis using s by (simp add: sent_def typed_messages_line)
  next
    case False
    let ?m = "take MAX_USER_MSG l" and ?d = "drop MAX_USER_MSG l"
    have "c' = sent ?m (?d @ LF # r) True c" using read_stdin_chunk(1)[OF assms(2) s(1-3)] False assms(3) by simp
    moreover have "line_messages l = ?m # line_messages ?d" using False by (subst line_messages.simps) simp
    moreover have "text_input (?d @ LF # r)" using s(3,4) by (auto simp: text_input_def dest: in_set_dropD)
    moreover have "LF \<notin> set ?d" using s(2) by (auto dest: in_set_dropD)
    ultimately show ?thesis using s by (simp add: sent_def typed_messages_line)
  qed
qed

text \<open>One read of standard input, whatever the input.\<close>

definition sends :: "chat_client \<Rightarrow> chat_client \<Rightarrow> event list \<Rightarrow> string list \<Rightarrow> bool" where
  "sends c c' es ms \<longleftrightarrow> sent_to (sc_fd c) es = encode ms \<and> (\<forall>m\<in>set ms. sendable m) \<and>
     typed_ok (sc_stdin c) (sc_stdin c') ms"

lemma read_stdin_effect:
  assumes "read_stdin c = Some (Chatting c')" and "sc_writes c = []"
  shows "sc_buf c' = sc_buf c \<and> sc_inbuf c' = sc_inbuf c \<and> sc_fd c' = sc_fd c \<and> sc_writes c' = [] \<and>
    disconnect_client c' = disconnect_client c \<and> (has_unread_data c' \<longrightarrow> sc_stdin c' \<noteq> []) \<and>
    (\<exists>es ms. sc_trace c' = sc_trace c @ es \<and> stdout_of es = [] \<and> sends c c' es ms)"
proof (cases "fgets MESSAGE_SIZE (sc_stdin c)")
  case None
  then show ?thesis using assms(1) by (simp add: read_stdin_def Let_def)
next
  case (Some x)
  obtain line rest where x: "x = (line, rest)" by (cases x)
  have f: "fgets MESSAGE_SIZE (sc_stdin c) = Some (line, rest)" using Some x by simp
  note ty = read_stdin_typed[OF _ assms(2,1)]
  show ?thesis
  proof (cases "cstr line = []")
    case True
    then have c: "c' = c\<lparr>has_unread_data := False, sc_stdin := rest\<rparr>" using assms(1) f by (simp add: read_stdin_def)
    then have "\<not> text_input (sc_stdin c)" using ty by auto
    then show ?thesis using assms(2) c by (intro conjI exI[of _ "[]"]) (simp_all add: sends_def typed_ok_def)
  next
    case False
    have le: "length (cstr line) \<le> MAX_USER_MSG + 1" "LF \<notin> set (butlast line)"
      using fgets_props[OF f] length_cstr_le[of line] by auto
    let ?m = "butlast (cstr line)"
    let ?es = "[Send (sc_fd c) (?m @ [CR, LF])]"
    have w: "write_to_socket (sc_fd c) (?m @ [CR, LF]) [] = (0, ?es, [], None)" by (rule write_all) simp
    have k: "sc_buf c' = sc_buf c \<and> sc_inbuf c' = sc_inbuf c \<and> sc_fd c' = sc_fd c \<and> sc_writes c' = [] \<and>
       disconnect_client c' = disconnect_client c \<and> (has_unread_data c' \<longrightarrow> sc_stdin c' \<noteq> []) \<and> sc_trace c' = sc_trace c @ ?es"
      using assms f False le(1) w by (auto simp: read_stdin_def outgoing_def say_def Let_def)
    have "set ?m \<subseteq> set (butlast line)"
    proof -
      obtain z where "line = cstr line @ z" unfolding cstr_def by (metis takeWhile_dropWhile_id)
      then show ?thesis by (metis butlast_append append.right_neutral in_set_butlastD set_append sup.cobounded1 subsetI UnI1)
    qed
    then have "sendable ?m" using le by (auto simp: sendable_def)
    moreover have "typed_ok (sc_stdin c) (sc_stdin c') [?m]" using ty k by (auto simp: typed_ok_def)
    ultimately have "sends c c' ?es [?m]" by (simp add: sends_def encode_def)
    then show ?thesis using k by (intro conjI exI[of _ ?es] exI[of _ "[?m]"]) simp_all
  qed
qed

section \<open>The socket\<close>

definition screen :: "string \<Rightarrow> string" where
  "screen m = take MAX_STR_LEN (shown_message (cstr m))"

definition user_ok :: "chat_client \<Rightarrow> bool" where
  "user_ok u \<longleftrightarrow> client_ok u \<and> sc_writes u = [] \<and> \<not> disconnect_client u \<and> (has_unread_data u \<longrightarrow> sc_stdin u \<noteq> [])"

text \<open>A read of at most \<open>n\<close> bytes from \<open>q\<close>, if there is one, and what it leaves.\<close>

fun read_from :: "nat \<Rightarrow> string \<Rightarrow> read_reply option \<Rightarrow> string \<Rightarrow> bool" where
  "read_from n q None rest = (rest = q)"
| "read_from n q (Some (Read_Bytes bs)) rest = (bs \<noteq> [] \<and> length bs \<le> n \<and> q = bs @ rest)"
| "read_from n q (Some Read_Error) rest = False"

text \<open>The pass in which \<open>continue\<close> skips the socket.\<close>

definition skips_socket :: "bool \<Rightarrow> chat_client \<Rightarrow> bool" where
  "skips_socket rdy c \<longleftrightarrow> (has_unread_data c \<or> rdy) \<and>
     (case fgets MESSAGE_SIZE (sc_stdin c) of None \<Rightarrow> False | Some (line, rest) \<Rightarrow> cstr line = [])"

lemma read_server_effect:
  assumes "user_ok c" and "bs \<noteq> []" and "length bs \<le> BUF_SIZE - sc_inbuf c - 1"
    and "read_server (Read_Bytes bs) c = Chatting c'"
  shows "user_ok c' \<and> sc_fd c' = sc_fd c \<and> sc_stdin c' = sc_stdin c \<and> client_view c' = snd (messages (client_view c @ bs)) \<and>
    (\<exists>es. sc_trace c' = sc_trace c @ es \<and> sent_to (sc_fd c) es = [] \<and>
       stdout_of es = concat (map screen (fst (messages (client_view c @ bs)))))"
proof -
  have ok: "client_ok c" using assms(1) by (simp add: user_ok_def)
  have k: "sc_fd c' = sc_fd c \<and> sc_stdin c' = sc_stdin c \<and> sc_writes c' = sc_writes c \<and> disconnect_client c' = disconnect_client c \<and>
      has_unread_data c' = has_unread_data c"
    using assms(4) by (auto simp: read_server_def say_def Let_def split: prod.splits if_splits)
  let ?es = "map (\<lambda>m. Out (take MAX_STR_LEN (shown_message (cstr m)))) (fst (messages (client_view c @ bs)))"
  have r: "client_ok c'" "client_view c' = snd (messages (client_view c @ bs))" "sc_trace c' = sc_trace c @ ?es"
    using read_server_spec[OF ok assms(2,3)] assms(4) by auto
  have "stdout_of (map (\<lambda>m. Out (take MAX_STR_LEN (shown_message (cstr m)))) ms) = concat (map screen ms)"
    "sent_to fd (map (\<lambda>m. Out (take MAX_STR_LEN (shown_message (cstr m)))) ms) = []" for ms fd
    by (induction ms) (simp_all add: screen_def)
  then show ?thesis using k r assms(1) by (intro conjI exI[of _ ?es]) (simp_all add: user_ok_def)
qed

lemma read_from_Some: "read_from n q (Some rd) rest \<Longrightarrow> \<exists>bs. rd = Read_Bytes bs"
  by (cases rd) simp_all

text \<open>A pass, whatever is ready.\<close>

lemma client_pass_effect:
  assumes u: "user_ok c" "fst (messages (client_view c)) = []"
    and rd: "read_from (BUF_SIZE - sc_inbuf c - 1) q reply rest" "reply \<noteq> None \<longrightarrow> \<not> skips_socket rdy c"
    and p: "client_pass False (Ready_Fds rdy reply) c = Some (Chatting c')"
  shows "\<exists>bs es ms. q = bs @ rest \<and> user_ok c' \<and> sc_fd c' = sc_fd c \<and>
    client_view c' = snd (messages (client_view c @ bs)) \<and> sc_trace c' = sc_trace c @ es \<and>
    sends c c' es ms \<and> stdout_of es = concat (map screen (fst (messages (client_view c @ bs))))"
proof -
  obtain c1 es1 ms where c1: "user_ok c1" "sc_fd c1 = sc_fd c" "client_view c1 = client_view c" "sc_inbuf c1 = sc_inbuf c"
    "sc_trace c1 = sc_trace c @ es1" "stdout_of es1 = []" "sends c c1 es1 ms"
    "socket_phase reply (Chatting c1) = Chatting c'"
  proof (cases "has_unread_data c \<or> rdy")
    case False
    have d: "c\<lparr>disconnect_client := False\<rparr> = c" "\<not> disconnect_client c" using u(1) by (simp_all add: user_ok_def)
    have "socket_phase reply (Chatting c) = Chatting c'" using p False d by (simp add: client_pass_def)
    then show ?thesis using that[of c "[]" "[]"] u(1) by (simp add: sends_def typed_ok_refl)
  next
    case True
    have d: "c\<lparr>disconnect_client := False\<rparr> = c" "\<not> disconnect_client c" using u(1) by (simp_all add: user_ok_def)
    obtain r where r: "read_stdin c = Some r" using p True d by (auto simp: client_pass_def Let_def split: Option.bind_splits)
    obtain line rs where f: "fgets MESSAGE_SIZE (sc_stdin c) = Some (line, rs)"
      using r p True d by (cases "fgets MESSAGE_SIZE (sc_stdin c)") (auto simp: client_pass_def read_stdin_def Let_def)
    have e: "Chatting c' = (if cstr line = [] then r else socket_phase reply r)"
      using p True d r f by (simp add: client_pass_def Let_def)
    moreover have "cstr line = [] \<Longrightarrow> reply = None" using rd(2) True f by (simp add: skips_socket_def)
    ultimately have s: "socket_phase reply r = Chatting c'"
      by (cases "cstr line = []") (auto simp: socket_phase_def)
    then obtain c1 where c1: "r = Chatting c1" by (cases r) (simp_all add: socket_phase_def)
    obtain es ms where es: "sc_trace c1 = sc_trace c @ es" "stdout_of es = []" "sends c c1 es ms"
      "sc_buf c1 = sc_buf c" "sc_inbuf c1 = sc_inbuf c" "sc_fd c1 = sc_fd c" "sc_writes c1 = []"
      "disconnect_client c1 = disconnect_client c" "has_unread_data c1 \<longrightarrow> sc_stdin c1 \<noteq> []"
      using read_stdin_effect[of c c1] r c1 u(1) by (auto simp: user_ok_def)
    then show ?thesis using that[of c1 es ms] s c1 u(1) by (simp add: user_ok_def client_ok_def)
  qed
  show ?thesis
  proof (cases reply)
    case None
    then have "c' = c1" "rest = q" using c1(8) rd(1) by (simp_all add: socket_phase_def)
    then show ?thesis using c1 messages_none[OF u(2)] u(2) by (intro exI[of _ "[]"] exI[of _ es1] exI[of _ ms]) simp
  next
    case (Some r)
    obtain bs where bs: "reply = Some (Read_Bytes bs)" using read_from_Some rd(1) Some by blast
    have q: "q = bs @ rest" "bs \<noteq> []" "length bs \<le> BUF_SIZE - sc_inbuf c1 - 1" using rd(1) bs c1(4) by simp_all
    have "read_server (Read_Bytes bs) c1 = Chatting c'" using c1(8) bs by (simp add: socket_phase_def)
    note e = read_server_effect[OF c1(1) q(2,3) this]
    obtain es2 where es2: "sc_trace c' = sc_trace c1 @ es2" "sent_to (sc_fd c1) es2 = []"
      "stdout_of es2 = concat (map screen (fst (messages (client_view c1 @ bs))))"
      "user_ok c'" "sc_fd c' = sc_fd c1" "sc_stdin c' = sc_stdin c1" "client_view c' = snd (messages (client_view c1 @ bs))"
      using e by blast
    note v = c1(3) es2(3,7)[unfolded c1(3)]
    have "sends c c' (es1 @ es2) ms" using c1(2,7) es2(2,6) by (simp add: sends_def)
    moreover have "stdout_of (es1 @ es2) = concat (map screen (fst (messages (client_view c @ bs))))"
      using c1(6) v(2) by (simp only: stdout_of_append append_Nil)
    moreover have "sc_trace c' = sc_trace c @ (es1 @ es2)" using c1(5) es2(1) by (simp only: append_assoc)
    ultimately show ?thesis using q(1) es2(4,5) c1(2) v(3) by metis
  qed
qed

end
