(* ===== verification/Chat_Network.thy ===== *)
theory Chat_Network
  imports Chat_Rounds Client_Passes
begin

text \<open>
  The chat as a whole: the server process, any number of \<open>start-client\<close> processes and the
  bytes that are on their way between them. A step is one pass of one client's loop or one
  round of the server's loop, in any order and with any division of the bytes into reads;
  so the theorems hold for every interleaving. Connections stay open, the server's writes
  are complete, and the answers of the system are such as select and read give: only
  descriptors in the set are ready, and a read returns a non-empty part of what was sent.
\<close>

section \<open>States and steps\<close>

text \<open>A connection is named by the server's descriptor of it.\<close>

record network =
  nt_server :: server
  nt_users :: "int \<Rightarrow> chat_client option"
  nt_up :: "int \<Rightarrow> string"          \<comment> \<open>sent by the client, not yet read by the server\<close>
  nt_down :: "int \<Rightarrow> string"        \<comment> \<open>sent by the server, not yet read by the client\<close>
  nt_typed :: "int \<Rightarrow> string"       \<comment> \<open>all the standard input the client was started with\<close>

definition net_start :: "int \<Rightarrow> network" where
  "net_start l = \<lparr>nt_server = start_state l [], nt_users = Map.empty, nt_up = \<lambda>fd. [], nt_down = \<lambda>fd. [],
     nt_typed = \<lambda>fd. []\<rparr>"

definition new_bytes :: "int \<Rightarrow> event list \<Rightarrow> event list \<Rightarrow> string" where
  "new_bytes fd before after = drop (length (sent_to fd before)) (sent_to fd after)"

text \<open>There is room for \<open>bs\<close> in the buffer of the client on \<open>fd\<close>.\<close>

definition room_for :: "server \<Rightarrow> int \<Rightarrow> string \<Rightarrow> bool" where
  "room_for s fd bs \<longleftrightarrow> (\<forall>xs. rep (sv_clients s, sv_heap s) xs \<longrightarrow>
     (\<forall>x\<in>set xs. sock_fd (snd x) = fd \<longrightarrow> length bs \<le> BUF_SIZE - cl_inbuf (snd x) - 1))"

definition round_ok :: "int \<Rightarrow> network \<Rightarrow> round_input \<Rightarrow> bool" where
  "round_ok l n inp \<longleftrightarrow> input_ok l (nt_server n) (Ready inp) \<and> (\<forall>i. strdup_ok inp i) \<and>
     listen_fds inp \<subseteq> all_fds (nt_server n) \<and>
     (\<forall>fd\<in>listen_fds inp - {l}. \<exists>bs rest. read_replies inp fd = Read_Bytes bs \<and> bs \<noteq> [] \<and> nt_up n fd = bs @ rest \<and>
        room_for (nt_server n) fd bs)"

inductive net_step :: "int \<Rightarrow> network \<Rightarrow> network \<Rightarrow> bool" for l where
  user_step:
    "nt_users n fd = Some c \<Longrightarrow> read_from (BUF_SIZE - sc_inbuf c - 1) (nt_down n fd) reply rest \<Longrightarrow>
     (reply \<noteq> None \<longrightarrow> \<not> skips_socket rdy c) \<Longrightarrow> client_pass False (Ready_Fds rdy reply) c = Some (Chatting c') \<Longrightarrow>
     net_step l n (n\<lparr>nt_users := (nt_users n)(fd \<mapsto> c'),
       nt_up := (nt_up n)(fd := nt_up n fd @ new_bytes (sc_fd c) (sc_trace c) (sc_trace c')),
       nt_down := (nt_down n)(fd := rest)\<rparr>)"
| server_step:
    "round_ok l n inp \<Longrightarrow> server_round l (Ready inp) (nt_server n) = Some (Serving s') \<Longrightarrow>
     net_step l n \<lparr>nt_server = s',
       nt_users = (if l \<in> listen_fds inp
         then (nt_users n)(accept_reply inp \<mapsto> client_start cfd input [] []) else nt_users n),
       nt_up = (\<lambda>fd. drop (length (arrived inp fd)) (nt_up n fd)),
       nt_down = (\<lambda>fd. nt_down n fd @ new_bytes fd (sv_trace (nt_server n)) (sv_trace s')),
       nt_typed = (if l \<in> listen_fds inp then (nt_typed n)(accept_reply inp := input) else nt_typed n)\<rparr>"

inductive net_reaches :: "int \<Rightarrow> network \<Rightarrow> bool" for l where
  net_init: "net_reaches l (net_start l)"
| net_next: "net_reaches l n \<Longrightarrow> net_step l n n' \<Longrightarrow> net_reaches l n'"

lemma new_bytes_append [simp]: "new_bytes fd es (es @ fs) = sent_to fd fs"
  by (simp add: new_bytes_def)

section \<open>The invariant\<close>

text \<open>
  The log is that of a history, whose members are the clients of the server in the order of
  its list. For a connection: the bytes the client sent are those the server has read, followed by
  those on their way, and the messages of the former are the sender's texts in the log; the
  bytes handed to the client are those it has read, followed by those on their way, and the
  messages of the former are on its screen.
\<close>

definition up_link :: "entry list \<Rightarrow> int \<Rightarrow> string \<Rightarrow> string \<Rightarrow> string \<Rightarrow> bool" where
  "up_link log fd tx up buf \<longleftrightarrow>
     (\<exists>r. tx = r @ up \<and> snd (messages r) = buf \<and> map cstr (fst (messages r)) = texts_of fd log)"

definition down_link :: "entry list \<Rightarrow> int \<Rightarrow> string \<Rightarrow> string \<Rightarrow> string \<Rightarrow> bool" where
  "down_link log fd scr down buf \<longleftrightarrow>
     (\<exists>r. handed_log log fd = r @ down \<and> snd (messages r) = buf \<and> scr = concat (map screen (fst (messages r))))"

text \<open>What a client has sent is encoded messages, and of a text all that it has read.\<close>

definition says :: "string \<Rightarrow> chat_client \<Rightarrow> bool" where
  "says typed u \<longleftrightarrow> (\<exists>ms. sent_to (sc_fd u) (sc_trace u) = encode ms \<and> (\<forall>m\<in>set ms. sendable m) \<and>
     typed_ok typed (sc_stdin u) ms)"

definition link :: "network \<Rightarrow> entry list \<Rightarrow> client_socket \<Rightarrow> chat_client \<Rightarrow> bool" where
  "link n log c u \<longleftrightarrow>
     (let fd = sock_fd c; tx = sent_to (sc_fd u) (sc_trace u) in
      user_ok u \<and> says (nt_typed n fd) u \<and> up_link log fd tx (nt_up n fd) (view c) \<and>
      down_link log fd (stdout_of (sc_trace u)) (nt_down n fd) (client_view u))"

definition linked :: "network \<Rightarrow> entry list \<Rightarrow> ptr \<times> client_socket \<Rightarrow> bool" where
  "linked n log x \<longleftrightarrow> (\<exists>u. nt_users n (sock_fd (snd x)) = Some u \<and> link n log (snd x) u)"

abbreviation chat_log :: "happening list \<Rightarrow> entry list" where
  "chat_log h \<equiv> log_of [] [] h"

definition net_ok :: "int \<Rightarrow> network \<Rightarrow> happening list \<Rightarrow> (ptr \<times> client_socket) list \<Rightarrow> bool" where
  "net_ok l n h xs \<longleftrightarrow>
     server_ok l (nt_server n) xs \<and> names_ok (nt_server n) (speakers [] h) xs \<and> writes_ok (sv_writes (nt_server n)) \<and>
     members h = fds xs \<and> happens_ok [] h \<and> dom (nt_users n) = set (fds xs) \<and>
     (\<forall>fd. fd \<notin> set (fds xs) \<longrightarrow> nt_up n fd = [] \<and> nt_down n fd = [] \<and> handed_log (chat_log h) fd = []) \<and>
     logged (chat_log h) (sv_trace (nt_server n)) \<and>
     (\<forall>e\<in>set (chat_log h). en_from e \<in> set (fds xs) \<and> int (length (en_to e)) \<le> FD_SETSIZE) \<and>
     (\<forall>x\<in>set xs. linked n (chat_log h) x)"

lemma up_link_send: "up_link log fd tx up buf \<Longrightarrow> up_link log fd (tx @ bs) (up @ bs) buf"
  by (auto simp: up_link_def)

lemma up_link_read:
  assumes "up_link log fd tx (bs @ up) buf" and "texts_of fd log' = map cstr (fst (messages (buf @ bs)))"
  shows "up_link (log @ log') fd tx up (snd (messages (buf @ bs)))"
proof -
  obtain r where "tx = r @ bs @ up" "snd (messages r) = buf" "map cstr (fst (messages r)) = texts_of fd log"
    using assms(1) by (auto simp: up_link_def)
  then show ?thesis using assms(2) messages_append[of r bs] by (auto simp: up_link_def)
qed

lemma down_link_read:
  assumes "down_link log fd scr (bs @ down) buf"
  shows "down_link log fd (scr @ concat (map screen (fst (messages (buf @ bs))))) down (snd (messages (buf @ bs)))"
proof -
  obtain r where "handed_log log fd = r @ bs @ down" "snd (messages r) = buf"
      "scr = concat (map screen (fst (messages r)))" using assms by (auto simp: down_link_def)
  then show ?thesis using messages_append[of r bs] unfolding down_link_def by (intro exI[of _ "r @ bs"]) auto
qed

lemma down_link_send:
  "down_link log fd scr down buf \<Longrightarrow> down_link (log @ log') fd scr (down @ handed_log log' fd) buf"
  by (auto simp: down_link_def)

lemma says_more:
  assumes "says typed c" and "sc_trace c' = sc_trace c @ es" and "sc_fd c' = sc_fd c" and "sends c c' es ms"
  shows "says typed c'"
proof -
  obtain ms0 where "sent_to (sc_fd c) (sc_trace c) = encode ms0" "\<forall>m\<in>set ms0. sendable m"
    "typed_ok typed (sc_stdin c) ms0" using assms(1) by (auto simp: says_def)
  then show ?thesis using assms(2-4) typed_ok_trans unfolding says_def
    by (intro exI[of _ "ms0 @ ms"]) (auto simp: sends_def)
qed

lemma link_buffers:
  assumes "link n log c u"
  shows "fst (messages (view c)) = []" and "fst (messages (client_view u)) = []"
  using assms messages_rest unfolding link_def Let_def up_link_def down_link_def by metis+

lemma net_start_ok: "net_ok l (net_start l) [] []"
proof -
  have "server_ok l (start_state l []) []" by (rule start_state_ok)
  then show ?thesis using names_ok_start[of l "[]"]
    by (simp add: net_ok_def net_start_def logged_def writes_ok_def) (simp add: start_state_def)
qed

section \<open>Every step keeps it\<close>

lemma user_step_ok:
  assumes ok: "net_ok l n h xs" and u: "nt_users n fd = Some c"
    and rd: "read_from (BUF_SIZE - sc_inbuf c - 1) (nt_down n fd) reply rest" "reply \<noteq> None \<longrightarrow> \<not> skips_socket rdy c"
    and p: "client_pass False (Ready_Fds rdy reply) c = Some (Chatting c')"
  shows "net_ok l (n\<lparr>nt_users := (nt_users n)(fd \<mapsto> c'),
       nt_up := (nt_up n)(fd := nt_up n fd @ new_bytes (sc_fd c) (sc_trace c) (sc_trace c')),
       nt_down := (nt_down n)(fd := rest)\<rparr>) h xs" (is "net_ok l ?n h xs")
proof -
  let ?log = "chat_log h"
  have fd: "fd \<in> set (fds xs)" using ok u by (auto simp: net_ok_def)
  have "linked ?n ?log x" if x: "x \<in> set xs" for x
  proof (cases "sock_fd (snd x) = fd")
    case False
    then show ?thesis using ok x by (auto simp: net_ok_def linked_def link_def)
  next
    case True
    then have lk: "link n ?log (snd x) c" using ok u x by (auto simp: net_ok_def linked_def)
    then have "user_ok c" by (simp add: link_def Let_def)
    then obtain bs es ms where e: "nt_down n fd = bs @ rest" "user_ok c'" "sc_fd c' = sc_fd c"
        "client_view c' = snd (messages (client_view c @ bs))" "sc_trace c' = sc_trace c @ es"
        "sends c c' es ms" "stdout_of es = concat (map screen (fst (messages (client_view c @ bs))))"
      using client_pass_effect[OF _ link_buffers(2)[OF lk] rd p] by blast
    have old: "says (nt_typed n fd) c" "up_link ?log fd (sent_to (sc_fd c) (sc_trace c)) (nt_up n fd) (view (snd x))"
      "down_link ?log fd (stdout_of (sc_trace c)) (bs @ rest) (client_view c)"
      using lk True e(1) by (simp_all add: link_def Let_def)
    have sy: "says (nt_typed n fd) c'" using says_more[OF old(1) e(5,3,6)] .
    have "link ?n ?log (snd x) c'"
      unfolding link_def Let_def True e(3,4,5) sent_to_append stdout_of_append e(7)
      using e(2) sy up_link_send[OF old(2), of "sent_to (sc_fd c) es"]
        down_link_read[OF old(3)] by simp
    then show ?thesis using True by (simp add: linked_def)
  qed
  then show ?thesis using ok fd by (auto simp: net_ok_def)
qed

lemma server_step_ok:
  assumes ok: "net_ok l n h xs" and rk: "round_ok l n inp"
    and r: "server_round l (Ready inp) (nt_server n) = Some (Serving s')"
  shows "\<exists>h' xs'. net_ok l \<lparr>nt_server = s',
       nt_users = (if l \<in> listen_fds inp
         then (nt_users n)(accept_reply inp \<mapsto> client_start cfd input [] []) else nt_users n),
       nt_up = (\<lambda>fd. drop (length (arrived inp fd)) (nt_up n fd)),
       nt_down = (\<lambda>fd. nt_down n fd @ new_bytes fd (sv_trace (nt_server n)) (sv_trace s')),
       nt_typed = (if l \<in> listen_fds inp then (nt_typed n)(accept_reply inp := input) else nt_typed n)\<rparr>
     (h @ map Joins (joining l inp) @ h') xs'"
    (is "\<exists>h' xs'. net_ok l ?n (h @ _ @ h') xs'")
proof -
  let ?s = "nt_server n" and ?log = "chat_log h" and ?sp = "speakers [] h"
  have sok: "server_ok l ?s xs" "names_ok ?s ?sp xs" "writes_ok (sv_writes ?s)" and mem: "members h = fds xs"
    and hap: "happens_ok [] h" using ok by (simp_all add: net_ok_def)
  have lsub: "listen_fds inp \<subseteq> all_fds ?s" and dup: "\<forall>i. strdup_ok inp i" and inok: "input_ok l ?s (Ready inp)"
    using rk by (simp_all add: round_ok_def)
  have all: "all_fds ?s = insert l (set (fds xs))" "l \<notin> set (fds xs)" using sok(1) by (auto simp: server_ok_def)
  have acc: "l \<in> listen_fds inp \<longrightarrow> accept_reply inp \<notin> listen_fds inp" using inok lsub by auto
  have lk: "linked n ?log x" if "x \<in> set xs" for x using ok that by (simp add: net_ok_def)
  have reads: "\<forall>fd\<in>listen_fds inp - {l}. \<exists>bs rest. read_replies inp fd = Read_Bytes bs \<and> bs \<noteq> [] \<and> nt_up n fd = bs @ rest \<and>
      room_for ?s fd bs"
    using rk unfolding round_ok_def by (elim conjE)
  have arr: "\<exists>rest. nt_up n fd = arrived inp fd @ rest" if "fd \<noteq> l" for fd
  proof (cases "fd \<in> listen_fds inp")
    case True
    then have "fd \<in> listen_fds inp - {l}" using that by simp
    then obtain bs rest where "read_replies inp fd = Read_Bytes bs" "nt_up n fd = bs @ rest"
      using reads by meson
    then show ?thesis using True by (simp add: arrived_def)
  qed (simp add: arrived_def)
  have rd: "reads_ok inp (snd x)" if x: "x \<in> set xs" for x
  proof (cases "sock_fd (snd x) \<in> listen_fds inp")
    case False
    then show ?thesis using lk[OF x] link_buffers(1) by (auto simp: reads_ok_def linked_def)
  next
    case True
    obtain a c where ac: "x = (a, c)" by (cases x)
    have "sock_fd c \<noteq> l" using x ac all(2) by force
    then have "sock_fd c \<in> listen_fds inp - {l}" using True ac by simp
    then obtain bs where bs: "read_replies inp (sock_fd c) = Read_Bytes bs" "bs \<noteq> []" "room_for ?s (sock_fd c) bs"
      using reads by meson
    have "rep (sv_clients ?s, sv_heap ?s) xs" using sok(1) by (simp add: server_ok_def)
    then have "length bs \<le> BUF_SIZE - cl_inbuf c - 1" using bs(3) x ac by (fastforce simp: room_for_def)
    then show ?thesis using True ac bs(1,2) by (simp add: reads_ok_def)
  qed
  have rds: "\<forall>x\<in>set xs. reads_ok inp (snd x)" using rd by blast
  obtain s2 new xs' h' es where m2: "server_round l (Ready inp) ?s = Some (Serving s2)"
    and m1: "server_ok l s2 xs'" "names_ok s2 (speakers ?sp h') xs'" "writes_ok (sv_writes s2)"
    "sv_trace s2 = sv_trace ?s @ es" "logged (log_of (fds (xs @ new)) ?sp h') es"
    "only_says (set (fds (xs @ new))) h'" "fds new = joining l inp"
    "\<forall>x\<in>set new. view (snd x) = []" "list_all2 (client_served inp h') (xs @ new) xs'"
    using server_round_logged[OF sok(1) inok dup rds acc sok(3,2)] by blast
  define log' where "log' = log_of (fds (xs @ new)) ?sp h'"
  have "s2 = s'" using m2 r by simp
  then have m: "server_ok l s' xs'" "names_ok s' (speakers ?sp h') xs'" "writes_ok (sv_writes s')"
    "sv_trace s' = sv_trace ?s @ es" "logged log' es"
    "\<forall>e\<in>set log'. en_from e \<in> set (fds (xs @ new)) \<and> en_to e = fds (xs @ new)"
    "fds new = (if l \<in> listen_fds inp then [accept_reply inp] else [])"
    "\<forall>x\<in>set new. view (snd x) = []" "list_all2 (client_served inp h') (xs @ new) xs'"
    using m1 only_says_props(3)[OF m1(6)] by (simp_all add: log'_def joining_def del: map_append)
  have down: "nt_down ?n fd = nt_down n fd @ handed_log log' fd" for fd
    using m(4,5) by (simp add: logged_def)
  have f2: "map (\<lambda>x. sock_fd (snd x)) xs' = map (\<lambda>x. sock_fd (snd x)) (xs @ new)"
    using m(9) by (induction rule: list_all2_induct) (simp_all add: client_served_def Let_def)
  have newfd: "accept_reply inp \<notin> set (fds xs)" "accept_reply inp \<noteq> l" if "l \<in> listen_fds inp"
    using inok that all by auto
  have out: "nt_up n fd = [] \<and> nt_down n fd = [] \<and> handed_log ?log fd = []" if "fd \<notin> set (fds xs)" for fd
    using ok that by (simp add: net_ok_def)
  have frm: "\<forall>e\<in>set ?log. en_from e \<in> set (fds xs)" and sz: "\<forall>e\<in>set ?log. int (length (en_to e)) \<le> FD_SETSIZE"
    using ok by (simp_all add: net_ok_def)
  let ?h = "h @ map Joins (joining l inp) @ h'"
  have lg: "chat_log ?h = ?log @ log'"
    using mem m1(7) by (simp add: log'_def joins_all)
  have hk: "members ?h = fds xs'" "speakers [] ?h = speakers ?sp h'"
    using mem only_says_props(1)[OF m1(6)] m1(7) f2 by (simp_all add: joins_all)
  have "happens_ok (fds xs) (map Joins (joining l inp))" using newfd(1) by (simp add: joining_def)
  moreover have "happens_ok (fds xs @ joining l inp) h'"
    using only_says_props(2)[OF m1(6), of "fds xs @ joining l inp"] m1(7) by simp
  ultimately have hp: "happens_ok [] ?h" using hap mem by (simp add: joins_all)
  have link': "linked ?n (?log @ log') x'" if x': "x' \<in> set xs'" for x'
  proof -
    obtain x where x: "x \<in> set (xs @ new)" "client_served inp h' x x'"
      using list_all2_right[OF m(9) x'] by blast
    let ?fd = "sock_fd (snd x)" and ?buf = "view (snd x) @ arrived inp (sock_fd (snd x))"
    have sv: "sock_fd (snd x') = ?fd" "view (snd x') = snd (messages ?buf)"
      "texts_of ?fd log' = map cstr (fst (messages ?buf))"
      using x(2) by (simp_all add: client_served_def Let_def log'_def texts_of_log)
    show ?thesis
    proof (cases "x \<in> set xs")
      case True
      obtain u where u: "nt_users n ?fd = Some u" "link n ?log (snd x) u" using lk[OF True] by (auto simp: linked_def)
      have fx: "?fd \<in> set (fds xs)" using True by force
      then have nl: "?fd \<noteq> l" using all(2) by metis
      obtain rest where rest: "nt_up n ?fd = arrived inp ?fd @ rest" using arr[OF nl] by blast
      have old: "user_ok u" "says (nt_typed n ?fd) u"
        "up_link ?log ?fd (sent_to (sc_fd u) (sc_trace u)) (arrived inp ?fd @ rest) (view (snd x))"
        "down_link ?log ?fd (stdout_of (sc_trace u)) (nt_down n ?fd) (client_view u)"
        using u(2) rest by (simp_all add: link_def Let_def)
      have "l \<in> listen_fds inp \<Longrightarrow> ?fd \<noteq> accept_reply inp" using fx newfd(1) by metis
      then have us: "nt_users ?n ?fd = Some u" using u(1) by simp
      have up: "nt_up ?n ?fd = rest" using rest by simp
      have ty: "nt_typed ?n ?fd = nt_typed n ?fd"
        using \<open>l \<in> listen_fds inp \<Longrightarrow> ?fd \<noteq> accept_reply inp\<close> by simp
      have "link ?n (?log @ log') (snd x') u"
        unfolding link_def Let_def sv(1,2) down up ty
        by (intro conjI old(1,2) up_link_read[OF old(3) sv(3)] down_link_send[OF old(4)])
      then show ?thesis unfolding linked_def sv(1) using us by (intro exI conjI)
    next
      case False
      then have xn: "x \<in> set new" using x(1) by auto
      then have "?fd \<in> set (fds new)" by force
      then have l: "l \<in> listen_fds inp" "?fd = accept_reply inp" using m(7) by (auto split: if_splits)
      have a: "arrived inp ?fd = []" using acc l by (simp add: arrived_def)
      have e: "view (snd x) = []" using m(8) xn by blast
      have em: "messages [] = ([], [])" by (simp add: messages.simps)
      have fx: "?fd \<notin> set (fds xs)" using newfd(1) l by simp
      have t: "texts_of ?fd ?log = []" using frm fx by (intro texts_of_other) metis
      let ?u = "client_start cfd input [] []"
      have us: "nt_users ?n ?fd = Some ?u" using l by simp
      have u: "user_ok ?u" "client_view ?u = []" "sc_trace ?u = []"
        by (simp_all add: client_start_def user_ok_def client_ok_def buffer_ok_def buffer_view_def)
      have v: "view (snd x') = []" and t': "texts_of ?fd (?log @ log') = []" using sv(2,3) a e em t by simp_all
      have "up_link (?log @ log') ?fd [] [] []" using t' em by (simp add: up_link_def)
      moreover have "down_link (?log @ log') ?fd [] (handed_log log' ?fd) []"
        using out[OF fx] em by (simp add: down_link_def)
      moreover have "nt_up ?n ?fd = []" "nt_down ?n ?fd = handed_log log' ?fd" using out[OF fx] down[of ?fd] by simp_all
      moreover have "says (nt_typed ?n ?fd) ?u" using l unfolding says_def u(3)
        by (intro exI[of _ "[]"]) (simp add: client_start_def typed_ok_refl)
      ultimately have "link ?n (?log @ log') (snd x') ?u"
        unfolding link_def Let_def sv(1) v u(2,3) using u(1) by (simp only: sent_to.simps stdout_of.simps)
      then show ?thesis unfolding linked_def sv(1) using us by (intro exI conjI)
    qed
  qed
  have d: "dom (nt_users ?n) = set (fds xs')" using ok m(7) unfolding f2 by (auto simp: net_ok_def)
  have o: "nt_up ?n fd = [] \<and> nt_down ?n fd = [] \<and> handed_log (?log @ log') fd = []" if fd: "fd \<notin> set (fds xs')" for fd
  proof -
    have n: "fd \<notin> set (fds (xs @ new))" using fd f2 by metis
    then have "hands e fd = []" if "e \<in> set log'" for e
      using m(6) that by (auto simp: hands_def handed_def)
    then have "handed_log log' fd = []" by (simp add: handed_log_def)
    then show ?thesis using out[of fd] n down[of fd] by simp
  qed
  have "logged (?log @ log') (sv_trace s')" using ok m(4,5) logged_append by (simp add: net_ok_def)
  moreover have "int (length (fds xs')) \<le> FD_SETSIZE" using server_ok_length[OF m(1)] by simp
  then have "\<forall>e\<in>set (?log @ log'). en_from e \<in> set (fds xs') \<and> int (length (en_to e)) \<le> FD_SETSIZE"
    using frm sz m(6) unfolding f2 by auto
  moreover have "names_ok s' (speakers [] ?h) xs'" using m(2) unfolding hk .
  ultimately have "net_ok l ?n ?h xs'" using m(1,3) d o link' hk(1) hp unfolding net_ok_def lg by simp
  then show ?thesis by blast
qed

text \<open>The history only grows.\<close>

lemma net_step_ok:
  assumes ok: "net_ok l n h xs" and "net_step l n n'"
  shows "\<exists>h' xs'. net_ok l n' (h @ h') xs'"
  using assms(2)
proof (cases rule: net_step.cases)
  case (user_step fd c reply rest rdy c')
  have "net_ok l n' (h @ []) xs" unfolding user_step(1) using user_step_ok[OF ok user_step(2-5)] by simp
  then show ?thesis by blast
next
  case (server_step inp s' cfd input)
  show ?thesis unfolding server_step(1) using server_step_ok[OF ok server_step(2,3)] by blast
qed

lemma net_reaches_ok: "net_reaches l n \<Longrightarrow> \<exists>h xs. net_ok l n h xs"
proof (induction rule: net_reaches.induct)
  case net_init
  then show ?case using net_start_ok by blast
next
  case (net_next n n')
  then show ?case using net_step_ok by blast
qed

lemma net_run_ok:
  assumes "(net_step l)\<^sup>*\<^sup>* n n'" and "net_ok l n h xs"
  shows "\<exists>h' xs'. net_ok l n' (h @ h') xs'"
  using assms
proof (induction rule: rtranclp_induct)
  case base
  then show ?case by (metis append_Nil2)
next
  case (step n1 n2)
  then obtain h1 xs1 where "net_ok l n1 (h @ h1) xs1" by blast
  then obtain h2 xs2 where "net_ok l n2 ((h @ h1) @ h2) xs2" using net_step_ok step.hyps(2) by blast
  then show ?case by (metis append_assoc)
qed

lemma net_run_reaches: "(net_step l)\<^sup>*\<^sup>* n n' \<Longrightarrow> net_reaches l n \<Longrightarrow> net_reaches l n'"
  by (induction rule: rtranclp_induct) (auto intro: net_next)

end
