(* ===== verification/Chat_Order.thy ===== *)
theory Chat_Order
  imports Chat_Network
begin

text \<open>
  What the network guarantees its users: there is one history of the chat, every user's
  messages are in it in the order in which they were typed, and every screen shows all of it
  from the moment its user joined; no receive buffer ever fills up; and from every reachable
  state all that was typed can be brought to all screens.
\<close>

section \<open>Lines without a network newline\<close>

lemma split_crlf_prefix: "split_crlf (a @ b) = None \<Longrightarrow> split_crlf a = None"
proof (induction a rule: split_crlf.induct)
  case (1 c d s)
  then show ?case by (auto split: if_splits)
qed auto

lemma split_crlf_CR: "split_crlf m = None \<Longrightarrow> split_crlf (m @ [CR]) = None"
  by (induction m rule: split_crlf.induct) (auto split: if_splits)

lemma no_crlf_iff: "no_crlf m \<longleftrightarrow> split_crlf m = None"
  using split_crlf_prefix split_crlf_CR unfolding no_crlf_def by blast

lemma no_crlf_take: "no_crlf m \<Longrightarrow> no_crlf (take k m)"
  using split_crlf_prefix[of "take k m" "drop k m"] by (simp add: no_crlf_iff)

lemma no_crlf_cstr: "no_crlf m \<Longrightarrow> no_crlf (cstr m)"
  using split_crlf_prefix[of "cstr m" "dropWhile (\<lambda>c. c \<noteq> NUL) m"]
  by (simp add: no_crlf_iff cstr_def)

lemma no_crlf_Cons: "c \<noteq> CR \<Longrightarrow> no_crlf m \<Longrightarrow> no_crlf (c # m)"
  by (cases m) (simp_all add: no_crlf_iff)

lemma no_crlf_append: "CR \<notin> set a \<Longrightarrow> no_crlf b \<Longrightarrow> no_crlf (a @ b)"
  by (induction a) (auto intro: no_crlf_Cons)

lemma messages_no_crlf: "m \<in> set (fst (messages s)) \<Longrightarrow> no_crlf m"
proof (induction s rule: messages.induct)
  case (1 s)
  show ?case
  proof (cases "split_crlf s")
    case None
    then show ?thesis using "1.prems" by (simp add: messages.simps)
  next
    case (Some x)
    obtain m1 r where x: "x = (m1, r)" by (cases x)
    then have "no_crlf m1" using Some split_crlf_Some by (simp add: no_crlf_iff)
    moreover have "m \<in> set (fst (messages r)) \<Longrightarrow> no_crlf m" using "1.IH" Some x by blast
    moreover have "fst (messages s) = m1 # fst (messages r)"
      using Some x by (subst messages.simps) (simp add: case_prod_unfold)
    ultimately show ?thesis using "1.prems" by auto
  qed
qed

lemma messages_rest_length: "length (snd (messages s)) \<le> length s"
proof (induction s rule: messages.induct)
  case (1 s)
  show ?case
  proof (cases "split_crlf s")
    case None
    then show ?thesis by (simp add: messages.simps)
  next
    case (Some x)
    obtain m1 r where x: "x = (m1, r)" by (cases x)
    have "length (snd (messages r)) \<le> length r" using "1.IH" Some x by blast
    moreover have "snd (messages s) = snd (messages r)"
      using Some x by (subst messages.simps) (simp add: case_prod_unfold)
    moreover have "length r < length s" using Some x split_crlf_length by auto
    ultimately show ?thesis by simp
  qed
qed

text \<open>What is left of encoded messages, read up to some point, is part of one message.\<close>

lemma encode_rest_short:
  "encode ms = r @ z \<Longrightarrow> \<forall>m\<in>set ms. no_crlf m \<and> length m \<le> k \<Longrightarrow> length (snd (messages r)) \<le> k + 1"
proof (induction ms arbitrary: r)
  case Nil
  then show ?case by (simp add: messages.simps)
next
  case (Cons m ms)
  have e: "(m @ [CR, LF]) @ encode ms = r @ z" using Cons.prems(1) by (simp add: encode_def)
  show ?case
  proof (cases "length r < length m + 2")
    case True
    then show ?thesis using messages_rest_length[of r] Cons.prems(2) by auto
  next
    case False
    have "(\<exists>r'. r = p @ r' \<and> encode ms = r' @ z) \<or> length r < length p" if "p @ encode ms = r @ z" for p
      using that unfolding append_eq_append_conv2 by (cases "length r < length p") auto
    then obtain r' where r: "r = (m @ [CR, LF]) @ r'" "encode ms = r' @ z" using e False by fastforce
    have "split_crlf r = Some (m, r')" using split_crlf_message[of m r'] r(1) Cons.prems(2) by simp
    then have "snd (messages r) = snd (messages r')" by (subst messages.simps) (simp add: case_prod_unfold)
    then show ?thesis using Cons.IH[OF r(2)] Cons.prems(2) by simp
  qed
qed

section \<open>The lines of the log\<close>

definition lines_to :: "int \<Rightarrow> entry \<Rightarrow> string list" where
  "lines_to fd e =
     (if en_text e = connected_command
      then (if fd = en_from e then [show_int (int (length (en_to e))) @ [LF]] else [])
      else if fd \<in> set (en_to e) then [chat_line (en_name e) (en_text e)] else [])"

definition display_of :: "int \<Rightarrow> entry \<Rightarrow> string" where
  "display_of fd e =
     (if en_text e = connected_command
      then (if fd = en_from e then take MAX_STR_LEN (show_int (int (length (en_to e))) @ [LF]) else [])
      else if fd \<in> set (en_to e) then take MAX_STR_LEN (en_name e @ '': '' @ en_text e @ [LF]) else [])"

definition entry_ok :: "entry \<Rightarrow> bool" where
  "entry_ok e \<longleftrightarrow> no_crlf (en_text e) \<and> NUL \<notin> set (en_text e) \<and> (\<exists>i. en_name e = client_name i) \<and>
     int (length (en_to e)) \<le> FD_SETSIZE"

lemma handed_log_encode: "handed_log log fd = encode (concat (map (lines_to fd) log))"
proof -
  have "hands e fd = encode (lines_to fd e)" for e
    by (simp add: hands_def handed_def lines_to_def encode_def)
  then show ?thesis by (induction log) (simp_all add: handed_log_def)
qed

lemma client_name_clean:
  "NUL \<notin> set (client_name i)" "CHR '' '' \<notin> set (client_name i)" "CR \<notin> set (client_name i)" "length (client_name i) < MAX_NAME"
  using show_int_clean[of i] by (auto simp: client_name_def dest!: in_set_takeD)

lemma lines_to_ok:
  assumes "entry_ok e" and "m \<in> set (lines_to fd e)"
  shows "no_crlf m" and "length m \<le> MAX_NAME + MAX_USER_MSG"
proof -
  obtain i where i: "en_name e = client_name i" using assms(1) by (auto simp: entry_ok_def)
  note cl = client_name_clean[of i] show_int_clean[of "int (length (en_to e))"]
  have "no_crlf (client_name i @ '' '' @ take MAX_USER_MSG (en_text e))"
    using assms(1) cl by (intro no_crlf_append no_crlf_take) (auto simp: entry_ok_def)
  moreover have "no_crlf (show_int (int (length (en_to e))) @ [LF])"
    using cl by (intro no_crlf_append) (auto simp: no_crlf_iff)
  ultimately show "no_crlf m" using assms(2) i by (auto simp: lines_to_def chat_line_def split: if_splits)
  have "length (show_int (int (length (en_to e)))) \<le> 11"
    using assms(1) by (intro length_show_int) (auto simp: entry_ok_def)
  then show "length m \<le> MAX_NAME + MAX_USER_MSG"
    using assms(2) i cl by (auto simp: lines_to_def chat_line_def split: if_splits)
qed

lemma screen_lines:
  assumes "entry_ok e"
  shows "concat (map screen (lines_to fd e)) = display_of fd e"
proof -
  obtain i where i: "en_name e = client_name i" using assms(1) by (auto simp: entry_ok_def)
  note cl = client_name_clean[of i] show_int_clean[of "int (length (en_to e))"]
  let ?n = "show_int (int (length (en_to e))) @ [LF]" and ?l = "chat_line (client_name i) (en_text e)"
  have "cstr ?n = ?n" using cl by (intro cstr_id) simp
  moreover have "strchr ?n (CHR '' '') = None" using cl by (auto simp: strchr_def)
  ultimately have n: "screen ?n = take MAX_STR_LEN ?n" by (simp add: screen_def shown_message_def)
  have "NUL \<notin> set ?l" using cl assms by (auto simp: chat_line_def entry_ok_def dest: in_set_takeD)
  then have "cstr ?l = ?l" by (rule cstr_id)
  then have "screen ?l = take MAX_STR_LEN (client_name i @ '': '' @ en_text e @ [LF])"
    unfolding screen_def using shown_chat_line cl by simp
  then show ?thesis using n i by (simp add: lines_to_def display_of_def)
qed

lemma screen_log:
  "\<forall>e\<in>set log. entry_ok e \<Longrightarrow>
     concat (map screen (concat (map (lines_to fd) log))) = concat (map (display_of fd) log)"
  by (induction log) (simp_all add: screen_lines)

section \<open>What holds in every reachable state\<close>

text \<open>\<open>xs\<close> is what there is of \<open>ys\<close> so far, and all of it when \<open>fin\<close>.\<close>

definition sofar :: "'a list \<Rightarrow> 'a list \<Rightarrow> bool \<Rightarrow> bool" where
  "sofar xs ys fin \<longleftrightarrow> (\<exists>later. xs @ later = ys \<and> (fin \<longrightarrow> later = []))"

lemma net_user:
  assumes ok: "net_ok l n h xs" and u: "nt_users n fd = Some u"
  obtains a c where "(a, c) \<in> set xs" "sock_fd c = fd" "link n (chat_log h) c u"
proof -
  have "fd \<in> set (fds xs)" using ok u by (auto simp: net_ok_def)
  then obtain a c where x: "(a, c) \<in> set xs" "sock_fd c = fd" by auto
  moreover have "linked n (chat_log h) (a, c)" using ok x(1) by (simp add: net_ok_def)
  ultimately show thesis using that u by (auto simp: linked_def)
qed

lemma net_client:
  assumes ok: "net_ok l n h xs" and x: "(a, c) \<in> set xs"
  obtains u where "nt_users n (sock_fd c) = Some u" "link n (chat_log h) c u"
  using assms by (auto simp: net_ok_def linked_def)

lemma net_entry_ok:
  assumes ok: "net_ok l n h xs" and e: "e \<in> set (chat_log h)"
  shows "entry_ok e"
proof -
  have "en_from e \<in> set (fds xs)" and len: "int (length (en_to e)) \<le> FD_SETSIZE"
    using ok e by (auto simp: net_ok_def)
  then obtain a c where x: "(a, c) \<in> set xs" "sock_fd c = en_from e" by auto
  obtain u where "link n (chat_log h) c u" using net_client[OF ok x(1)] by blast
  then have up: "up_link (chat_log h) (en_from e) (sent_to (sc_fd u) (sc_trace u)) (nt_up n (en_from e)) (view c)"
    using x(2) e by (simp add: link_def Let_def)
  obtain r where r: "map cstr (fst (messages r)) = texts_of (en_from e) (chat_log h)" using up by (auto simp: up_link_def)
  have "en_text e \<in> set (texts_of (en_from e) (chat_log h))" using e by (simp add: texts_of_def)
  then obtain m where m: "m \<in> set (fst (messages r))" "en_text e = cstr m" unfolding r[symmetric] set_map by blast
  have "\<exists>i. en_name e = client_name i" using log_of_from[OF e] .
  moreover have "no_crlf (en_text e)" "NUL \<notin> set (en_text e)"
    using m messages_no_crlf no_crlf_cstr by (auto simp: cstr_def dest: set_takeWhileD)
  ultimately show ?thesis using len by (simp add: entry_ok_def)
qed

text \<open>From the keyboard into the log.\<close>

lemma link_typed:
  assumes "link n log c u" and ti: "text_input (nt_typed n (sock_fd c))"
  shows "sofar (texts_of (sock_fd c) log) (typed_messages (nt_typed n (sock_fd c)))
    (sc_stdin u = [] \<and> nt_up n (sock_fd c) = [])"
proof -
  let ?fd = "sock_fd c" and ?tx = "sent_to (sc_fd u) (sc_trace u)"
  obtain ms where ms: "?tx = encode ms" "\<forall>m\<in>set ms. sendable m" "typed_ok (nt_typed n ?fd) (sc_stdin u) ms"
    and up: "up_link log ?fd ?tx (nt_up n ?fd) (view c)"
    using assms(1) by (auto simp: link_def says_def Let_def)
  have t: "typed_messages (nt_typed n ?fd) = ms @ typed_messages (sc_stdin u)"
    using ms(3) ti by (simp add: typed_ok_def)
  have "\<forall>m\<in>set (typed_messages (nt_typed n ?fd)). NUL \<notin> set m" using ti typed_messages_no_nul by blast
  then have "map cstr ms = ms" using t by (intro map_idI cstr_id) simp
  obtain r where r: "?tx = r @ nt_up n ?fd" "map cstr (fst (messages r)) = texts_of ?fd log"
    using up by (auto simp: up_link_def)
  have "messages (encode ms) = (ms, [])" using ms(2) sendable_no_crlf by (intro messages_of_encode) blast
  then obtain ns where ns: "fst (messages r) @ ns = ms" "nt_up n ?fd = [] \<longrightarrow> ns = []"
    using messages_append[of r "nt_up n ?fd"] r(1) ms(1) messages_rest[of r] by (cases "nt_up n ?fd = []") auto
  have "texts_of ?fd log @ map cstr ns = ms" using r(2) ns(1) \<open>map cstr ms = ms\<close> by (metis map_append)
  then show ?thesis unfolding sofar_def t
    using ns(2) by (intro exI[of _ "map cstr ns @ typed_messages (sc_stdin u)"]) auto
qed

text \<open>From the log onto the screen.\<close>

lemma link_screen:
  assumes "link n log c u" and "\<forall>e\<in>set log. entry_ok e"
  shows "sofar (stdout_of (sc_trace u)) (concat (map (display_of (sock_fd c)) log)) (nt_down n (sock_fd c) = [])"
proof -
  let ?fd = "sock_fd c" and ?ls = "concat (map (lines_to (sock_fd c)) log)"
  obtain r where r: "handed_log log ?fd = r @ nt_down n ?fd" "stdout_of (sc_trace u) = concat (map screen (fst (messages r)))"
    using assms(1) by (auto simp: link_def down_link_def Let_def)
  have "\<forall>m\<in>set ?ls. no_crlf m" using assms(2) lines_to_ok(1) by auto
  then have "messages (r @ nt_down n ?fd) = (?ls, [])"
    unfolding r(1)[symmetric] handed_log_encode by (rule messages_of_encode)
  then obtain ns where ns: "fst (messages r) @ ns = ?ls" "nt_down n ?fd = [] \<longrightarrow> ns = []"
    using messages_append[of r "nt_down n ?fd"] messages_rest[of r] by (cases "nt_down n ?fd = []") auto
  have "stdout_of (sc_trace u) @ concat (map screen ns) = concat (map screen ?ls)"
    unfolding r(2) ns(1)[symmetric] by simp
  then show ?thesis unfolding sofar_def screen_log[OF assms(2), symmetric]
    using ns(2) by (intro exI[of _ "concat (map screen ns)"]) auto
qed

text \<open>Neither receive buffer ever holds more than a part of one message.\<close>

lemma link_room:
  assumes "link n log c u" and "\<forall>e\<in>set log. entry_ok e"
  shows "length (view c) \<le> MAX_USER_MSG + 1" and "length (client_view u) \<le> MAX_NAME + MAX_USER_MSG + 1"
proof -
  let ?fd = "sock_fd c" and ?tx = "sent_to (sc_fd u) (sc_trace u)"
  obtain ms r where "?tx = encode ms" "\<forall>m\<in>set ms. sendable m" "?tx = r @ nt_up n ?fd" "snd (messages r) = view c"
    using assms(1) by (auto simp: link_def says_def up_link_def Let_def)
  then show "length (view c) \<le> MAX_USER_MSG + 1"
    using encode_rest_short[of ms r "nt_up n ?fd" MAX_USER_MSG] sendable_no_crlf by (auto simp: sendable_def)
  obtain q where "handed_log log ?fd = q @ nt_down n ?fd" "snd (messages q) = client_view u"
    using assms(1) by (auto simp: link_def down_link_def Let_def)
  moreover have "\<forall>m\<in>set (concat (map (lines_to ?fd) log)). no_crlf m \<and> length m \<le> MAX_NAME + MAX_USER_MSG"
    using assms(2) lines_to_ok[of _ _ ?fd] by (auto simp del: One_nat_def)
  ultimately show "length (client_view u) \<le> MAX_NAME + MAX_USER_MSG + 1"
    using encode_rest_short[of "concat (map (lines_to ?fd) log)" q "nt_down n ?fd" "MAX_NAME + MAX_USER_MSG"]
      unfolding handed_log_encode by metis
qed

text \<open>
  The network has come to the history \<open>h\<close>: its members are the users; what a user has said in
  it are the messages in the bytes that the server has taken from him; these are what he has
  typed so far, and his screen is what the history shows him so far.
\<close>

definition chat_so_far :: "network \<Rightarrow> happening list \<Rightarrow> bool" where
  "chat_so_far n h \<longleftrightarrow> happens_ok [] h \<and> set (members h) = dom (nt_users n) \<and>
     (\<forall>fd u. nt_users n fd = Some u \<longrightarrow>
        (\<exists>r. sent_to (sc_fd u) (sc_trace u) = r @ nt_up n fd \<and> said fd h = map cstr (fst (messages r))) \<and>
        (text_input (nt_typed n fd) \<longrightarrow>
           sofar (said fd h) (typed_messages (nt_typed n fd)) (sc_stdin u = [] \<and> nt_up n fd = [])) \<and>
        sofar (stdout_of (sc_trace u)) (concat (map (display_of fd) (chat_log h))) (nt_down n fd = []))"

lemma net_ok_so_far:
  assumes ok: "net_ok l n h xs"
  shows "chat_so_far n h"
proof -
  have e: "\<forall>e\<in>set (chat_log h). entry_ok e" using net_entry_ok[OF ok] by blast
  have "(\<exists>r. sent_to (sc_fd u) (sc_trace u) = r @ nt_up n fd \<and> said fd h = map cstr (fst (messages r))) \<and>
    (text_input (nt_typed n fd) \<longrightarrow>
       sofar (said fd h) (typed_messages (nt_typed n fd)) (sc_stdin u = [] \<and> nt_up n fd = [])) \<and>
    sofar (stdout_of (sc_trace u)) (concat (map (display_of fd) (chat_log h))) (nt_down n fd = [])"
    if u: "nt_users n fd = Some u" for fd u
  proof -
    obtain a c where c: "sock_fd c = fd" "link n (chat_log h) c u" by (rule net_user[OF ok u])
    then have "up_link (chat_log h) fd (sent_to (sc_fd u) (sc_trace u)) (nt_up n fd) (view c)"
      by (simp add: link_def Let_def)
    then obtain r where "sent_to (sc_fd u) (sc_trace u) = r @ nt_up n fd" "said fd h = map cstr (fst (messages r))"
      by (auto simp: texts_of_log up_link_def)
    then show ?thesis using link_typed[OF c(2)] link_screen[OF c(2) e] unfolding texts_of_log c(1) by blast
  qed
  moreover have "happens_ok [] h" "set (members h) = dom (nt_users n)" using ok by (simp_all add: net_ok_def)
  ultimately show ?thesis unfolding chat_so_far_def by blast
qed

text \<open>A run of the network continues its history.\<close>

lemma net_reaches_order:
  assumes "net_reaches l n" and "(net_step l)\<^sup>*\<^sup>* n n'"
  shows "\<exists>h h'. chat_so_far n h \<and> chat_so_far n' (h @ h')"
proof -
  obtain h xs where ok: "net_ok l n h xs" using net_reaches_ok assms(1) by blast
  then obtain h' xs' where "net_ok l n' (h @ h') xs'" using net_run_ok assms(2) by blast
  then show ?thesis using net_ok_so_far ok by blast
qed

lemma net_reaches_room:
  assumes "net_reaches l n"
  shows "\<exists>xs. server_ok l (nt_server n) xs \<and> (\<forall>x\<in>set xs. cl_inbuf (snd x) \<le> MAX_USER_MSG + 1) \<and>
    (\<forall>fd u. nt_users n fd = Some u \<longrightarrow> sc_inbuf u \<le> MAX_NAME + MAX_USER_MSG + 1)"
proof -
  obtain h xs where ok: "net_ok l n h xs" using net_reaches_ok assms by blast
  have e: "\<forall>e\<in>set (chat_log h). entry_ok e" using net_entry_ok[OF ok] by blast
  have sv: "server_ok l (nt_server n) xs" using ok by (simp add: net_ok_def)
  have "cl_inbuf c \<le> MAX_USER_MSG + 1" if x: "(a, c) \<in> set xs" for a c
  proof -
    obtain u where u: "link n (chat_log h) c u" using net_client[OF ok x] by blast
    have "peer_ok c" using sv x by (force simp: server_ok_def)
    then show ?thesis using link_room(1)[OF u e] by (simp add: peer_ok_def buffer_ok_def buffer_view_def)
  qed
  moreover have "sc_inbuf u \<le> MAX_NAME + MAX_USER_MSG + 1" if u: "nt_users n fd = Some u" for fd u
  proof -
    obtain a c where c: "link n (chat_log h) c u" using net_user[OF ok u] by blast
    then have "client_ok u" by (simp add: link_def user_ok_def Let_def)
    then show ?thesis using link_room(2)[OF c e] by (simp add: client_ok_def buffer_ok_def buffer_view_def)
  qed
  ultimately show ?thesis using sv by (intro exI[of _ xs]) auto
qed

section \<open>Everything can be delivered\<close>

text \<open>
  A user's next line can be sent, the server can take the next byte of a client, and a client
  that has nothing left to send the next byte of the server. None of these steps undoes what
  the others do, in this order.
\<close>

lemma user_can_type:
  assumes "user_ok u" and "text_input (sc_stdin u)" and "sc_stdin u \<noteq> []"
  shows "\<exists>u'. client_pass False (Ready_Fds True None) u = Some (Chatting u') \<and> length (sc_stdin u') < length (sc_stdin u)"
proof -
  obtain l r where s: "sc_stdin u = l @ LF # r" "LF \<notin> set l" "NUL \<notin> set l"
    by (rule text_input_cases[OF assms(2,3)])
  have t: "typing u" using assms(1) by (simp add: user_ok_def)
  show ?thesis
  proof (cases "length l \<le> MAX_USER_MSG")
    case True
    then show ?thesis using pass_line[OF t s True] s(1) by (simp add: sent_def)
  next
    case False
    then show ?thesis using pass_chunk[OF t s] s(1) by (simp add: sent_def)
  qed
qed

lemma net_room:
  assumes ok: "net_ok l n h xs" and x: "(a, c) \<in> set xs"
  shows "cl_inbuf c < BUF_SIZE - 1"
proof -
  have e: "\<forall>e\<in>set (chat_log h). entry_ok e" using net_entry_ok[OF ok] by blast
  obtain u where u: "link n (chat_log h) c u" using net_client[OF ok x] by blast
  have "peer_ok c" using ok x by (force simp: net_ok_def server_ok_def)
  then show ?thesis using link_room(1)[OF u e] by (simp add: peer_ok_def buffer_ok_def buffer_view_def)
qed

lemma user_can_send:
  assumes "net_reaches l n" and u: "nt_users n fd = Some u" "text_input (nt_typed n fd)" "sc_stdin u \<noteq> []"
  shows "\<exists>n' u'. net_step l n n' \<and> nt_users n' = (nt_users n)(fd \<mapsto> u') \<and> nt_typed n' = nt_typed n \<and>
    length (sc_stdin u') < length (sc_stdin u)"
proof -
  obtain h ys where ok: "net_ok l n h ys" using net_reaches_ok assms(1) by blast
  obtain a c where c: "sock_fd c = fd" "link n (chat_log h) c u" by (rule net_user[OF ok u(1)])
  then have "user_ok u" "text_input (sc_stdin u)" using u(2) by (auto simp: link_def Let_def says_def typed_ok_def)
  then obtain u' where p: "client_pass False (Ready_Fds True None) u = Some (Chatting u')"
      "length (sc_stdin u') < length (sc_stdin u)" using user_can_type u(3) by blast
  have rd: "read_from (BUF_SIZE - sc_inbuf u - 1) (nt_down n fd) None (nt_down n fd)" by simp
  show ?thesis by (rule exI, rule exI[of _ u'], intro conjI, rule user_step[OF u(1) rd _ p(1)]) (simp_all add: p(2))
qed

lemma server_can_read:
  assumes "net_reaches l n" and u: "nt_users n fd = Some u" and up: "nt_up n fd = b # rest"
  shows "\<exists>n'. net_step l n n' \<and> nt_users n' = nt_users n \<and> nt_typed n' = nt_typed n \<and> nt_up n' = (nt_up n)(fd := rest)"
proof -
  obtain h xs where ok: "net_ok l n h xs" using net_reaches_ok assms(1) by blast
  then have sv: "server_ok l (nt_server n) xs" and w: "writes_ok (sv_writes (nt_server n))" by (simp_all add: net_ok_def)
  have fd: "fd \<in> set (fds xs)" using ok u by (auto simp: net_ok_def)
  then have nl: "fd \<noteq> l" "fd \<in> all_fds (nt_server n)" using sv unfolding server_ok_def by auto
  let ?i = "\<lparr>listen_fds = {fd}, accept_reply = -1, read_replies = (\<lambda>_. Read_Bytes [b]), strdup_ok = (\<lambda>_. True)\<rparr>"
  have "room_for (nt_server n) fd [b]"
  proof -
    have "xs' = xs" if "rep (sv_clients (nt_server n), sv_heap (nt_server n)) xs'" for xs'
      using rep_unique[OF that] sv by (simp add: server_ok_def)
    moreover have "1 \<le> BUF_SIZE - cl_inbuf (snd x) - 1" if "x \<in> set xs" for x
      using net_room[OF ok, of "fst x" "snd x"] that by simp
    ultimately show ?thesis unfolding room_for_def by simp
  qed
  then have r: "round_ok l n ?i" using nl up by (simp add: round_ok_def)
  have "input_ok l (nt_server n) (Ready ?i)" using nl by simp
  then obtain s' where s: "server_round l (Ready ?i) (nt_server n) = Some (Serving s')"
    using server_round_spec[OF sv writes_ok_no_disconnect[OF w]] by blast
  show ?thesis
    by (intro exI conjI, rule server_step[OF r s, of 0 "[]"]) (use nl in \<open>auto simp: arrived_def up\<close>)
qed

lemma client_can_read:
  assumes "net_reaches l n" and u: "nt_users n fd = Some u" and down: "nt_down n fd = b # rest"
    and idle: "sc_stdin u = []"
  shows "\<exists>n' u'. net_step l n n' \<and> nt_users n' = (nt_users n)(fd \<mapsto> u') \<and> nt_typed n' = nt_typed n \<and>
    nt_up n' = nt_up n \<and> nt_down n' = (nt_down n)(fd := rest) \<and> sc_stdin u' = []"
proof -
  obtain xs where "sc_inbuf u \<le> MAX_NAME + MAX_USER_MSG + 1" using net_reaches_room[OF assms(1)] u by blast
  then have room: "length [b] \<le> BUF_SIZE - sc_inbuf u - 1" by simp
  obtain h ys where ok: "net_ok l n h ys" using net_reaches_ok assms(1) by blast
  obtain a c where "link n (chat_log h) c u" using net_user[OF ok u] by blast
  then have uo: "user_ok u" by (simp add: link_def Let_def)
  then have nu: "\<not> has_unread_data u" using idle by (simp add: user_ok_def)
  obtain u' where r: "read_server (Read_Bytes [b]) u = Chatting u'"
    using read_server_spec[of u "[b]"] uo room by (auto simp: user_ok_def)
  obtain es where es: "sc_stdin u' = []" "sc_trace u' = sc_trace u @ es" "sent_to (sc_fd u) es = []"
    using read_server_effect[OF uo _ room r] idle by auto
  have d: "u\<lparr>disconnect_client := False\<rparr> = u" "\<not> disconnect_client u" using uo by (simp_all add: user_ok_def)
  have p: "client_pass False (Ready_Fds False (Some (Read_Bytes [b]))) u = Some (Chatting u')"
    using nu r by (simp add: client_pass_def socket_phase_def d)
  have rd: "read_from (BUF_SIZE - sc_inbuf u - 1) (nt_down n fd) (Some (Read_Bytes [b])) rest" using down room by simp
  have sk: "Some (Read_Bytes [b]) \<noteq> None \<longrightarrow> \<not> skips_socket False u" using nu by (simp add: skips_socket_def)
  show ?thesis
    by (rule exI, rule exI[of _ u'], intro conjI, rule user_step[OF u rd sk p]) (simp_all add: es)
qed

text \<open>What is still to be done, in a network with finitely many users.\<close>

definition left_to :: "network \<Rightarrow> (chat_client \<Rightarrow> int \<Rightarrow> nat) \<Rightarrow> nat" where
  "left_to n f = (\<Sum>fd\<in>dom (nt_users n). f (the (nt_users n fd)) fd)"

definition work :: "network \<Rightarrow> nat \<times> nat \<times> nat" where
  "work n = (left_to n (\<lambda>u fd. length (sc_stdin u)), left_to n (\<lambda>u fd. length (nt_up n fd)),
     left_to n (\<lambda>u fd. length (nt_down n fd)))"

definition less_work :: "(network \<times> network) set" where
  "less_work = inv_image (less_than <*lex*> less_than <*lex*> less_than) work"

lemma wf_less_work: "wf less_work"
  by (simp add: less_work_def wf_inv_image wf_lex_prod)

lemma left_to_less:
  assumes "finite (dom (nt_users n))" and "dom (nt_users n') = dom (nt_users n)" and "fd \<in> dom (nt_users n)"
    and "g (the (nt_users n' fd)) fd < f (the (nt_users n fd)) fd"
    and "\<And>x. x \<noteq> fd \<Longrightarrow> g (the (nt_users n' x)) x = f (the (nt_users n x)) x"
  shows "left_to n' g < left_to n f"
  unfolding left_to_def assms(2)
proof (rule sum_strict_mono_ex1[OF assms(1)])
  show "\<forall>x\<in>dom (nt_users n). g (the (nt_users n' x)) x \<le> f (the (nt_users n x)) x"
    using assms(4,5) by (metis less_imp_le_nat order_refl)
qed (use assms(3,4) in blast)

lemma left_to_same:
  assumes "dom (nt_users n') = dom (nt_users n)"
    and "\<And>x. x \<in> dom (nt_users n) \<Longrightarrow> g (the (nt_users n' x)) x = f (the (nt_users n x)) x"
  shows "left_to n' g = left_to n f"
  unfolding left_to_def assms(1) using assms(2) by (intro sum.cong) simp_all

definition quiet :: "network \<Rightarrow> bool" where
  "quiet n \<longleftrightarrow> (\<forall>fd u. nt_users n fd = Some u \<longrightarrow> sc_stdin u = [] \<and> nt_up n fd = [] \<and> nt_down n fd = [])"

lemma net_advances:
  assumes "net_reaches l n" and tx: "\<forall>fd\<in>dom (nt_users n). text_input (nt_typed n fd)" and "\<not> quiet n"
  shows "\<exists>n'. net_step l n n' \<and> dom (nt_users n') = dom (nt_users n) \<and> nt_typed n' = nt_typed n \<and> (n', n) \<in> less_work"
proof -
  obtain h xs where "net_ok l n h xs" using net_reaches_ok assms(1) by blast
  then have fin: "finite (dom (nt_users n))" by (simp add: net_ok_def)
  consider (typing) fd u where "nt_users n fd = Some u" "sc_stdin u \<noteq> []"
    | (up) fd u b bs where "nt_users n fd = Some u" "nt_up n fd = b # bs"
    | (down) fd u b bs where "nt_users n fd = Some u" "nt_down n fd = b # bs" "sc_stdin u = []"
    using assms(3) unfolding quiet_def by (metis neq_Nil_conv)
  then show ?thesis
  proof cases
    case typing
    then obtain n' u' where n': "net_step l n n'" "nt_users n' = (nt_users n)(fd \<mapsto> u')" "nt_typed n' = nt_typed n"
        "length (sc_stdin u') < length (sc_stdin u)"
      using user_can_send[OF assms(1)] tx by (metis domI)
    have d: "dom (nt_users n') = dom (nt_users n)" using n'(2) typing by auto
    have "left_to n' (\<lambda>u fd. length (sc_stdin u)) < left_to n (\<lambda>u fd. length (sc_stdin u))"
      by (rule left_to_less[OF fin d, of fd]) (use typing n' in auto)
    then have "(n', n) \<in> less_work" by (simp add: less_work_def work_def)
    then show ?thesis using n'(1,3) d by blast
  next
    case up
    then obtain n' where n': "net_step l n n'" "nt_users n' = nt_users n" "nt_typed n' = nt_typed n"
        "nt_up n' = (nt_up n)(fd := bs)" using server_can_read[OF assms(1)] by blast
    have "left_to n' (\<lambda>u fd. length (nt_up n' fd)) < left_to n (\<lambda>u fd. length (nt_up n fd))"
      by (rule left_to_less[OF fin, of _ fd]) (use up n' in auto)
    moreover have "left_to n' (\<lambda>u fd. length (sc_stdin u)) = left_to n (\<lambda>u fd. length (sc_stdin u))"
      using n'(2) by (simp add: left_to_def)
    ultimately have "(n', n) \<in> less_work" by (simp add: less_work_def work_def)
    then show ?thesis using n'(1-3) by metis
  next
    case down
    then obtain n' u' where n': "net_step l n n'" "nt_users n' = (nt_users n)(fd \<mapsto> u')" "nt_typed n' = nt_typed n"
        "nt_up n' = nt_up n" "nt_down n' = (nt_down n)(fd := bs)" "sc_stdin u' = []"
      using client_can_read[OF assms(1)] by blast
    have d: "dom (nt_users n') = dom (nt_users n)" using n'(2) down by auto
    have "left_to n' (\<lambda>u fd. length (nt_down n' fd)) < left_to n (\<lambda>u fd. length (nt_down n fd))"
      by (rule left_to_less[OF fin d, of fd]) (use down n' in auto)
    moreover have "left_to n' (\<lambda>u fd. length (sc_stdin u)) = left_to n (\<lambda>u fd. length (sc_stdin u))"
      by (rule left_to_same[OF d]) (use down n' in auto)
    moreover have "left_to n' (\<lambda>u fd. length (nt_up n' fd)) = left_to n (\<lambda>u fd. length (nt_up n fd))"
      by (rule left_to_same[OF d]) (use n' in auto)
    ultimately have "(n', n) \<in> less_work" by (simp add: less_work_def work_def)
    then show ?thesis using n'(1,3) d by blast
  qed
qed

lemma net_delivers:
  assumes "net_reaches l n" and "\<forall>fd\<in>dom (nt_users n). text_input (nt_typed n fd)"
  shows "\<exists>n'. (net_step l)\<^sup>*\<^sup>* n n' \<and> dom (nt_users n') = dom (nt_users n) \<and> nt_typed n' = nt_typed n \<and> quiet n'"
  using wf_less_work assms
proof (induction n rule: wf_induct_rule)
  case (less n)
  show ?case
  proof (cases "quiet n")
    case False
    then obtain n1 where n1: "net_step l n n1" "dom (nt_users n1) = dom (nt_users n)" "nt_typed n1 = nt_typed n"
        "(n1, n) \<in> less_work" using net_advances less.prems by blast
    have "net_reaches l n1" using less.prems(1) n1(1) by (rule net_next)
    then obtain n' where "(net_step l)\<^sup>*\<^sup>* n1 n'" "dom (nt_users n') = dom (nt_users n1)" "nt_typed n' = nt_typed n1" "quiet n'"
      using less.IH[OF n1(4)] less.prems(2) n1(2,3) by auto
    then show ?thesis using n1 by (metis converse_rtranclp_into_rtranclp)
  qed blast
qed

text \<open>In a quiet network, all that was typed has been said, and all screens are complete.\<close>

lemma quiet_complete:
  assumes "chat_so_far n h" and "quiet n" and "nt_users n fd = Some u"
  shows "text_input (nt_typed n fd) \<Longrightarrow> said fd h = typed_messages (nt_typed n fd)"
    and "stdout_of (sc_trace u) = concat (map (display_of fd) (chat_log h))"
  using assms unfolding chat_so_far_def quiet_def sofar_def by (metis append_Nil2)+

lemma net_run_complete:
  assumes "net_reaches l n" and "\<forall>fd\<in>dom (nt_users n). text_input (nt_typed n fd)"
  shows "\<exists>n' h h'. (net_step l)\<^sup>*\<^sup>* n n' \<and> dom (nt_users n') = dom (nt_users n) \<and>
    chat_so_far n h \<and> chat_so_far n' (h @ h') \<and>
    (\<forall>fd u. nt_users n' fd = Some u \<longrightarrow> sc_stdin u = [] \<and> nt_up n' fd = [] \<and> nt_down n' fd = [] \<and>
       said fd (h @ h') = typed_messages (nt_typed n fd) \<and>
       stdout_of (sc_trace u) = concat (map (display_of fd) (chat_log (h @ h'))))"
proof -
  obtain n' where n': "(net_step l)\<^sup>*\<^sup>* n n'" "dom (nt_users n') = dom (nt_users n)" "nt_typed n' = nt_typed n" "quiet n'"
    using net_delivers[OF assms] by blast
  obtain h h' where h: "chat_so_far n h" "chat_so_far n' (h @ h')" using net_reaches_order[OF assms(1) n'(1)] by blast
  have "sc_stdin u = [] \<and> nt_up n' fd = [] \<and> nt_down n' fd = [] \<and>
      said fd (h @ h') = typed_messages (nt_typed n fd) \<and>
      stdout_of (sc_trace u) = concat (map (display_of fd) (chat_log (h @ h')))"
    if u: "nt_users n' fd = Some u" for fd u
  proof -
    have "text_input (nt_typed n' fd)" using u n'(2,3) assms(2) by (metis domI)
    then show ?thesis using quiet_complete[OF h(2) n'(4) u] n'(3,4) u unfolding quiet_def by simp
  qed
  then show ?thesis using n'(1,2) h by blast
qed

end
