(* ===== verification/Builtin_Echo.thy ===== *)
theory Builtin_Echo
  imports Expand
begin

text \<open>
  \<open>bn_echo\<close> of src/src/builtins.c. A token array is the list of its tokens: entry \<open>i\<close> past
  the end of the list is the terminating NULL. A builtin returns its \<open>ssize_t\<close> result and
  its events. Every token is expanded once more here, although \<open>main\<close> has already expanded
  the tokens that hold a dollar sign.
\<close>

fun echo_loop :: "var_list \<Rightarrow> string list \<Rightarrow> text_buf \<Rightarrow> text_buf checked" where
  "echo_loop vs [] b = Some b"
| "echo_loop vs (t # ts) b =
     (if room b < 1 then Some b
      else do {
        v \<leftarrow> expand_variables vs (Some t);
        b \<leftarrow> append_dec v b;
        b \<leftarrow> (if ts \<noteq> [] then append_dec '' '' b else Some b);
        echo_loop vs ts b
      })"

definition bn_echo :: "var_list \<Rightarrow> string list \<Rightarrow> (int \<times> event list) checked" where
  "bn_echo vs tokens =
     (case tokens of
        [] \<Rightarrow> Some (-1, [])
      | _ # args \<Rightarrow>
          do {
            b \<leftarrow> echo_loop vs args empty_buf;
            Some (0, display_message (content b) @ display_message [LF])
          })"

section \<open>Lemmas\<close>

text \<open>The text echo means to print.\<close>

definition echo_text :: "var_list \<Rightarrow> string list \<Rightarrow> string" where
  "echo_text vs args =
     join '' '' (map (\<lambda>t. take MAX_STR_LEN (expand_ref (\<lambda>k. find_val_with_key k vs) t)) args)"

lemma echo_text_Cons:
  "echo_text vs (t # ts) = take MAX_STR_LEN (expand_ref (\<lambda>k. find_val_with_key k vs) t) @
     (if ts = [] then [] else '' '' @ echo_text vs ts)"
  by (simp add: echo_text_def join_Cons)

lemma echo_loop_text:
  assumes "echo_loop vs ts b = Some b'" and "buf_ok b" and "vars_ok vs"
  shows "content b' = take MAX_STR_LEN (content b @ echo_text vs ts)"
  using assms
proof (induction ts arbitrary: b)
  case Nil
  then show ?case by (simp add: echo_text_def buf_ok_def)
next
  case (Cons t ts)
  show ?case
  proof (cases "room b < 1")
    case True
    then show ?thesis using Cons.prems buf_full by auto
  next
    case False
    let ?v = "take MAX_STR_LEN (expand_ref (\<lambda>k. find_val_with_key k vs) t)"
    obtain b1 b2 where b1: "append_dec ?v b = Some b1"
      and b2: "(if ts \<noteq> [] then append_dec '' '' b1 else Some b1) = Some b2"
      and r: "echo_loop vs ts b2 = Some b'"
      using Cons.prems(1,3) False vars.expansion_text
      by (auto simp: expand_variables_def split: Option.bind_splits if_splits)
    have ok1: "buf_ok b1" using b1 Cons.prems(2) by (rule append_dec_ok[rotated])
    have ok2: "buf_ok b2" using b2 ok1 append_dec_ok by (auto split: if_splits)
    have "content b' = take 128 (content b2 @ echo_text vs ts)" using Cons.IH[OF r ok2 Cons.prems(3)] .
    also have "\<dots> = take 128 (content b1 @ (if ts = [] then [] else '' '' @ echo_text vs ts))"
      using b2 ok1 by (auto simp: echo_text_def append_dec_contents simp del: take_append split: if_splits)
    also have "\<dots> = take 128 (content b @ echo_text vs (t # ts))"
      using b1 Cons.prems(2) by (simp add: append_dec_contents echo_text_Cons del: take_append)
    finally show ?thesis .
  qed
qed

lemma echo_loop_fits:
  assumes "vars_ok vs" and "buf_ok b"
    and "\<forall>t\<in>set ts. pieces_ok t \<and> length (expand_ref (\<lambda>k. find_val_with_key k vs) t) \<le> MAX_STR_LEN"
    and "length (content b) + length (echo_text vs ts) \<le> MAX_STR_LEN"
  shows "\<exists>b'. echo_loop vs ts b = Some b'"
  using assms
proof (induction ts arbitrary: b)
  case (Cons t ts)
  let ?v = "expand_ref (\<lambda>k. find_val_with_key k vs) t"
  have v: "expand_with (\<lambda>k. find_val_with_key k vs) t = Some ?v"
    by (rule vars.expansion_fits) (use Cons.prems in auto)
  have len: "length (content b) + length ?v + (if ts = [] then 0 else 1 + length (echo_text vs ts)) \<le> 128"
    using Cons.prems(3,4) by (auto simp: echo_text_Cons split: if_splits)
  obtain b1 where b1: "append_dec ?v b = Some b1" "content b1 = content b @ ?v"
    using append_dec_fits[OF Cons.prems(2), of ?v] len by (auto split: if_splits)
  have ok1: "buf_ok b1" using append_dec_ok[OF Cons.prems(2) b1(1)] .
  obtain b2 where b2: "(if ts \<noteq> [] then append_dec '' '' b1 else Some b1) = Some b2"
    "length (content b2) + length (echo_text vs ts) \<le> 128"
    using append_dec_fits[OF ok1, of "'' ''"] b1(2) len by (auto simp: echo_text_def split: if_splits)
  have ok2: "buf_ok b2" using b2 ok1 append_dec_ok by (auto split: if_splits)
  have "\<exists>b'. echo_loop vs ts b2 = Some b'"
    by (rule Cons.IH) (use Cons.prems ok2 b2 in auto)
  then show ?case using v b1 b2 by (auto simp: expand_variables_def)
qed simp

lemma bn_echo_output:
  assumes "vars_ok vs" and "bn_echo vs (cmd # args) = Some (r, es)"
  shows "r = 0 \<and> stdout_of es = take MAX_STR_LEN (echo_text vs args) @ [LF]"
  using assms echo_loop_text[of vs args empty_buf]
  by (auto simp: bn_echo_def split: Option.bind_splits)

lemma bn_echo_fits:
  assumes "vars_ok vs"
    and "\<forall>t\<in>set args. pieces_ok t \<and> length (expand_ref (\<lambda>k. find_val_with_key k vs) t) \<le> MAX_STR_LEN"
    and "length (echo_text vs args) \<le> MAX_STR_LEN"
  shows "\<exists>es. bn_echo vs (cmd # args) = Some (0, es) \<and> stdout_of es = echo_text vs args @ [LF]"
proof -
  obtain b where "echo_loop vs args empty_buf = Some b"
    using echo_loop_fits[OF assms(1) buf_ok_empty assms(2)] assms(3) by auto
  then show ?thesis using bn_echo_output[OF assms(1), of cmd args] assms(3) by (auto simp: bn_echo_def)
qed

lemma echo_text_plain:
  "\<forall>t\<in>set args. dollar \<notin> set t \<and> length t \<le> MAX_STR_LEN \<Longrightarrow> echo_text vs args = join '' '' args"
proof -
  assume "\<forall>t\<in>set args. dollar \<notin> set t \<and> length t \<le> MAX_STR_LEN"
  then have "map (\<lambda>t. take MAX_STR_LEN (expand_ref (\<lambda>k. find_val_with_key k vs) t)) args = args"
    by (intro map_idI) (simp add: expand_ref_plain)
  then show ?thesis by (simp add: echo_text_def)
qed

text \<open>
  The counter runs out exactly at the end of a token that fills the array: the separator
  wraps it, and the next token is written past the end.
\<close>

lemma bn_echo_overflow:
  assumes "expand_variables vs (Some t) = Some v" and "length v = MAX_STR_LEN"
    and "expand_variables vs (Some u) = Some w" and "w \<noteq> []"
  shows "bn_echo vs (cmd # t # u # us) = fault"
proof -
  have b1: "append_dec v empty_buf = Some \<lparr>content = v, room = 0\<rparr>"
    using append_dec_fits[of empty_buf v] assms(2) by simp
  have "append_dec '' '' \<lparr>content = v, room = 0\<rparr> = Some \<lparr>content = v, room = - 1\<rparr>"
    using assms(2) by (simp add: append_dec_Some)
  moreover have "append_dec w \<lparr>content = v, room = - 1\<rparr> = fault"
    by (rule append_dec_full_faults) (simp_all add: assms unsigned_minus_1_eq_mask mask_eq_exp_minus_1)
  moreover have "\<not> room empty_buf < 1" "\<not> (- 1 :: size_t) < 1" by simp_all
  ultimately show ?thesis using assms(1,3) b1 by (simp add: bn_echo_def)
qed

end
