(* ===== verification/Builtin_Ls.thy ===== *)
theory Builtin_Ls
  imports Expand C_Numbers
begin

text \<open>
  \<open>parse_ls\<close>, \<open>recursive_ls\<close> and \<open>bn_ls\<close> of src/src/builtins.c. The directories are an
  argument: the names that \<open>readdir\<close> returns for a path, in its order, or \<open>None\<close> when
  \<open>opendir\<close> fails. The recursion over the directories carries fuel; \<open>None\<close> is the answer of
  a traversal that has used it up, and \<open>recursive_ls_enough\<close> says how much is enough.
\<close>

record ls_info =
  path :: string
  has_path :: nat
  has_rec :: bool
  has_substring :: bool
  depth :: int
  has_depth :: bool
  substring :: string
  valid :: bool

definition ls_default :: ls_info where
  "ls_default = \<lparr>path = ''.'', has_path = 0, has_rec = False, has_substring = False,
                 depth = -1, has_depth = False, substring = [], valid = True\<rparr>"

definition opt_f :: string where "opt_f = ''--f''"
definition opt_d :: string where "opt_d = ''--d''"
definition opt_rec :: string where "opt_rec = ''--rec''"

text \<open>The token after \<open>--f\<close> must not be missing, empty or begin like an option.\<close>

definition not_substring :: "string \<Rightarrow> bool" where
  "not_substring u \<longleftrightarrow> u = [] \<or> strncmp_eq 3 u opt_f \<or> strncmp_eq 3 u opt_d \<or> strncmp_eq 5 u opt_rec"

definition ls_path_token :: "var_list \<Rightarrow> string \<Rightarrow> string checked" where
  "ls_path_token vs t =
     (if dollar \<in> set t \<and> length t \<ge> 2 then
        do { e \<leftarrow> expand_variables vs (Some t); Some (take MAX_STR_LEN e) }
      else Some (take MAX_STR_LEN t))"

text \<open>The loop over the tokens after the command; an option consumes its argument.\<close>

fun parse_ls_from :: "var_list \<Rightarrow> string list \<Rightarrow> ls_info \<Rightarrow> ls_info checked" where
  "parse_ls_from vs [] info = Some info"
| "parse_ls_from vs (t # ts) info =
     (if t = opt_f then
        (case ts of
           [] \<Rightarrow> Some (info\<lparr>valid := False\<rparr>)
         | u # us \<Rightarrow>
             if not_substring u then Some (info\<lparr>valid := False\<rparr>)
             else if has_substring info \<and> substring info \<noteq> u then Some (info\<lparr>valid := False\<rparr>)
             else parse_ls_from vs us (info\<lparr>substring := u, has_substring := True\<rparr>))
      else if t = opt_d then
        (case ts of
           [] \<Rightarrow> Some (info\<lparr>valid := False\<rparr>)
         | u # us \<Rightarrow>
             if \<exists>c\<in>set u. \<not> isdigit c then Some (info\<lparr>valid := False\<rparr>)
             else parse_ls_from vs us (info\<lparr>depth := atoi u, has_depth := True\<rparr>))
      else if t = opt_rec then parse_ls_from vs ts (info\<lparr>has_rec := True\<rparr>)
      else if has_path info > 0 then Some (info\<lparr>has_path := has_path info + 1, valid := False\<rparr>)
      else do {
        p \<leftarrow> ls_path_token vs t;
        parse_ls_from vs ts (info\<lparr>path := p, has_path := has_path info + 1\<rparr>)
      })"

definition parse_ls :: "var_list \<Rightarrow> string list \<Rightarrow> ls_info checked" where
  "parse_ls vs tokens = parse_ls_from vs (tl tokens) ls_default"

section \<open>Listing\<close>

type_synonym dirs = "string \<Rightarrow> string list option"

definition show_name :: "string \<Rightarrow> event list" where
  "show_name n = display_message n @ display_message [LF]"

fun concatM :: "('a \<Rightarrow> 'b list option) \<Rightarrow> 'a list \<Rightarrow> 'b list option" where
  "concatM f [] = Some []"
| "concatM f (x # xs) = do { ys \<leftarrow> f x; zs \<leftarrow> concatM f xs; Some (ys @ zs) }"

definition dot_name :: "string \<Rightarrow> bool" where
  "dot_name n \<longleftrightarrow> strncmp_eq 2 n ''.'' \<or> strncmp_eq 3 n ''..''"

definition matches :: "ls_info \<Rightarrow> string \<Rightarrow> bool" where
  "matches info n \<longleftrightarrow> (has_substring info \<longrightarrow> strstr (substring info) n)"

text \<open>
  One entry of a directory: its name if it passes the filter, then its own entries, which
  \<open>sub\<close> delivers, unless it is one of the two dot names.
\<close>

definition ls_entry :: "ls_info \<Rightarrow> (string \<Rightarrow> event list option) \<Rightarrow> string \<Rightarrow> event list option" where
  "ls_entry info sub n =
     do {
       es \<leftarrow> (if dot_name n then Some [] else sub n);
       Some ((if matches info n then show_name n else []) @ es)
     }"

fun recursive_ls :: "nat \<Rightarrow> dirs \<Rightarrow> string \<Rightarrow> ls_info \<Rightarrow> int \<Rightarrow> event list option" where
  "recursive_ls 0 os_dir p info remain_depth = None"
| "recursive_ls (Suc fuel) os_dir p info remain_depth =
     (if has_depth info \<and> remain_depth = 0 then Some []
      else
        let remain_depth = (if \<not> has_depth info then -1 else remain_depth) in
        case os_dir p of
          None \<Rightarrow> Some []
        | Some ns \<Rightarrow>
            do {
              es \<leftarrow> concatM (ls_entry info
                     (\<lambda>n. recursive_ls fuel os_dir (p @ ''/'' @ n) info (remain_depth - 1))) ns;
              Some ([Open p] @ es @ [Close_File])
            })"

text \<open>The builtin; the outer \<open>option\<close> is the fault of an expansion, the inner one the fuel.\<close>

definition bn_ls ::
  "nat \<Rightarrow> dirs \<Rightarrow> var_list \<Rightarrow> string list \<Rightarrow> (int \<times> event list) option checked" where
  "bn_ls fuel os_dir vs tokens =
     do {
       info \<leftarrow> parse_ls vs tokens;
       Some
        (if has_path info > 1
           then Some (-1, display_error ''ERROR: Too many arguments: ls takes a single path'' [])
         else if \<not> valid info then Some (-1, [])
         else if \<not> has_rec info \<and> has_depth info then Some (-1, [])
         else case os_dir (path info) of
           None \<Rightarrow> Some (-1, display_error ''ERROR: Invalid path'' [])
         | Some ns \<Rightarrow>
             if has_rec info then
               map_option (\<lambda>es. (0, [Open (path info)] @ es @ [Close_File]))
                 (recursive_ls fuel os_dir (path info) info (depth info))
             else Some (0, [Open (path info)] @ concat (map show_name (filter (matches info) ns)) @ [Close_File]))
     }"

section \<open>Lemmas on the parser\<close>

text \<open>Whatever the tokens, the record that comes back is safe to use.\<close>

definition info_ok :: "ls_info \<Rightarrow> bool" where
  "info_ok i \<longleftrightarrow> length (path i) \<le> MAX_STR_LEN \<and> (valid i \<longrightarrow> has_path i \<le> 1) \<and> has_path i \<le> 2 \<and>
     (has_substring i \<longrightarrow> substring i \<noteq> []) \<and> (has_depth i \<or> depth i = -1)"

lemma ls_path_token_length: "ls_path_token vs t = Some p \<Longrightarrow> length p \<le> MAX_STR_LEN"
  by (auto simp: ls_path_token_def split: if_splits Option.bind_splits)

lemma parse_ls_from_ok:
  "parse_ls_from vs ts info = Some i \<Longrightarrow> info_ok info \<Longrightarrow> valid info \<Longrightarrow> info_ok i"
proof (induction vs ts info rule: parse_ls_from.induct)
  case (2 vs t ts info)
  show ?case
    using "2.prems" "2.IH"
    by (simp split: if_splits list.splits Option.bind_splits;
        auto simp: info_ok_def not_substring_def dest: ls_path_token_length)
qed simp

lemma parse_ls_ok: "parse_ls vs tokens = Some i \<Longrightarrow> info_ok i"
  unfolding parse_ls_def by (drule parse_ls_from_ok) (auto simp: info_ok_def ls_default_def)

lemma parse_ls_plain_total:
  assumes "\<forall>t\<in>set ts. dollar \<notin> set t"
  shows "parse_ls_from vs ts info \<noteq> None"
  using assms
proof (induction vs ts info rule: parse_ls_from.induct)
  case (2 vs t ts info)
  then show ?case by (auto simp: ls_path_token_def split: list.splits)
qed simp

section \<open>Lemmas on the traversal\<close>

lemma concatM_mono:
  assumes "concatM f xs = Some ys" and "\<And>x zs. x \<in> set xs \<Longrightarrow> f x = Some zs \<Longrightarrow> g x = Some zs"
  shows "concatM g xs = Some ys"
  using assms by (induction xs arbitrary: ys) (auto split: Option.bind_splits)

lemma concatM_total: "(\<And>x. x \<in> set xs \<Longrightarrow> f x \<noteq> None) \<Longrightarrow> concatM f xs \<noteq> None"
proof (induction xs)
  case (Cons x xs)
  then have "f x \<noteq> None" "concatM f xs \<noteq> None" by auto
  then show ?case by auto
qed simp

lemma ls_entry_Some:
  "ls_entry info f n = Some zs \<longleftrightarrow>
     (\<exists>ws. (if dot_name n then Some [] else f n) = Some ws \<and>
       zs = (if matches info n then show_name n else []) @ ws)"
  by (auto simp: ls_entry_def split: Option.bind_splits)

lemma ls_entry_mono:
  "ls_entry info f n = Some zs \<Longrightarrow> (\<And>ws. \<not> dot_name n \<Longrightarrow> f n = Some ws \<Longrightarrow> g n = Some ws) \<Longrightarrow>
     ls_entry info g n = Some zs"
  by (auto simp: ls_entry_def split: if_splits Option.bind_splits)

lemma ls_entry_total: "(\<not> dot_name n \<Longrightarrow> f n \<noteq> None) \<Longrightarrow> ls_entry info f n \<noteq> None"
  by (auto simp: ls_entry_def)

text \<open>One directory: the equation of the traversal in the form the proofs use.\<close>

definition next_depth :: "ls_info \<Rightarrow> int \<Rightarrow> int" where
  "next_depth info d = (if has_depth info then d - 1 else -2)"

definition ls_dir :: "(string \<Rightarrow> event list option) \<Rightarrow> string \<Rightarrow> ls_info \<Rightarrow> string list \<Rightarrow> event list option" where
  "ls_dir sub p info ns = map_option (\<lambda>es. [Open p] @ es @ [Close_File]) (concatM (ls_entry info sub) ns)"

lemma recursive_ls_Suc:
  "recursive_ls (Suc fuel) os_dir p info d =
     (if has_depth info \<and> d = 0 then Some []
      else case os_dir p of None \<Rightarrow> Some []
      | Some ns \<Rightarrow> ls_dir (\<lambda>n. recursive_ls fuel os_dir (p @ ''/'' @ n) info (next_depth info d)) p info ns)"
  by (auto simp: ls_dir_def next_depth_def map_conv_bind_option comp_def split: option.splits)

declare recursive_ls.simps(2) [simp del]

lemma ls_dir_mono:
  assumes "ls_dir f p info ns = Some es"
    and "\<And>n ws. n \<in> set ns \<Longrightarrow> \<not> dot_name n \<Longrightarrow> f n = Some ws \<Longrightarrow> g n = Some ws"
  shows "ls_dir g p info ns = Some es"
proof -
  obtain fs where "concatM (ls_entry info f) ns = Some fs" "es = [Open p] @ fs @ [Close_File]"
    using assms(1) by (auto simp: ls_dir_def)
  moreover from this(1) have "concatM (ls_entry info g) ns = Some fs"
    by (rule concatM_mono) (blast intro: ls_entry_mono assms(2))
  ultimately show ?thesis by (simp add: ls_dir_def)
qed

lemma ls_dir_total: "(\<And>n. n \<in> set ns \<Longrightarrow> \<not> dot_name n \<Longrightarrow> f n \<noteq> None) \<Longrightarrow> ls_dir f p info ns \<noteq> None"
  using concatM_total[of ns "ls_entry info f"] ls_entry_total[of _ f info] by (auto simp: ls_dir_def)

text \<open>More fuel does not change the answer.\<close>

lemma recursive_ls_more:
  "recursive_ls fuel os_dir p info d = Some es \<Longrightarrow> recursive_ls (Suc fuel) os_dir p info d = Some es"
proof (induction fuel arbitrary: p d es)
  case (Suc fuel)
  then show ?case
    by (subst recursive_ls_Suc, subst (asm) (2) recursive_ls_Suc)
      (auto split: if_splits option.splits elim!: ls_dir_mono)
qed simp

text \<open>With a depth limit, as much fuel as levels and one more is enough, in any file system.\<close>

lemma recursive_ls_enough_depth:
  "has_depth info \<Longrightarrow> 0 \<le> d \<Longrightarrow> nat d < fuel \<Longrightarrow> recursive_ls fuel os_dir p info d \<noteq> None"
proof (induction fuel arbitrary: p d)
  case (Suc fuel)
  show ?case
  proof (cases "d = 0 \<or> os_dir p = None")
    case True
    then show ?thesis using Suc.prems(1) by (auto simp: recursive_ls_Suc split: option.splits)
  next
    case False
    then obtain ns where ns: "os_dir p = Some ns" "d \<noteq> 0" by auto
    have "recursive_ls fuel os_dir (p @ ''/'' @ n) info (next_depth info d) \<noteq> None" for n
      using Suc.prems ns by (intro Suc.IH) (auto simp: next_depth_def)
    then show ?thesis using ns ls_dir_total by (simp add: recursive_ls_Suc del: not_None_eq)
  qed
qed simp

text \<open>Without one, the height of the directory tree below the path is.\<close>

lemma recursive_ls_enough_height:
  assumes "\<And>q ns n. os_dir q = Some ns \<Longrightarrow> n \<in> set ns \<Longrightarrow> \<not> dot_name n \<Longrightarrow> height (q @ ''/'' @ n) < (height q :: nat)"
  shows "height p < fuel \<Longrightarrow> recursive_ls fuel os_dir p info d \<noteq> None"
proof (induction fuel arbitrary: p d)
  case (Suc fuel)
  show ?case
  proof (cases "os_dir p")
    case (Some ns)
    have "ls_dir (\<lambda>n. recursive_ls fuel os_dir (p @ ''/'' @ n) info (next_depth info d)) p info ns \<noteq> None"
    proof (rule ls_dir_total)
      fix n
      assume "n \<in> set ns" "\<not> dot_name n"
      then have "height (p @ ''/'' @ n) < height p" using assms Some by blast
      then show "recursive_ls fuel os_dir (p @ ''/'' @ n) info (next_depth info d) \<noteq> None"
        using Suc.prems by (intro Suc.IH) simp
    qed
    then show ?thesis using Some by (simp add: recursive_ls_Suc)
  qed (simp add: recursive_ls_Suc)
qed simp

section \<open>What is listed\<close>

text \<open>The names of the traversal in their order, without a filter.\<close>

fun ls_names :: "nat \<Rightarrow> dirs \<Rightarrow> string \<Rightarrow> bool \<Rightarrow> int \<Rightarrow> string list option" where
  "ls_names 0 os_dir p lim d = None"
| "ls_names (Suc fuel) os_dir p lim d =
     (if lim \<and> d = 0 then Some []
      else case os_dir p of
        None \<Rightarrow> Some []
      | Some ns \<Rightarrow> concatM (\<lambda>n. map_option ((#) n)
          (if dot_name n then Some []
           else ls_names fuel os_dir (p @ ''/'' @ n) lim (if lim then d - 1 else d))) ns)"

definition name_line :: "string \<Rightarrow> string" where
  "name_line n = take MAX_STR_LEN n @ [LF]"

lemma stdout_show_name [simp]: "stdout_of (show_name n) = name_line n"
  by (simp add: show_name_def name_line_def)

lemma stdout_show_names: "stdout_of (concat (map show_name ns)) = concat (map name_line ns)"
  by (induction ns) auto

lemma ls_names_no_limit: "ls_names fuel os_dir p False d = ls_names fuel os_dir p False e"
  by (induction fuel arbitrary: p) (auto split: option.splits intro!: arg_cong2[of _ _ _ _ concatM])

lemma concatM_stdout:
  assumes "concatM f xs = Some es"
    and "\<And>x zs. x \<in> set xs \<Longrightarrow> f x = Some zs \<Longrightarrow>
      \<exists>ms. g x = Some ms \<and> stdout_of zs = concat (map name_line (filter P ms))"
  shows "\<exists>ms. concatM g xs = Some ms \<and> stdout_of es = concat (map name_line (filter P ms))"
  using assms
proof (induction xs arbitrary: es)
  case (Cons x xs)
  then obtain ys zs where yz: "f x = Some ys" "concatM f xs = Some zs" "es = ys @ zs"
    by (auto split: Option.bind_splits)
  obtain ms where "g x = Some ms" "stdout_of ys = concat (map name_line (filter P ms))"
    using Cons.prems(2)[of x ys] yz(1) by auto
  moreover obtain ks where "concatM g xs = Some ks" "stdout_of zs = concat (map name_line (filter P ks))"
    using Cons.IH[OF yz(2)] Cons.prems(2) by auto
  ultimately show ?case using yz(3) by auto
qed simp

text \<open>A filtered listing is the unfiltered one with the other names left out.\<close>

lemma recursive_ls_names:
  "recursive_ls fuel os_dir p info d = Some es \<Longrightarrow>
     \<exists>ms. ls_names fuel os_dir p (has_depth info) d = Some ms \<and>
       stdout_of es = concat (map name_line (filter (matches info) ms))"
proof (induction fuel arbitrary: p d es)
  case (Suc fuel)
  let ?d = "if has_depth info then d - 1 else d"
  let ?g = "\<lambda>n. if dot_name n then Some [] else ls_names fuel os_dir (p @ ''/'' @ n) (has_depth info) ?d"
  show ?case
  proof (cases "(has_depth info \<and> d = 0) \<or> os_dir p = None")
    case True
    then show ?thesis using Suc.prems by (auto simp: recursive_ls_Suc split: option.splits)
  next
    case False
    let ?f = "\<lambda>n. recursive_ls fuel os_dir (p @ ''/'' @ n) info (next_depth info d)"
    obtain ns fs where ns: "os_dir p = Some ns" and fs: "concatM (ls_entry info ?f) ns = Some fs"
      and es: "es = [Open p] @ fs @ [Close_File]"
      using Suc.prems False by (auto simp: recursive_ls_Suc ls_dir_def)
    have "\<exists>ms. concatM (\<lambda>n. map_option ((#) n) (?g n)) ns = Some ms \<and>
        stdout_of fs = concat (map name_line (filter (matches info) ms))"
    proof (rule concatM_stdout[OF fs])
      fix n zs
      assume "ls_entry info ?f n = Some zs"
      then obtain ws where ws: "(if dot_name n then Some [] else ?f n) = Some ws"
        and zs: "zs = (if matches info n then show_name n else []) @ ws"
        unfolding ls_entry_Some by blast
      have "\<exists>ks. ?g n = Some ks \<and> stdout_of ws = concat (map name_line (filter (matches info) ks))"
      proof (cases "dot_name n")
        case nodot: False
        then obtain ks where "ls_names fuel os_dir (p @ ''/'' @ n) (has_depth info) (next_depth info d) = Some ks"
          "stdout_of ws = concat (map name_line (filter (matches info) ks))"
          using Suc.IH[of "p @ ''/'' @ n" "next_depth info d" ws] ws by auto
        then show ?thesis
          using nodot ls_names_no_limit[of fuel os_dir "p @ ''/'' @ n" d "-2"]
          by (cases "has_depth info") (auto simp: next_depth_def)
      qed (use ws in simp)
      then obtain ks where "?g n = Some ks" "stdout_of ws = concat (map name_line (filter (matches info) ks))"
        by blast
      then show "\<exists>ms. map_option ((#) n) (?g n) = Some ms \<and>
          stdout_of zs = concat (map name_line (filter (matches info) ms))"
        using zs by (intro exI[of _ "n # ks"]) simp
    qed
    then show ?thesis using False ns es by auto
  qed
qed simp

text \<open>One level of the recursive listing is the plain listing.\<close>

lemma concatM_single: "concatM (\<lambda>n. Some [n]) ns = Some ns"
  by (induction ns) auto

lemma ls_names_depth_1: "os_dir p = Some ns \<Longrightarrow> ls_names (Suc (Suc fuel)) os_dir p True 1 = Some ns"
  using concatM_single[of ns] by (simp cong: if_cong)

end
