(* ===== verification/Jobs.thy ===== *)
theory Jobs
  imports Expand C_Numbers
begin

text \<open>
  The table of background processes (src/src/commands.c and commands.h) and the two
  builtins that read it, \<open>bn_ps\<close> and \<open>bn_kill\<close> (src/src/builtins.c).

  The table is two arrays of \<open>MAX_PROCESS\<close> entries. A slot of \<open>available_indices\<close> holds 1 when
  it is free, 0 while its process runs, 2 once it is done and 3 once it was killed. Several
  loops test \<open>available_indices[i] != 1\<close> before \<open>i < MAX_PROCESS\<close>: when no slot is free they
  read entry \<open>MAX_PROCESS\<close>, which is a fault. The processes that \<open>waitpid(-1, WNOHANG)\<close>
  reports, and whether a \<open>kill\<close> succeeds, are arguments.
\<close>

abbreviation MAX_PROCESS :: nat where "MAX_PROCESS \<equiv> 1000"

record bg_process =
  pid :: int
  job_num :: int
  command :: string
  is_running :: int

record job_table =
  bg_processes :: "bg_process list"
  available_indices :: "int list"

section \<open>The table\<close>

definition initialize_available_indices :: "job_table \<Rightarrow> job_table" where
  "initialize_available_indices j = j\<lparr>available_indices := replicate MAX_PROCESS 1\<rparr>"

text \<open>The zeroed globals, before and after the call that \<open>main\<close> makes first.\<close>

definition zero_process :: bg_process where
  "zero_process = \<lparr>pid = 0, job_num = 0, command = [], is_running = 0\<rparr>"

definition zero_table :: job_table where
  "zero_table = \<lparr>bg_processes = replicate MAX_PROCESS zero_process,
                 available_indices = replicate MAX_PROCESS 0\<rparr>"

function find_spot_from :: "nat \<Rightarrow> job_table \<Rightarrow> int" where
  "find_spot_from i j =
     (if i < MAX_PROCESS then
        if available_indices j ! i = 1 then int i else find_spot_from (Suc i) j
      else -1)"
  by pat_completeness auto
termination
  by (relation "measure (\<lambda>(i, j). MAX_PROCESS - i)") auto

declare find_spot_from.simps [simp del]

definition find_new_spot :: "job_table \<Rightarrow> int" where
  "find_new_spot j = find_spot_from 0 j"

definition add_bg_process :: "int \<Rightarrow> string \<Rightarrow> nat \<Rightarrow> job_table \<Rightarrow> (int \<times> job_table) checked" where
  "add_bg_process p cmd i j =
     do {
       require (i < MAX_PROCESS);
       Some (0, \<lparr>bg_processes = (bg_processes j)[i :=
                   \<lparr>pid = p, job_num = int i + 1, command = take (MAX_STR_LEN - 1) cmd, is_running = 1\<rparr>],
                 available_indices = (available_indices j)[i := 0]\<rparr>)
     }"

section \<open>Reporting the processes that are done\<close>

definition done_message :: "bg_process \<Rightarrow> event list" where
  "done_message p =
     display_message (snprintf (MAX_STR_LEN * 2)
       (''['' @ show_int (job_num p) @ '']+  Done '' @ command p @ [LF]))"

definition mark_done :: "nat \<Rightarrow> job_table \<Rightarrow> job_table" where
  "mark_done i j =
     \<lparr>bg_processes = (bg_processes j)[i := (bg_processes j ! i)\<lparr>is_running := 0\<rparr>],
      available_indices = (available_indices j)[i := 2]\<rparr>"

text \<open>
  Both reporting loops walk up from slot 0 to the first free one; \<open>hit\<close> is the test of the
  loop body. The test of the free slot is read before the bound is checked.
\<close>

function report_loop ::
  "(int \<Rightarrow> bg_process \<Rightarrow> bool) \<Rightarrow> nat \<Rightarrow> job_table \<Rightarrow> (job_table \<times> event list) checked" where
  "report_loop hit i j =
     (if i < MAX_PROCESS then
        if available_indices j ! i = 1 then Some (j, [])
        else if hit (available_indices j ! i) (bg_processes j ! i) then
          do {
            (j', es) \<leftarrow> report_loop hit (Suc i) (mark_done i j);
            Some (j', done_message (bg_processes j ! i) @ es)
          }
        else report_loop hit (Suc i) j
      else fault)"
  by pat_completeness auto
termination
  by (relation "measure (\<lambda>(hit, i, j). MAX_PROCESS - i)") auto

declare report_loop.simps [simp del]

definition reaped_hit :: "int \<Rightarrow> int \<Rightarrow> bg_process \<Rightarrow> bool" where
  "reaped_hit p a b = (pid b = p \<and> is_running b = 1)"

definition killed_hit :: "int \<Rightarrow> bg_process \<Rightarrow> bool" where
  "killed_hit a b = (a = 3)"

fun reap_loop :: "int list \<Rightarrow> job_table \<Rightarrow> (job_table \<times> event list) checked" where
  "reap_loop [] j = Some (j, [])"
| "reap_loop (p # ps) j =
     do {
       (j, es) \<leftarrow> report_loop (reaped_hit p) 0 j;
       (j, fs) \<leftarrow> reap_loop ps j;
       Some (j, es @ fs)
     }"

function all_terminated_from :: "nat \<Rightarrow> job_table \<Rightarrow> bool" where
  "all_terminated_from i j =
     (if i < MAX_PROCESS \<and> available_indices j ! i \<noteq> 1 then
        if available_indices j ! i = 0 then False else all_terminated_from (Suc i) j
      else True)"
  by pat_completeness auto
termination
  by (relation "measure (\<lambda>(i, j). MAX_PROCESS - i)") auto

declare all_terminated_from.simps [simp del]

text \<open>\<open>reaped\<close> is the sequence of positive results of waitpid, in order.\<close>

definition display_done_process :: "int list \<Rightarrow> job_table \<Rightarrow> (job_table \<times> event list) checked" where
  "display_done_process reaped j =
     do {
       (j, es) \<leftarrow> reap_loop reaped j;
       (j, fs) \<leftarrow> report_loop killed_hit 0 j;
       Some (if all_terminated_from 0 j then initialize_available_indices j else j, es @ fs)
     }"

section \<open>ps\<close>

text \<open>
  The name shown is the first token of a copy of the command; the copy is freed through the
  pointer strtok returned. That pointer is the start of the copy only when the command does
  not begin with a blank; when there is no token at all, the table's own array is freed.
\<close>

definition ps_line :: "bg_process \<Rightarrow> event list checked" where
  "ps_line p =
     (case strtok '' '' (command p) of
        None \<Rightarrow> fault
      | Some (first, _) \<Rightarrow>
          do {
            require (command p \<noteq> [] \<and> hd (command p) \<noteq> CHR '' '');
            Some (display_message (snprintf (MAX_STR_LEN * 2) (first @ '' '' @ show_int (pid p))) @
                  display_message [LF])
          })"

function ps_from :: "nat \<Rightarrow> job_table \<Rightarrow> event list checked" where
  "ps_from i j =
     (if i < MAX_PROCESS then
        if available_indices j ! i = 1 then Some []
        else if is_running (bg_processes j ! i) = 1 then
          do {
            es \<leftarrow> ps_line (bg_processes j ! i);
            fs \<leftarrow> ps_from (Suc i) j;
            Some (es @ fs)
          }
        else ps_from (Suc i) j
      else fault)"
  by pat_completeness auto
termination
  by (relation "measure (\<lambda>(i, j). MAX_PROCESS - i)") auto

declare ps_from.simps [simp del]

definition bn_ps :: "job_table \<Rightarrow> (int \<times> event list) checked" where
  "bn_ps j = do { es \<leftarrow> ps_from 0 j; Some (0, es) }"

section \<open>kill\<close>

function mark_killed_from :: "int \<Rightarrow> int \<Rightarrow> nat \<Rightarrow> job_table \<Rightarrow> job_table" where
  "mark_killed_from p signo i j =
     (if i < MAX_PROCESS \<and> available_indices j ! i \<noteq> 1 then
        if pid (bg_processes j ! i) = p \<and> signo \<noteq> 2
          then j\<lparr>available_indices := (available_indices j)[i := 3]\<rparr>
        else mark_killed_from p signo (Suc i) j
      else j)"
  by pat_completeness auto
termination
  by (relation "measure (\<lambda>(p, s, i, j). MAX_PROCESS - i)") auto

declare mark_killed_from.simps [simp del]

text \<open>The signal named by the third token: \<open>None\<close> inside when it expands to nothing.\<close>

definition kill_signal :: "var_list \<Rightarrow> string \<Rightarrow> int option checked" where
  "kill_signal vs t =
     (if t \<noteq> [] \<and> hd t = dollar then
        do {
          e \<leftarrow> expand_variables vs (Some t);
          Some (if e = [] then None else Some (atoi e))
        }
      else Some (Some (atoi t)))"

definition invalid_signal :: "event list" where
  "invalid_signal = display_error ''ERROR: Invalid signal specified'' []"

definition do_kill ::
  "(int \<Rightarrow> int \<Rightarrow> bool) \<Rightarrow> int \<Rightarrow> int \<Rightarrow> job_table \<Rightarrow> int \<times> job_table \<times> event list" where
  "do_kill os_kill p signo j =
     (if \<not> os_kill p signo
        then (-1, j, display_error ''ERROR: The process does not exist'' [])
      else (0, mark_killed_from p signo 0 j, [Kill p signo]))"

definition bn_kill ::
  "(int \<Rightarrow> int \<Rightarrow> bool) \<Rightarrow> var_list \<Rightarrow> string list \<Rightarrow> job_table \<Rightarrow> (int \<times> job_table \<times> event list) checked" where
  "bn_kill os_kill vs tokens j =
     (if length tokens \<le> 1 then Some (-1, j, [])
      else
        let p = atoi (tokens ! 1) in
        if length tokens \<le> 2 then Some (do_kill os_kill p 15 j)
        else do {
          s \<leftarrow> kill_signal vs (tokens ! 2);
          Some (case s of
                  None \<Rightarrow> (-1, j, invalid_signal)
                | Some signo \<Rightarrow>
                    if signo < 1 \<or> signo > 64 then (-1, j, invalid_signal)
                    else do_kill os_kill p signo j)
        })"

section \<open>The invariant\<close>

text \<open>
  The slots in use are a prefix of the table: \<open>in_use\<close> of them, and slot \<open>i\<close> of the prefix
  holds job number \<open>i + 1\<close>.
\<close>

definition in_use :: "job_table \<Rightarrow> nat" where
  "in_use j = length (takeWhile (\<lambda>a. a \<noteq> 1) (available_indices j))"

definition table_ok :: "job_table \<Rightarrow> bool" where
  "table_ok j \<longleftrightarrow>
     length (bg_processes j) = MAX_PROCESS \<and> length (available_indices j) = MAX_PROCESS \<and>
     (\<forall>i. in_use j \<le> i \<and> i < MAX_PROCESS \<longrightarrow> available_indices j ! i = 1) \<and>
     (\<forall>i < in_use j. available_indices j ! i \<in> {0, 2, 3} \<and> job_num (bg_processes j ! i) = int i + 1)"

lemma table_ok_lengths:
  "table_ok j \<Longrightarrow> length (bg_processes j) = MAX_PROCESS" "table_ok j \<Longrightarrow> length (available_indices j) = MAX_PROCESS"
  "table_ok j \<Longrightarrow> in_use j \<le> MAX_PROCESS"
  by (auto simp: table_ok_def in_use_def intro: order_trans[OF length_takeWhile_le])

lemma free_slot: "table_ok j \<Longrightarrow> i < MAX_PROCESS \<Longrightarrow> available_indices j ! i = 1 \<longleftrightarrow> in_use j \<le> i"
  by (cases "i < in_use j") (auto simp: table_ok_def)

lemma in_use_eq:
  assumes "n \<le> length (available_indices j)" and "\<And>i. i < n \<Longrightarrow> available_indices j ! i \<noteq> 1"
    and "n < length (available_indices j) \<Longrightarrow> available_indices j ! n = 1"
  shows "in_use j = n"
proof -
  have "takeWhile (\<lambda>a. a \<noteq> 1) (available_indices j) = take n (available_indices j)"
    using assms(2,3) by (intro takeWhile_eq_take_P_nth) auto
  then show ?thesis using assms(1) by (simp add: in_use_def)
qed

text \<open>How an update of one slot of the prefix, or of the first free one, changes the table.\<close>

lemma table_ok_update:
  assumes ok: "table_ok j" and i: "i \<le> in_use j" "i < MAX_PROCESS" and a: "a \<in> {0, 2, 3}"
    and b: "job_num b = int i + 1"
  shows "table_ok \<lparr>bg_processes = (bg_processes j)[i := b], available_indices = (available_indices j)[i := a]\<rparr>"
    and "in_use \<lparr>bg_processes = (bg_processes j)[i := b], available_indices = (available_indices j)[i := a]\<rparr> =
      max (in_use j) (Suc i)"
proof -
  let ?j = "\<lparr>bg_processes = (bg_processes j)[i := b], available_indices = (available_indices j)[i := a]\<rparr>"
  have len: "length (bg_processes j) = MAX_PROCESS" "length (available_indices j) = MAX_PROCESS"
    "in_use j \<le> MAX_PROCESS"
    using ok by (rule table_ok_lengths)+
  have u: "available_indices ?j ! k = (if k = i then a else available_indices j ! k)"
    if "k < MAX_PROCESS" for k
    using len that by (simp add: nth_list_update)
  show n: "in_use ?j = max (in_use j) (Suc i)"
  proof (rule in_use_eq)
    show "available_indices ?j ! k \<noteq> 1" if "k < max (in_use j) (Suc i)" for k
      using that i a u[of k] free_slot[OF ok, of k] len by (auto simp: less_Suc_eq split: if_splits)
  qed (use len i u free_slot[OF ok] in \<open>auto simp: max_def split: if_splits\<close>)
  have "available_indices ?j ! k = 1" if "max (in_use j) (Suc i) \<le> k" "k < MAX_PROCESS" for k
    using that u[of k] free_slot[OF ok, of k] by simp
  moreover have "available_indices ?j ! k \<in> {0, 2, 3} \<and> job_num (bg_processes ?j ! k) = int k + 1"
    if "k < max (in_use j) (Suc i)" for k
    using that u[of k] i a b ok len by (cases "k = i") (auto simp: table_ok_def)
  ultimately show "table_ok ?j" unfolding table_ok_def n using len by simp
qed

lemma table_ok_init [mysh_inv]:
  "length (bg_processes j) = MAX_PROCESS \<Longrightarrow> table_ok (initialize_available_indices j)"
  "in_use (initialize_available_indices j) = 0"
proof -
  show n: "in_use (initialize_available_indices j) = 0"
    by (rule in_use_eq) (simp_all add: initialize_available_indices_def)
  show "table_ok (initialize_available_indices j)" if "length (bg_processes j) = MAX_PROCESS"
    unfolding table_ok_def n using that by (simp add: initialize_available_indices_def)
qed

section \<open>Finding and filling a slot\<close>

lemma find_spot_from_eq:
  "table_ok j \<Longrightarrow> i \<le> in_use j \<Longrightarrow>
     find_spot_from i j = (if in_use j < MAX_PROCESS then int (in_use j) else -1)"
proof (induction i j rule: find_spot_from.induct)
  case (1 i j)
  show ?case
  proof (cases "i < MAX_PROCESS \<and> i \<noteq> in_use j")
    case True
    then show ?thesis using 1 free_slot[of j i] by (subst find_spot_from.simps) simp
  next
    case False
    then show ?thesis using 1 free_slot[of j i] table_ok_lengths(3)[of j]
      by (subst find_spot_from.simps) auto
  qed
qed

lemma find_new_spot_eq:
  "table_ok j \<Longrightarrow> find_new_spot j = (if in_use j < MAX_PROCESS then int (in_use j) else -1)"
  by (simp add: find_new_spot_def find_spot_from_eq)

text \<open>The entries of the table, oldest first: what a client of the table can see.\<close>

definition entries :: "job_table \<Rightarrow> bg_process list" where
  "entries j = take (in_use j) (bg_processes j)"

lemma length_entries: "table_ok j \<Longrightarrow> length (entries j) = in_use j"
  using table_ok_lengths[of j] by (simp add: entries_def)

lemma add_bg_process_spot:
  assumes "table_ok j" and "in_use j < MAX_PROCESS"
  shows "\<exists>j'. add_bg_process p cmd (in_use j) j = Some (0, j') \<and> table_ok j' \<and>
     entries j' = entries j @
       [\<lparr>pid = p, job_num = int (in_use j) + 1, command = take (MAX_STR_LEN - 1) cmd, is_running = 1\<rparr>]"
proof -
  let ?b = "\<lparr>pid = p, job_num = int (in_use j) + 1, command = take (MAX_STR_LEN - 1) cmd, is_running = 1\<rparr>"
  let ?j = "\<lparr>bg_processes = (bg_processes j)[in_use j := ?b],
      available_indices = (available_indices j)[in_use j := 0]\<rparr>"
  have n: "in_use ?j = Suc (in_use j)"
    using table_ok_update(2)[OF assms(1) _ assms(2), of 0 ?b] by simp
  have "entries ?j = entries j @ [?b]"
    using table_ok_lengths[OF assms(1)] assms(2) unfolding entries_def n
    by (simp add: take_Suc_conv_app_nth)
  then show ?thesis
    using table_ok_update(1)[OF assms(1) _ assms(2), of 0 ?b] assms(2) by (simp add: add_bg_process_def)
qed

section \<open>Reporting\<close>

text \<open>What one reporting loop does to the slots from \<open>i\<close> on.\<close>

definition reported :: "(int \<Rightarrow> bg_process \<Rightarrow> bool) \<Rightarrow> nat \<Rightarrow> job_table \<Rightarrow> job_table \<Rightarrow> bool" where
  "reported hit i j j' \<longleftrightarrow>
     in_use j' = in_use j \<and>
     (\<forall>k < MAX_PROCESS.
        if i \<le> k \<and> k < in_use j \<and> hit (available_indices j ! k) (bg_processes j ! k)
        then available_indices j' ! k = 2 \<and> bg_processes j' ! k = (bg_processes j ! k)\<lparr>is_running := 0\<rparr>
        else available_indices j' ! k = available_indices j ! k \<and> bg_processes j' ! k = bg_processes j ! k)"

definition hits :: "(int \<Rightarrow> bg_process \<Rightarrow> bool) \<Rightarrow> nat \<Rightarrow> job_table \<Rightarrow> nat list" where
  "hits hit i j = filter (\<lambda>k. hit (available_indices j ! k) (bg_processes j ! k)) [i..<in_use j]"

lemma mark_done_ok:
  assumes "table_ok j" and "i < in_use j"
  shows "table_ok (mark_done i j)" "in_use (mark_done i j) = in_use j"
proof -
  have i: "i < MAX_PROCESS" using assms table_ok_lengths(3)[of j] by linarith
  let ?b = "(bg_processes j ! i)\<lparr>is_running := 0\<rparr>"
  have b: "job_num ?b = int i + 1" using assms by (simp add: table_ok_def)
  show "table_ok (mark_done i j)"
    using table_ok_update(1)[OF assms(1) _ i _ b, of 2] assms(2) by (simp add: mark_done_def)
  show "in_use (mark_done i j) = in_use j"
    using table_ok_update(2)[OF assms(1) _ i _ b, of 2] assms(2) by (simp add: mark_done_def max_def)
qed

lemma mark_done_nth:
  assumes "table_ok j" and "i < in_use j" and "k < MAX_PROCESS"
  shows "available_indices (mark_done i j) ! k = (if k = i then 2 else available_indices j ! k)"
    "bg_processes (mark_done i j) ! k =
      (if k = i then (bg_processes j ! i)\<lparr>is_running := 0\<rparr> else bg_processes j ! k)"
  using assms table_ok_lengths[OF assms(1)] by (simp_all add: mark_done_def nth_list_update)

lemma report_loop_total:
  assumes "table_ok j" and "in_use j < MAX_PROCESS" and "i \<le> in_use j"
  shows "\<exists>j'. report_loop hit i j = Some (j', concat (map (\<lambda>k. done_message (bg_processes j ! k)) (hits hit i j))) \<and>
     table_ok j' \<and> reported hit i j j'"
  using assms
proof (induction hit i j rule: report_loop.induct)
  case (1 hit i j)
  have i: "i < MAX_PROCESS" using "1.prems" by simp
  show ?case
  proof (cases "i = in_use j")
    case True
    then show ?thesis using "1.prems" i free_slot[of j i]
      by (subst report_loop.simps) (simp add: hits_def reported_def)
  next
    case False
    then have iu: "i < in_use j" and ne: "available_indices j ! i \<noteq> 1"
      using "1.prems" i free_slot[of j i] by auto
    have up: "[i..<in_use j] = i # [Suc i..<in_use j]" using iu by (rule upt_conv_Cons)
    show ?thesis
    proof (cases "hit (available_indices j ! i) (bg_processes j ! i)")
      case True
      let ?m = "mark_done i j"
      note m = mark_done_ok[OF "1.prems"(1) iu]
      have h: "hits hit (Suc i) ?m = hits hit (Suc i) j"
        unfolding hits_def m(2) using "1.prems" iu
        by (intro filter_cong refl) (simp add: mark_done_nth)
      have e: "map (\<lambda>k. done_message (bg_processes ?m ! k)) (hits hit (Suc i) j) =
          map (\<lambda>k. done_message (bg_processes j ! k)) (hits hit (Suc i) j)"
        using "1.prems" iu by (intro map_cong refl) (auto simp: hits_def mark_done_nth)
      obtain j' where j': "report_loop hit (Suc i) ?m =
          Some (j', concat (map (\<lambda>k. done_message (bg_processes j ! k)) (hits hit (Suc i) j)))"
        "table_ok j'" "reported hit (Suc i) ?m j'"
        using "1.IH"(1)[OF i ne True m(1)] m(2) "1.prems" iu unfolding h e by auto
      have "reported hit i j j'"
        unfolding reported_def
      proof (intro conjI allI impI)
        show "in_use j' = in_use j" using j'(3) m(2) by (simp add: reported_def)
        fix k
        assume k: "k < MAX_PROCESS"
        note nth = mark_done_nth[OF "1.prems"(1) iu k]
        note r = j'(3)[unfolded reported_def, THEN conjunct2, rule_format, OF k]
        show "if i \<le> k \<and> k < in_use j \<and> hit (available_indices j ! k) (bg_processes j ! k)
          then available_indices j' ! k = 2 \<and> bg_processes j' ! k = (bg_processes j ! k)\<lparr>is_running := 0\<rparr>
          else available_indices j' ! k = available_indices j ! k \<and> bg_processes j' ! k = bg_processes j ! k"
        proof (cases "k = i")
          case True
          then show ?thesis using r iu \<open>hit _ _\<close> nth by simp
        next
          case False
          then have "Suc i \<le> k \<longleftrightarrow> i \<le> k" by auto
          then show ?thesis using r by (simp only: m(2) nth False if_False)
        qed
      qed
      moreover have "report_loop hit i j = Some (j', done_message (bg_processes j ! i) @
          concat (map (\<lambda>k. done_message (bg_processes j ! k)) (hits hit (Suc i) j)))"
        using j'(1) i ne True by (subst report_loop.simps) simp
      moreover have "hits hit i j = i # hits hit (Suc i) j" using True by (simp add: hits_def up)
      ultimately show ?thesis using j'(2) by auto
    next
      case nohit: False
      have eq: "(Suc i \<le> k \<and> k < in_use j \<and> hit (available_indices j ! k) (bg_processes j ! k)) =
          (i \<le> k \<and> k < in_use j \<and> hit (available_indices j ! k) (bg_processes j ! k))" for k
        using nohit by (cases "k = i") auto
      have "reported hit i j j'" if "reported hit (Suc i) j j'" for j'
        using that unfolding reported_def eq .
      moreover have "report_loop hit i j = report_loop hit (Suc i) j"
        using i ne nohit by (subst report_loop.simps) simp
      moreover have "hits hit i j = hits hit (Suc i) j" using nohit by (simp add: hits_def up)
      ultimately show ?thesis using "1.IH"(2)[OF i ne nohit] "1.prems" iu by auto
    qed
  qed
qed

text \<open>A full table: the walk runs past the last slot.\<close>

lemma report_loop_full: "table_ok j \<Longrightarrow> in_use j = MAX_PROCESS \<Longrightarrow> report_loop hit i j = fault"
proof (induction hit i j rule: report_loop.induct)
  case (1 hit i j)
  show ?case
  proof (cases "i < MAX_PROCESS")
    case True
    then have "available_indices j ! i \<noteq> 1" using "1.prems" free_slot[of j i] by simp
    moreover have "report_loop hit (Suc i) (mark_done i j) = fault"
      if "hit (available_indices j ! i) (bg_processes j ! i)"
      using "1.IH"(1)[OF True calculation that] mark_done_ok[OF "1.prems"(1), of i] "1.prems" True by simp
    ultimately show ?thesis using "1.IH"(2) "1.prems" True by (subst report_loop.simps) simp
  qed (subst report_loop.simps, simp)
qed

text \<open>The slots whose running process is among the reaped ones.\<close>

definition finished :: "int list \<Rightarrow> job_table \<Rightarrow> nat \<Rightarrow> bool" where
  "finished ps j k \<longleftrightarrow> is_running (bg_processes j ! k) = 1 \<and> pid (bg_processes j ! k) \<in> set ps"

definition slot_after :: "bool \<Rightarrow> job_table \<Rightarrow> nat \<Rightarrow> job_table \<Rightarrow> bool" where
  "slot_after hit j k j' \<longleftrightarrow>
     (if hit then available_indices j' ! k = 2 \<and> bg_processes j' ! k = (bg_processes j ! k)\<lparr>is_running := 0\<rparr>
      else available_indices j' ! k = available_indices j ! k \<and> bg_processes j' ! k = bg_processes j ! k)"

lemma reported_slot:
  "reported hit 0 j j' \<Longrightarrow> k < MAX_PROCESS \<Longrightarrow>
     slot_after (k < in_use j \<and> hit (available_indices j ! k) (bg_processes j ! k)) j k j'"
  by (auto simp: reported_def slot_after_def)

lemma done_message_slot: "slot_after h j k j' \<Longrightarrow> done_message (bg_processes j' ! k) = done_message (bg_processes j ! k)"
  by (auto simp: slot_after_def done_message_def split: if_splits)

lemma set_hits: "set (hits hit 0 j) = {k. k < in_use j \<and> hit (available_indices j ! k) (bg_processes j ! k)}"
  by (auto simp: hits_def)

lemma distinct_hits: "distinct (hits hit i j)"
  by (simp add: hits_def)

text \<open>A list of announced slots: each once, with the events that announce them.\<close>

definition announces :: "job_table \<Rightarrow> nat set \<Rightarrow> event list \<Rightarrow> bool" where
  "announces j K es \<longleftrightarrow>
     (\<exists>ks. distinct ks \<and> set ks = K \<and> es = concat (map (\<lambda>k. done_message (bg_processes j ! k)) ks))"

lemma announces_append:
  assumes "announces j A es" and "announces j' B fs" and "A \<inter> B = {}"
    and "\<And>k. k \<in> B \<Longrightarrow> done_message (bg_processes j' ! k) = done_message (bg_processes j ! k)"
  shows "announces j (A \<union> B) (es @ fs)"
proof -
  obtain ks ls where "distinct ks" "set ks = A" "es = concat (map (\<lambda>k. done_message (bg_processes j ! k)) ks)"
    "distinct ls" "set ls = B" "fs = concat (map (\<lambda>k. done_message (bg_processes j' ! k)) ls)"
    using assms(1,2) by (auto simp: announces_def)
  moreover have "map (\<lambda>k. done_message (bg_processes j' ! k)) ls = map (\<lambda>k. done_message (bg_processes j ! k)) ls"
    using assms(4) \<open>set ls = B\<close> by simp
  ultimately show ?thesis using assms(3) by (intro announces_def[THEN iffD2] exI[of _ "ks @ ls"]) simp
qed

lemma reap_loop_total:
  assumes "table_ok j" and "in_use j < MAX_PROCESS"
  shows "\<exists>j' es. reap_loop ps j = Some (j', es) \<and> table_ok j' \<and> in_use j' = in_use j \<and>
     announces j {k. k < in_use j \<and> finished ps j k} es \<and>
     (\<forall>k < MAX_PROCESS. slot_after (k < in_use j \<and> finished ps j k) j k j')"
  using assms
proof (induction ps arbitrary: j)
  case Nil
  then show ?case by (auto simp: announces_def finished_def slot_after_def)
next
  case (Cons p ps)
  obtain j1 where j1: "report_loop (reaped_hit p) 0 j =
        Some (j1, concat (map (\<lambda>k. done_message (bg_processes j ! k)) (hits (reaped_hit p) 0 j)))"
      "table_ok j1" "reported (reaped_hit p) 0 j j1"
    using report_loop_total[OF Cons.prems, of 0 "reaped_hit p"] by auto
  have n1: "in_use j1 = in_use j" using j1(3) by (simp add: reported_def)
  obtain j2 es where j2: "reap_loop ps j1 = Some (j2, es)" "table_ok j2" "in_use j2 = in_use j"
      "announces j1 {k. k < in_use j \<and> finished ps j1 k} es"
      "\<forall>k < MAX_PROCESS. slot_after (k < in_use j \<and> finished ps j1 k) j1 k j2"
    using Cons.IH[OF j1(2)] n1 Cons.prems by auto
  let ?A = "{k. k < in_use j \<and> finished [p] j k}"
  have slot1: "slot_after (k < in_use j \<and> finished [p] j k) j k j1" if "k < MAX_PROCESS" for k
    using reported_slot[OF j1(3) that] by (simp add: reaped_hit_def finished_def conj_commute)
  have fin: "finished ps j1 k \<longleftrightarrow> finished ps j k \<and> k \<notin> ?A" if "k < in_use j" for k
    using slot1[of k] that Cons.prems by (auto simp: slot_after_def finished_def split: if_splits)
  have "announces j ?A (concat (map (\<lambda>k. done_message (bg_processes j ! k)) (hits (reaped_hit p) 0 j)))"
    unfolding announces_def
    by (intro exI[of _ "hits (reaped_hit p) 0 j"])
      (auto simp: set_hits distinct_hits reaped_hit_def finished_def)
  then have "announces j (?A \<union> {k. k < in_use j \<and> finished ps j1 k})
      (concat (map (\<lambda>k. done_message (bg_processes j ! k)) (hits (reaped_hit p) 0 j)) @ es)"
    by (rule announces_append[OF _ j2(4)])
      (use fin Cons.prems in \<open>auto intro!: done_message_slot[OF slot1]\<close>)
  moreover have "?A \<union> {k. k < in_use j \<and> finished ps j1 k} = {k. k < in_use j \<and> finished (p # ps) j k}"
    using fin by (auto simp: finished_def)
  moreover have "slot_after (k < in_use j \<and> finished (p # ps) j k) j k j2" if "k < MAX_PROCESS" for k
    using slot1[OF that] j2(5)[rule_format, OF that] fin[of k]
    by (auto simp: slot_after_def finished_def split: if_splits)
  ultimately show ?case using j1(1) j2(1-3) by auto
qed

lemma all_terminated_from_eq:
  "table_ok j \<Longrightarrow> i \<le> in_use j \<Longrightarrow>
     all_terminated_from i j \<longleftrightarrow> (\<forall>k. i \<le> k \<and> k < in_use j \<longrightarrow> available_indices j ! k \<noteq> 0)"
proof (induction i j rule: all_terminated_from.induct)
  case (1 i j)
  show ?case
  proof (cases "i < in_use j")
    case True
    then have i: "i < MAX_PROCESS" "available_indices j ! i \<noteq> 1"
      using "1.prems" table_ok_lengths(3)[of j] free_slot[of j i] by auto
    have "all_terminated_from i j \<longleftrightarrow> available_indices j ! i \<noteq> 0 \<and> all_terminated_from (Suc i) j"
      using i by (subst all_terminated_from.simps) simp
    also have "\<dots> \<longleftrightarrow> available_indices j ! i \<noteq> 0 \<and>
        (\<forall>k. Suc i \<le> k \<and> k < in_use j \<longrightarrow> available_indices j ! k \<noteq> 0)"
      using "1.IH" i "1.prems" True by (cases "available_indices j ! i = 0") auto
    also have "\<dots> \<longleftrightarrow> (\<forall>k. i \<le> k \<and> k < in_use j \<longrightarrow> available_indices j ! k \<noteq> 0)"
      using True by (metis Suc_leI le_refl nat_less_le Suc_leD)
    finally show ?thesis .
  next
    case False
    then have "\<not> (i < MAX_PROCESS \<and> available_indices j ! i \<noteq> 1)"
      using "1.prems" free_slot[of j i] by auto
    then show ?thesis using False by (subst all_terminated_from.simps) auto
  qed
qed

text \<open>A slot that the next report announces: reaped while running, or marked as killed.\<close>

definition leaves :: "int list \<Rightarrow> job_table \<Rightarrow> nat \<Rightarrow> bool" where
  "leaves ps j k \<longleftrightarrow> finished ps j k \<or> available_indices j ! k = 3"

lemma display_done_total:
  assumes "table_ok j" and "in_use j < MAX_PROCESS"
  shows "\<exists>j' es. display_done_process ps j = Some (j', es) \<and> table_ok j' \<and>
     announces j {k. k < in_use j \<and> leaves ps j k} es \<and>
     (if \<forall>k < in_use j. leaves ps j k \<or> available_indices j ! k \<noteq> 0 then in_use j' = 0
      else in_use j' = in_use j \<and> (\<forall>k < in_use j. slot_after (leaves ps j k) j k j'))"
proof -
  obtain j1 es where j1: "reap_loop ps j = Some (j1, es)" "table_ok j1" "in_use j1 = in_use j"
      "announces j {k. k < in_use j \<and> finished ps j k} es"
      "\<forall>k < MAX_PROCESS. slot_after (k < in_use j \<and> finished ps j k) j k j1"
    using reap_loop_total[OF assms, of ps] by blast
  let ?fs = "concat (map (\<lambda>k. done_message (bg_processes j1 ! k)) (hits killed_hit 0 j1))"
  obtain j2 where j2: "report_loop killed_hit 0 j1 = Some (j2, ?fs)" "table_ok j2" "reported killed_hit 0 j1 j2"
    using report_loop_total[OF j1(2), of 0 killed_hit] j1(3) assms(2) by auto
  have n2: "in_use j2 = in_use j" using j2(3) j1(3) by (simp add: reported_def)
  have kM: "k < MAX_PROCESS" if "k < in_use j" for k using that assms(2) by simp
  let ?B = "{k. k < in_use j \<and> \<not> finished ps j k \<and> available_indices j ! k = 3}"
  have killed: "available_indices j1 ! k = 3 \<longleftrightarrow> k \<in> ?B" if "k < in_use j" for k
    using j1(5)[rule_format, OF kM[OF that]] that by (auto simp: slot_after_def split: if_splits)
  have "announces j1 ?B ?fs"
    unfolding announces_def using killed
    by (intro exI[of _ "hits killed_hit 0 j1"]) (auto simp: set_hits distinct_hits killed_hit_def j1(3))
  then have "announces j ({k. k < in_use j \<and> finished ps j k} \<union> ?B) (es @ ?fs)"
    by (rule announces_append[OF j1(4)]) (use j1(5) kM in \<open>auto intro: done_message_slot\<close>)
  moreover have "{k. k < in_use j \<and> finished ps j k} \<union> ?B = {k. k < in_use j \<and> leaves ps j k}"
    by (auto simp: leaves_def)
  moreover have slot2: "slot_after (leaves ps j k) j k j2" if "k < in_use j" for k
    using reported_slot[OF j2(3) kM[OF that]] j1(5)[rule_format, OF kM[OF that]] killed[OF that] that
    by (auto simp: slot_after_def leaves_def killed_hit_def j1(3) split: if_splits)
  moreover have "all_terminated_from 0 j2 \<longleftrightarrow> (\<forall>k < in_use j. leaves ps j k \<or> available_indices j ! k \<noteq> 0)"
  proof -
    have "available_indices j2 ! k \<noteq> 0 \<longleftrightarrow> leaves ps j k \<or> available_indices j ! k \<noteq> 0"
      if "k < in_use j" for k
      using slot2[OF that] by (auto simp: slot_after_def split: if_splits)
    then show ?thesis using all_terminated_from_eq[OF j2(2), of 0] by (simp add: n2)
  qed
  moreover have "table_ok (initialize_available_indices j2)"
    by (rule table_ok_init) (rule table_ok_lengths(1)[OF j2(2)])
  ultimately show ?thesis
    using j1(1) j2(1,2) n2 table_ok_init(2)[of j2] by (auto simp: display_done_process_def)
qed

lemma display_done_full:
  assumes "table_ok j" and "in_use j = MAX_PROCESS"
  shows "display_done_process ps j = fault"
  using report_loop_full[OF assms] by (cases ps) (simp_all add: display_done_process_def)

section \<open>kill and ps\<close>

lemma mark_killed_table:
  assumes "table_ok j"
  shows "table_ok (mark_killed_from p s i j) \<and> in_use (mark_killed_from p s i j) = in_use j \<and>
    bg_processes (mark_killed_from p s i j) = bg_processes j"
  using assms
proof (induction p s i j rule: mark_killed_from.induct)
  case (1 p s i j)
  show ?case
  proof (cases "i < MAX_PROCESS \<and> available_indices j ! i \<noteq> 1")
    case True
    then have i: "i < in_use j" using "1.prems" free_slot[of j i] by simp
    have same: "\<lparr>bg_processes = (bg_processes j)[i := bg_processes j ! i],
        available_indices = (available_indices j)[i := 3]\<rparr> = j\<lparr>available_indices := (available_indices j)[i := 3]\<rparr>"
      by simp
    have b: "job_num (bg_processes j ! i) = int i + 1" using "1.prems" i by (simp add: table_ok_def)
    note upd = table_ok_update[OF "1.prems" _ _ _ b, of 3, unfolded same]
    show ?thesis
      using "1.IH" "1.prems" True i upd by (subst (1 2 3) mark_killed_from.simps) (auto simp: max_def)
  next
    case False
    then show ?thesis using "1.prems" by (subst (1 2 3) mark_killed_from.simps) auto
  qed
qed

lemma mark_killed_first:
  assumes "table_ok j" and "k < in_use j" and "pid (bg_processes j ! k) = p" and "s \<noteq> 2"
    and "\<forall>i < k. pid (bg_processes j ! i) \<noteq> p" and "i \<le> k"
  shows "mark_killed_from p s i j = j\<lparr>available_indices := (available_indices j)[k := 3]\<rparr>"
  using assms(6)
proof (induction "k - i" arbitrary: i)
  case 0
  then show ?case using assms table_ok_lengths(3)[of j] free_slot[of j k]
    by (subst mark_killed_from.simps) auto
next
  case (Suc d)
  then have "i < k" by simp
  moreover have "available_indices j ! i \<noteq> 1" "i < MAX_PROCESS"
    using assms(1,2) \<open>i < k\<close> table_ok_lengths(3)[of j] free_slot[of j i] by auto
  moreover have "mark_killed_from p s (Suc i) j = j\<lparr>available_indices := (available_indices j)[k := 3]\<rparr>"
    by (rule Suc.hyps(1)) (use Suc.hyps(2) \<open>i < k\<close> in auto)
  ultimately show ?case using assms(5) by (subst mark_killed_from.simps) auto
qed

lemma bn_kill_table [mysh_inv]:
  assumes "table_ok j" and "bn_kill os_kill vs tokens j = Some (r, j', es)"
  shows "table_ok j' \<and> in_use j' = in_use j \<and> bg_processes j' = bg_processes j"
  using assms mark_killed_table[OF assms(1)]
  by (auto simp: bn_kill_def do_kill_def Let_def split: if_splits Option.bind_splits option.splits)

text \<open>Only signals from 1 to 64 reach the kernel.\<close>

lemma bn_kill_events:
  assumes "bn_kill os_kill vs tokens j = Some (r, j', es)" and "Kill p s \<in> set es"
  shows "r = 0 \<and> 1 \<le> s \<and> s \<le> 64 \<and> os_kill p s \<and> p = atoi (tokens ! 1)"
  using assms
  by (auto simp: bn_kill_def do_kill_def Let_def invalid_signal_def display_error_def
      split: if_splits Option.bind_splits option.splits)

text \<open>The lines \<open>ps\<close> prints, for commands that start with a character other than a blank.\<close>

definition ps_ok :: "bg_process \<Rightarrow> bool" where
  "ps_ok b \<longleftrightarrow> command b \<noteq> [] \<and> hd (command b) \<noteq> CHR '' ''"

definition ps_text :: "bg_process \<Rightarrow> event list" where
  "ps_text b =
     display_message (snprintf (MAX_STR_LEN * 2)
       (takeWhile (\<lambda>c. c \<noteq> CHR '' '') (command b) @ '' '' @ show_int (pid b))) @
     display_message [LF]"

lemma ps_line_eq: "ps_line b = (if ps_ok b then Some (ps_text b) else fault)"
proof (cases "command b")
  case Nil
  then show ?thesis by (simp add: ps_line_def ps_ok_def strtok_def)
next
  case (Cons c cs)
  then show ?thesis
    by (cases "c = CHR '' ''") (auto simp: ps_line_def ps_ok_def ps_text_def strtok_def split: list.splits)
qed

lemma ps_from_total:
  assumes "table_ok j" and "in_use j < MAX_PROCESS" and "i \<le> in_use j"
    and "\<forall>k < in_use j. is_running (bg_processes j ! k) = 1 \<longrightarrow> ps_ok (bg_processes j ! k)"
  shows "ps_from i j = Some (concat (map (\<lambda>k. ps_text (bg_processes j ! k))
     (filter (\<lambda>k. is_running (bg_processes j ! k) = 1) [i..<in_use j])))"
  using assms
proof (induction i j rule: ps_from.induct)
  case (1 i j)
  have i: "i < MAX_PROCESS" using "1.prems" by simp
  show ?case
  proof (cases "i = in_use j")
    case True
    then show ?thesis using "1.prems" i free_slot[of j i] by (subst ps_from.simps) simp
  next
    case False
    then have iu: "i < in_use j" and ne: "available_indices j ! i \<noteq> 1"
      using "1.prems" i free_slot[of j i] by auto
    have up: "[i..<in_use j] = i # [Suc i..<in_use j]" using iu by (rule upt_conv_Cons)
    show ?thesis
      using "1.IH"(1)[OF i ne] "1.IH"(2)[OF i ne] "1.prems" i ne iu
      by (subst ps_from.simps) (auto simp: ps_line_eq up)
  qed
qed

text \<open>The listing, over the entries of the table.\<close>

lemma bn_ps_entries:
  assumes "table_ok j" and "in_use j < MAX_PROCESS"
    and "\<forall>k < in_use j. is_running (bg_processes j ! k) = 1 \<longrightarrow> ps_ok (bg_processes j ! k)"
  shows "bn_ps j = Some (0, concat (map (\<lambda>b.
      [Out (take MAX_STR_LEN (takeWhile (\<lambda>c. c \<noteq> CHR '' '') (command b) @ '' '' @ show_int (pid b))), Out [LF]])
    (filter (\<lambda>b. is_running b = 1) (entries j))))"
proof -
  have t: "ps_text b = [Out (take MAX_STR_LEN (takeWhile (\<lambda>c. c \<noteq> CHR '' '') (command b) @ '' '' @ show_int (pid b))), Out [LF]]" for b
    by (simp add: ps_text_def display_message_def snprintf_def min_def del: take_append)
  have "entries j = map ((!) (bg_processes j)) [0..<in_use j]"
    using table_ok_lengths[OF assms(1)] by (intro nth_equalityI) (simp_all add: entries_def)
  then have "filter (\<lambda>b. is_running b = 1) (entries j) =
      map ((!) (bg_processes j)) (filter (\<lambda>k. is_running (bg_processes j ! k) = 1) [0..<in_use j])"
    by (simp add: filter_map comp_def)
  then show ?thesis using ps_from_total[OF assms(1,2) _ assms(3), of 0] by (simp add: bn_ps_def t comp_def)
qed

lemma ps_from_fault:
  assumes "table_ok j" and "k < in_use j" and "is_running (bg_processes j ! k) = 1"
    and "\<not> ps_ok (bg_processes j ! k)" and "i \<le> k"
  shows "ps_from i j = fault"
  using assms(5)
proof (induction "k - i" arbitrary: i)
  case 0
  then show ?case using assms table_ok_lengths(3)[of j] free_slot[of j k]
    by (subst ps_from.simps) (auto simp: ps_line_eq)
next
  case (Suc d)
  then have "i < k" by simp
  moreover have "available_indices j ! i \<noteq> 1" "i < MAX_PROCESS"
    using assms(1,2) \<open>i < k\<close> table_ok_lengths(3)[of j] free_slot[of j i] by auto
  moreover have "ps_from (Suc i) j = fault"
    by (rule Suc.hyps(1)) (use Suc.hyps(2) \<open>i < k\<close> in auto)
  ultimately show ?case by (subst ps_from.simps) (auto simp: bind_eq_None_conv)
qed

end
