(* ===== verification/Commands.thy ===== *)
theory Commands
  imports Client Builtin_Echo Builtin_Ls Jobs
begin

text \<open>
  src/src/commands.c without the job table (theory Jobs), and \<open>check_builtin\<close> of builtins.c:
  how a list of tokens is executed. The answers of the operating system are one record; a
  child process is a value of the same model, whose exit status the parent waits for.

  \<open>outcome\<close>: the C function returns to the shell with a value and a state, the shell process
  exits, or the call does not come back (a directory tree deeper than the fuel, a server or a
  chat that goes on). \<open>fault\<close> is undefined behaviour, as everywhere.
\<close>

section \<open>The table of builtins\<close>

datatype builtin =
    Bn_echo | Bn_ls | Bn_cd | Bn_cat | Bn_wc | Bn_ps | Bn_kill
  | Bn_start_server | Bn_close_server | Bn_send | Bn_start_client

definition BUILTINS :: "string list" where
  "BUILTINS = [''echo'', ''ls'', ''cd'', ''cat'', ''wc'', ''ps'', ''kill'',
     ''start-server'', ''close-server'', ''send'', ''start-client'']"

definition BUILTINS_FN :: "builtin option list" where
  "BUILTINS_FN = [Some Bn_echo, Some Bn_ls, Some Bn_cd, Some Bn_cat, Some Bn_wc, Some Bn_ps, Some Bn_kill,
     Some Bn_start_server, Some Bn_close_server, Some Bn_send, Some Bn_start_client, None]"

abbreviation BUILTINS_COUNT :: nat where "BUILTINS_COUNT \<equiv> 11"

function builtin_index :: "nat \<Rightarrow> string \<Rightarrow> nat" where
  "builtin_index cmd_num cmd =
     (if cmd_num < BUILTINS_COUNT \<and> \<not> strncmp_eq MAX_STR_LEN (BUILTINS ! cmd_num) cmd
      then builtin_index (cmd_num + 1) cmd else cmd_num)"
  by pat_completeness auto
termination
  by (relation "measure (\<lambda>(i, cmd). BUILTINS_COUNT - i)") auto

declare builtin_index.simps [simp del]

definition check_builtin :: "string \<Rightarrow> builtin option" where
  "check_builtin cmd = BUILTINS_FN ! builtin_index 0 cmd"

section \<open>The answers of the system and the state of the shell\<close>

text \<open>
  \<open>os_exec\<close>: \<open>None\<close> when execv fails, else how the program ended (its exit status, or
  \<open>None\<close> when a signal ended it) and what it wrote to its standard output.
\<close>

record os_replies =
  os_file :: "string \<Rightarrow> string option"
  os_dir :: dirs
  os_chdir :: "string \<Rightarrow> bool"
  os_kill :: "int \<Rightarrow> int \<Rightarrow> bool"
  os_stdin_reads :: "string list"
  os_stdin_text :: "string option"
  os_ls_fuel :: nat
  os_net :: net_calls
  os_write :: write_reply
  os_server_fork :: int
  os_server_run :: run_result
  os_chat_input :: string
  os_chat_writes :: "write_reply list"
  os_chat_selects :: "(bool \<times> client_select) list"
  os_fork :: int
  os_exec :: "string \<Rightarrow> string list \<Rightarrow> (int option \<times> string) option"

text \<open>The action for SIGINT: the shell's own handler, or the one that start-client installs.\<close>

datatype sigint_action = Shell_Handler | Client_Handler

record shell =
  sh_vars :: var_list
  sh_jobs :: job_table
  sh_server :: server_globals
  sh_disconnect :: bool         \<comment> \<open>the global \<open>disconnect_client\<close>\<close>
  sh_sigint :: sigint_action

datatype outcome =
    Returns int shell "event list"
  | Exits int "event list"
  | Stays "event list"

definition kill_status :: "os_replies \<Rightarrow> int \<Rightarrow> int \<Rightarrow> int" where
  "kill_status os p signo = (if os_kill os p signo then 0 else -1)"

section \<open>Calling a builtin\<close>

definition run_builtin :: "builtin \<Rightarrow> os_replies \<Rightarrow> shell \<Rightarrow> string list \<Rightarrow> outcome checked" where
  "run_builtin b os sh tokens =
     (let plain = map_option (\<lambda>(r, es). Returns r sh es); vs = sh_vars sh in
      case b of
        Bn_echo \<Rightarrow> plain (bn_echo vs tokens)
      | Bn_ls \<Rightarrow> map_option (\<lambda>r. case r of None \<Rightarrow> Stays [] | Some (n, es) \<Rightarrow> Returns n sh es)
                   (bn_ls (os_ls_fuel os) (os_dir os) vs tokens)
      | Bn_cd \<Rightarrow> plain (bn_cd (os_chdir os) vs tokens)
      | Bn_cat \<Rightarrow> plain (bn_cat (os_file os) (os_stdin_reads os) vs tokens)
      | Bn_wc \<Rightarrow> plain (bn_wc (os_file os) (os_stdin_text os) vs tokens)
      | Bn_ps \<Rightarrow> plain (bn_ps (sh_jobs sh))
      | Bn_kill \<Rightarrow> map_option (\<lambda>(r, j, es). Returns r (sh\<lparr>sh_jobs := j\<rparr>) es)
                     (bn_kill (os_kill os) vs tokens (sh_jobs sh))
      | Bn_start_server \<Rightarrow>
          Some (case bn_start_server (os_server_fork os) (os_server_run os) tokens (sh_server sh) of
              None \<Rightarrow> Stays []
            | Some (r, g, es) \<Rightarrow> Returns r (sh\<lparr>sh_server := g\<rparr>) es)
      | Bn_close_server \<Rightarrow>
          (let (r, g, es) = bn_close_server (kill_status os) (sh_server sh) in
           Some (Returns r (sh\<lparr>sh_server := g\<rparr>) es))
      | Bn_send \<Rightarrow> plain (bn_send (os_net os) (os_write os) tokens)
      | Bn_start_client \<Rightarrow>
          map_option (\<lambda>r. case r of
              Refused n es left \<Rightarrow> Returns n (sh\<lparr>sh_disconnect := False,
                sh_sigint := (if left then Client_Handler else sh_sigint sh)\<rparr>) es
            | Looped (Chatting c) \<Rightarrow> Stays (sc_trace c)
            | Looped (Client_Return n c) \<Rightarrow> Returns n (sh\<lparr>sh_disconnect := disconnect_client c\<rparr>) (sc_trace c)
            | Looped (Client_Exit n c) \<Rightarrow> Exits n (sc_trace c))
            (bn_start_client (os_net os) (os_chat_input os) (os_chat_writes os) (os_chat_selects os) tokens))"

section \<open>External programs\<close>

abbreviation MAX_PATH_LEN :: nat where "MAX_PATH_LEN \<equiv> 128"

definition cmd_path :: "string \<Rightarrow> string \<Rightarrow> string" where
  "cmd_path dir cmd = snprintf (MAX_PATH_LEN + 1) (dir @ cmd)"

text \<open>What the child does: how it ends and what it or the program writes.\<close>

definition exec_child :: "os_replies \<Rightarrow> string list \<Rightarrow> int option \<times> event list" where
  "exec_child os tokens =
     (case os_exec os (cmd_path ''/bin/'' (hd tokens)) tokens of
        Some (st, out) \<Rightarrow> (st, [Out out])
      | None \<Rightarrow>
          (case os_exec os (cmd_path ''/usr/bin/'' (hd tokens)) tokens of
             Some (st, out) \<Rightarrow> (st, [Out out])
           | None \<Rightarrow> (Some 1, display_error ''ERROR: Unknown command: '' (hd tokens))))"

definition execute_bin :: "os_replies \<Rightarrow> string list \<Rightarrow> int \<times> event list" where
  "execute_bin os tokens =
     (if os_fork os < 0 then (-1, display_error ''ERROR: Fork Failed'' [])
      else
        let (status, es) = exec_child os tokens in
        if status = Some 0 then (0, es) else (-1, es))"

end
