(* ===== verification/Pipeline.thy ===== *)
theory Pipeline
  imports Commands
begin

text \<open>
  \<open>execute_pipeline\<close> of commands.c: splitting the tokens into commands, creating the pipes,
  forking the children, and waiting. A child's standard input and output are wired before it
  runs a builtin or a program; the parent closes its copies of all pipe ends.

  A process has a table from descriptors to open files. Every child starts from a copy of the
  shell's table with all pipes in it. What a child writes is seen on the terminal when its
  descriptor 1 still is the terminal; what it reads is among its own replies of the system,
  and \<open>pipes_carry\<close> says that these replies are the bytes its neighbour wrote. The children
  run at the same time; their messages are put in the order of the commands. A child is not
  stopped by SIGPIPE here.
\<close>

section \<open>The commands\<close>

definition pipe_token :: string where
  "pipe_token = ''|''"

definition pipe_syntax_error :: "event list" where
  "pipe_syntax_error = display_error (''ERROR: syntax error near unexpected token `|'' @ [CHR 0x27]) []"

text \<open>
  \<open>commands[number_of_pipes + 1][128]\<close>: the commands before the current one, and the tokens
  of the current one. Each store needs its indices to be in range. \<open>Inl\<close> is the early
  return of the syntax error.
\<close>

definition store_ok :: "nat \<Rightarrow> string list list \<Rightarrow> string list \<Rightarrow> bool" where
  "store_ok number_of_pipes cmds cur \<longleftrightarrow> length cmds < number_of_pipes + 1 \<and> length cur < 128"

fun split_loop ::
  "nat \<Rightarrow> string list list \<Rightarrow> string list \<Rightarrow> string list \<Rightarrow> (unit + string list list) checked" where
  "split_loop n cmds cur [] = do {
     require (store_ok n cmds cur);
     Some (Inr (cmds @ [cur]))
   }"
| "split_loop n cmds cur (t # ts) =
     (if t = pipe_token then
        if cmds \<noteq> [] \<and> cur = [] then Some (Inl ())
        else do { require (store_ok n cmds cur); split_loop n (cmds @ [cur]) [] ts }
      else do { require (store_ok n cmds cur); split_loop n cmds (cur @ [t]) ts })"

section \<open>The pipes\<close>

text \<open>
  One reply per call of pipe, its two descriptors or a failure; a failure closes what was
  opened before. \<open>Inl\<close> carries the events of the failed attempt.
\<close>

definition close_pipe :: "int \<times> int \<Rightarrow> event list" where
  "close_pipe p = [Close_Fd (fst p), Close_Fd (snd p)]"

definition opened :: "(int \<times> int) list \<Rightarrow> event list" where
  "opened pipes = map (\<lambda>p. Pipe (fst p) (snd p)) pipes"

fun make_pipes ::
  "nat \<Rightarrow> (int \<times> int) option list \<Rightarrow> (int \<times> int) list \<Rightarrow> event list + (int \<times> int) list" where
  "make_pipes 0 replies pipes = Inr pipes"
| "make_pipes (Suc n) [] pipes = Inl (opened pipes @ concat (map close_pipe pipes))"
| "make_pipes (Suc n) (None # replies) pipes = Inl (opened pipes @ concat (map close_pipe pipes))"
| "make_pipes (Suc n) (Some p # replies) pipes = make_pipes n replies (pipes @ [p])"

section \<open>Descriptor tables\<close>

datatype open_file = Tty_In | Tty_Out | Tty_Err | Read_End nat | Write_End nat

type_synonym fd_table = "int \<Rightarrow> open_file option"

definition tty_table :: fd_table where
  "tty_table = [0 \<mapsto> Tty_In, 1 \<mapsto> Tty_Out, 2 \<mapsto> Tty_Err]"

fun add_pipes :: "nat \<Rightarrow> (int \<times> int) list \<Rightarrow> fd_table \<Rightarrow> fd_table" where
  "add_pipes k [] t = t"
| "add_pipes k (p # ps) t = add_pipes (Suc k) ps (t(fst p \<mapsto> Read_End k, snd p \<mapsto> Write_End k))"

text \<open>dup2 of a descriptor that is not open changes nothing.\<close>

definition dup2 :: "int \<Rightarrow> int \<Rightarrow> fd_table \<Rightarrow> fd_table" where
  "dup2 a b t = (case t a of None \<Rightarrow> t | Some f \<Rightarrow> t(b \<mapsto> f))"

definition close_both :: "int \<times> int \<Rightarrow> fd_table \<Rightarrow> fd_table" where
  "close_both p t = t(fst p := None, snd p := None)"

text \<open>The set-up of child \<open>i\<close>: two dup2, then both ends of every pipe are closed.\<close>

definition child_setup :: "(int \<times> int) list \<Rightarrow> nat \<Rightarrow> fd_table \<Rightarrow> fd_table" where
  "child_setup pipes i t =
     (let t1 = (if i > 0 then dup2 (fst (pipes ! (i - 1))) 0 t else t);
          t2 = (if i < length pipes then dup2 (snd (pipes ! i)) 1 t1 else t1)
      in fold close_both pipes t2)"

definition child_table :: "(int \<times> int) list \<Rightarrow> nat \<Rightarrow> fd_table" where
  "child_table pipes i = child_setup pipes i (add_pipes 0 pipes tty_table)"

section \<open>The children and the parent\<close>

text \<open>
  How a child ends and what it does: its own answers of the system, and a copy of the shell's
  state. A fault ends it by a signal; a child that stays is waited for, for ever (\<open>None\<close>).
\<close>

definition child_run :: "os_replies \<Rightarrow> shell \<Rightarrow> string list \<Rightarrow> (int option \<times> event list) option" where
  "child_run os sh cmd =
     (case check_builtin (hd cmd) of
        Some b \<Rightarrow>
          (case run_builtin b os sh cmd of
             None \<Rightarrow> Some (None, [])
           | Some (Returns err sh' es) \<Rightarrow>
               Some (if err = -1 then (Some 1, es @ display_error ''ERROR: Builtin failed: '' (hd cmd))
                     else (Some 0, es))
           | Some (Exits n es) \<Rightarrow> Some (Some n, es)
           | Some (Stays es) \<Rightarrow> None)
      | None \<Rightarrow> Some (exec_child os cmd))"

text \<open>What of it is seen outside the child; its other events concern its own descriptors.\<close>

fun seen_outside :: "fd_table \<Rightarrow> event \<Rightarrow> bool" where
  "seen_outside t (Out s) = (t 1 = Some Tty_Out)"
| "seen_outside t (Err s) = (t 2 = Some Tty_Err)"
| "seen_outside t (Kill p signo) = True"
| "seen_outside t (Send fd s) = True"
| "seen_outside t _ = False"

definition child_shows :: "fd_table \<Rightarrow> event list \<Rightarrow> event list" where
  "child_shows t es = filter (seen_outside t) es"

fun wait_all :: "'a option list \<Rightarrow> 'a list option" where
  "wait_all [] = Some []"
| "wait_all (None # rs) = None"
| "wait_all (Some r # rs) = map_option (\<lambda>xs. r # xs) (wait_all rs)"

record pipe_replies =
  pr_pipes :: "(int \<times> int) option list"
  pr_forks :: "nat \<Rightarrow> int"
  pr_children :: "nat \<Rightarrow> os_replies"

text \<open>What a child does that nobody waits for, also when it does not end.\<close>

definition child_does :: "os_replies \<Rightarrow> shell \<Rightarrow> string list \<Rightarrow> event list" where
  "child_does os sh cmd =
     (case child_run os sh cmd of
        Some (st, es) \<Rightarrow> es
      | None \<Rightarrow>
          (case check_builtin (hd cmd) of
             None \<Rightarrow> []
           | Some b \<Rightarrow> (case run_builtin b os sh cmd of Some (Stays es) \<Rightarrow> es | _ \<Rightarrow> [])))"

definition forks_done :: "(nat \<Rightarrow> int) \<Rightarrow> nat \<Rightarrow> nat" where
  "forks_done forks n = length (takeWhile (\<lambda>i. 0 \<le> forks i) [0..<n])"

text \<open>
  \<open>Stays\<close> when a child does not end. The first failing fork leaves the pipes open; the
  children before it run, but are not waited for (their events are put before the message
  of the shell; what one of them reads from a pipe that never ends is an argument).
\<close>

definition execute_pipeline :: "pipe_replies \<Rightarrow> shell \<Rightarrow> string list \<Rightarrow> nat \<Rightarrow> outcome checked" where
  "execute_pipeline pr sh tokens number_of_pipes = do {
     r \<leftarrow> split_loop number_of_pipes [] [] tokens;
     case r of
       Inl u \<Rightarrow> Some (Returns (-1) sh pipe_syntax_error)
     | Inr commands \<Rightarrow>
         (case make_pipes number_of_pipes (pr_pipes pr) [] of
            Inl es \<Rightarrow> Some (Returns (-1) sh es)
          | Inr pipes \<Rightarrow>
              if \<exists>i < number_of_pipes + 1. pr_forks pr i < 0
              then Some (Returns (-1) sh (opened pipes @
                concat (map (\<lambda>i. child_shows (child_table pipes i) (child_does (pr_children pr i) sh (commands ! i)))
                  [0..<forks_done (pr_forks pr) (number_of_pipes + 1)]) @
                display_error ''ERROR: Fork Failed'' []))
              else
                let es = opened pipes @ concat (map close_pipe pipes);
                    command_num = number_of_pipes + 1 in
                case wait_all (map (\<lambda>i. child_run (pr_children pr i) sh (commands ! i)) [0..<command_num]) of
                  None \<Rightarrow> Some (Stays es)
                | Some rs \<Rightarrow>
                    Some (Returns (if \<forall>r\<in>set rs. fst r = Some 0 then 0 else -1) sh
                      (es @ concat (map (\<lambda>i. child_shows (child_table pipes i) (snd (rs ! i))) [0..<command_num]))))
   }"

text \<open>The bytes that go through a pipe reach the next child, in reads of any size.\<close>

definition reads_text :: "string \<Rightarrow> os_replies \<Rightarrow> bool" where
  "reads_text text os \<longleftrightarrow> concat (os_stdin_reads os) = text \<and> os_stdin_text os = Some text \<and>
     (\<forall>bs\<in>set (os_stdin_reads os). bs \<noteq> [] \<and> length bs < BUFFERSIZE)"

definition pipes_carry :: "(nat \<Rightarrow> os_replies) \<Rightarrow> (int option \<times> event list) list \<Rightarrow> bool" where
  "pipes_carry children rs \<longleftrightarrow>
     (\<forall>i. Suc i < length rs \<longrightarrow> reads_text (stdout_of (snd (rs ! i))) (children (Suc i)))"

section \<open>Splitting: lemmas\<close>

text \<open>The reference: split at every pipe token.\<close>

fun split_at :: "string list \<Rightarrow> string list list" where
  "split_at [] = [[]]"
| "split_at (t # ts) =
     (if t = pipe_token then [] # split_at ts
      else case split_at ts of [] \<Rightarrow> [[t]] | c # cs \<Rightarrow> (t # c) # cs)"

lemma split_at_nonempty [simp]: "split_at ts \<noteq> []"
  by (induction ts) (auto split: list.splits)

lemma split_at_Cons: "split_at ts = hd (split_at ts) # tl (split_at ts)"
  by simp

definition pipes_in :: "string list \<Rightarrow> nat" where
  "pipes_in ts = length (filter (\<lambda>t. t = pipe_token) ts)"

lemma length_split_at: "length (split_at ts) = pipes_in ts + 1"
  by (induction ts) (auto simp: pipes_in_def split: list.splits)

lemma join_split_at: "concat (map (\<lambda>c. pipe_token # c) (split_at ts)) = pipe_token # ts"
  by (induction ts) (auto split: list.splits if_splits)

lemma split_at_no_pipe: "c \<in> set (split_at ts) \<Longrightarrow> pipe_token \<notin> set c"
  by (induction ts arbitrary: c) (auto split: list.splits if_splits)

text \<open>
  The loop computes the reference when no two pipes follow each other; the indices are in
  range when the array has a row for every pipe and one more.
\<close>

lemma split_loop_eq:
  assumes "length cmds + pipes_in ts = n" and "length cur + length ts < 128"
    and "cmds = [] \<or> cur \<noteq> [] \<or> hd (split_at ts) \<noteq> []"
    and "\<forall>c\<in>set (tl (split_at ts)). c \<noteq> []"
  shows "split_loop n cmds cur ts = Some (Inr (cmds @ (cur @ hd (split_at ts)) # tl (split_at ts)))"
  using assms
proof (induction n cmds cur ts rule: split_loop.induct)
  case (1 n cmds cur)
  then show ?case by (simp add: store_ok_def pipes_in_def)
next
  case (2 n cmds cur t ts)
  have st: "store_ok n cmds cur" using "2.prems"(1,2) by (simp add: store_ok_def)
  show ?case
  proof (cases "t = pipe_token")
    case True
    then have s: "split_at (t # ts) = [] # split_at ts" by simp
    then have h: "\<not> (cmds \<noteq> [] \<and> cur = [])" using "2.prems"(3) by auto
    have "hd (split_at ts) \<noteq> []" "\<forall>c\<in>set (tl (split_at ts)). c \<noteq> []"
      using "2.prems"(4) s list.set_sel(2)[OF split_at_nonempty[of ts]] by (simp_all add: hd_in_set)
    then have "split_loop n (cmds @ [cur]) [] ts =
        Some (Inr ((cmds @ [cur]) @ ([] @ hd (split_at ts)) # tl (split_at ts)))"
      using "2.prems"(1,2) True
      by (intro "2.IH"(1)[OF True h]) (auto simp: pipes_in_def st)
    then show ?thesis using True h st s by simp
  next
    case False
    obtain c cs where s: "split_at ts = c # cs" by (cases "split_at ts") auto
    have "split_loop n cmds (cur @ [t]) ts = Some (Inr (cmds @ ((cur @ [t]) @ c) # cs))"
      using "2.IH"(2)[OF False] "2.prems" False s st by (simp add: pipes_in_def)
    then show ?thesis using False st s by simp
  qed
qed

section \<open>Descriptors\<close>

text \<open>The pipe ends that a list of events leaves open in the shell.\<close>

fun left_open :: "event list \<Rightarrow> int set \<Rightarrow> int set" where
  "left_open [] fds = fds"
| "left_open (Pipe r w # es) fds = left_open es (insert r (insert w fds))"
| "left_open (Close_Fd fd # es) fds = left_open es (fds - {fd})"
| "left_open (_ # es) fds = left_open es fds"

definition pipe_ends :: "(int \<times> int) list \<Rightarrow> int set" where
  "pipe_ends pipes = fst ` set pipes \<union> snd ` set pipes"

lemma left_open_append: "left_open (es @ fs) fds = left_open fs (left_open es fds)"
  by (induction es fds rule: left_open.induct) auto

lemma left_open_opened: "left_open (opened pipes) fds = fds \<union> pipe_ends pipes"
  by (induction pipes arbitrary: fds) (auto simp: opened_def pipe_ends_def)

lemma left_open_closed: "left_open (concat (map close_pipe pipes)) fds = fds - pipe_ends pipes"
  by (induction pipes arbitrary: fds) (auto simp: close_pipe_def pipe_ends_def)

lemma left_open_display [simp]:
  "left_open (display_message s) fds = fds" "left_open (display_error p s) fds = fds"
  "left_open pipe_syntax_error fds = fds"
  by (simp_all add: display_message_def display_error_def pipe_syntax_error_def)

lemma make_pipes_Some: "length ps = n \<Longrightarrow> make_pipes n (map Some ps @ rs) pipes = Inr (pipes @ ps)"
  by (induction ps arbitrary: n pipes) auto

lemma make_pipes_Inr: "make_pipes n rs pipes = Inr ps \<Longrightarrow> length ps = length pipes + n"
  by (induction n rs pipes rule: make_pipes.induct) auto

lemma make_pipes_Inl: "make_pipes n rs pipes = Inl es \<Longrightarrow> left_open es {} = {}"
  by (induction n rs pipes rule: make_pipes.induct)
    (auto simp: left_open_append left_open_opened left_open_closed)

text \<open>The lemmas below ask for descriptors as pipe gives them: distinct and not 0, 1 or 2.\<close>

definition pipe_fds :: "(int \<times> int) list \<Rightarrow> int list" where
  "pipe_fds pipes = concat (map (\<lambda>p. [fst p, snd p]) pipes)"

definition fresh_pipes :: "(int \<times> int) list \<Rightarrow> bool" where
  "fresh_pipes pipes \<longleftrightarrow> distinct (pipe_fds pipes) \<and> set (pipe_fds pipes) \<inter> {0, 1, 2} = {}"

lemma pipe_fds_simps [simp]: "pipe_fds [] = []" "pipe_fds (p # ps) = fst p # snd p # pipe_fds ps"
  by (simp_all add: pipe_fds_def)

lemma add_pipes_other: "fd \<notin> set (pipe_fds ps) \<Longrightarrow> add_pipes k ps t fd = t fd"
  by (induction k ps t rule: add_pipes.induct) auto

lemma add_pipes_nth:
  "distinct (pipe_fds ps) \<Longrightarrow> i < length ps \<Longrightarrow>
     add_pipes k ps t (fst (ps ! i)) = Some (Read_End (k + i)) \<and>
     add_pipes k ps t (snd (ps ! i)) = Some (Write_End (k + i))"
proof (induction k ps t arbitrary: i rule: add_pipes.induct)
  case (2 k p ps t)
  show ?case
  proof (cases i)
    case 0
    then show ?thesis using "2.prems" by (simp add: add_pipes_other)
  next
    case (Suc j)
    then show ?thesis using "2.IH"[of j] "2.prems" by (simp del: fun_upd_apply)
  qed
qed simp

lemma pipe_fds_nth: "i < length ps \<Longrightarrow> fst (ps ! i) \<in> set (pipe_fds ps) \<and> snd (ps ! i) \<in> set (pipe_fds ps)"
  by (induction ps arbitrary: i) (auto simp: nth_Cons split: nat.splits)

lemma fold_close_both: "fold close_both ps t fd = (if fd \<in> set (pipe_fds ps) then None else t fd)"
  by (induction ps arbitrary: t) (auto simp: close_both_def)

text \<open>
  Child \<open>i\<close> reads from the pipe before it and writes to the pipe behind it, where there is
  one; its table holds no other end of any pipe.
\<close>

lemma child_wiring:
  assumes "fresh_pipes pipes" and "i \<le> length pipes"
  shows "child_table pipes i =
    [0 \<mapsto> (if i = 0 then Tty_In else Read_End (i - 1)),
     1 \<mapsto> (if i = length pipes then Tty_Out else Write_End i), 2 \<mapsto> Tty_Err]"
proof
  fix fd
  let ?t = "add_pipes 0 pipes tty_table"
  have d: "distinct (pipe_fds pipes)" and f: "0 \<notin> set (pipe_fds pipes)" "1 \<notin> set (pipe_fds pipes)"
    "2 \<notin> set (pipe_fds pipes)" using assms(1) by (auto simp: fresh_pipes_def)
  have t: "?t 0 = Some Tty_In" "?t 1 = Some Tty_Out" "?t 2 = Some Tty_Err"
    using f by (simp_all add: add_pipes_other tty_table_def)
  have o: "?t fd = None" if "fd \<notin> set (pipe_fds pipes)" "fd \<notin> {0, 1, 2}"
    using that by (simp add: add_pipes_other tty_table_def)
  define t1 where "t1 = (if i > 0 then dup2 (fst (pipes ! (i - 1))) 0 ?t else ?t)"
  define t2 where "t2 = (if i < length pipes then dup2 (snd (pipes ! i)) 1 t1 else t1)"
  have t1: "t1 = ?t(0 \<mapsto> (if i = 0 then Tty_In else Read_End (i - 1)))"
    using add_pipes_nth[OF d, of "i - 1" 0 tty_table] t(1) assms(2)
    by (auto simp: t1_def dup2_def fun_upd_idem)
  have "t1 (snd (pipes ! i)) = Some (Write_End i)" if "i < length pipes"
    using add_pipes_nth[OF d that, of 0 tty_table] pipe_fds_nth[OF that] f(1) by (auto simp: t1)
  moreover have "t1 1 = Some Tty_Out" using t(2) by (simp add: t1)
  ultimately have t2: "t2 = t1(1 \<mapsto> (if i = length pipes then Tty_Out else Write_End i))"
    using assms(2) by (auto simp: t2_def dup2_def fun_upd_idem)
  have c: "child_table pipes i = fold close_both pipes t2"
    by (simp add: child_table_def child_setup_def t1_def t2_def)
  show "child_table pipes i fd = [0 \<mapsto> (if i = 0 then Tty_In else Read_End (i - 1)),
     1 \<mapsto> (if i = length pipes then Tty_Out else Write_End i), 2 \<mapsto> Tty_Err] fd"
    using f t(3) o unfolding c t2 t1 fold_close_both
    by (cases "fd \<in> set (pipe_fds pipes)"; cases "fd \<in> {0, 1, 2}") auto
qed

lemma child_shows_last: "fresh_pipes pipes \<Longrightarrow>
  stdout_of (child_shows (child_table pipes (length pipes)) es) = stdout_of es"
  by (induction es rule: stdout_of.induct) (auto simp: child_shows_def child_wiring)

lemma child_shows_inner: "fresh_pipes pipes \<Longrightarrow> i < length pipes \<Longrightarrow>
  stdout_of (child_shows (child_table pipes i) es) = []"
  by (induction es rule: stdout_of.induct) (auto simp: child_shows_def child_wiring)

lemma left_open_shows: "left_open (child_shows t es) fds = fds"
proof (induction es)
  case (Cons e es)
  then show ?case by (cases e) (simp_all add: child_shows_def)
qed (simp add: child_shows_def)

lemma left_open_children: "left_open (concat (map (\<lambda>i. child_shows (t i) (e i)) is)) fds = fds"
  by (induction "is") (simp_all add: left_open_append left_open_shows)

text \<open>Whatever happens, only a failing fork leaves pipe ends open, and then all of them.\<close>

lemma execute_pipeline_fds:
  assumes "execute_pipeline pr sh ts n = Some (Returns r sh' es)"
  shows "left_open es {} =
    (if r = -1 \<and> (\<exists>i < n + 1. pr_forks pr i < 0) \<and> (\<exists>cs. split_loop n [] [] ts = Some (Inr cs))
     then (case make_pipes n (pr_pipes pr) [] of Inl _ \<Rightarrow> {} | Inr pipes \<Rightarrow> pipe_ends pipes) else {})"
  using assms
  by (auto simp: execute_pipeline_def left_open_append left_open_opened left_open_closed left_open_children Let_def
      simp del: upt_Suc fun_upd_apply
      split: Option.bind_splits sum.splits if_splits option.splits dest: make_pipes_Inl)

section \<open>Waiting\<close>

lemma wait_all_Some: "wait_all xs = Some ys \<longleftrightarrow> xs = map Some ys"
  by (induction xs arbitrary: ys rule: wait_all.induct) (auto simp: Cons_eq_map_conv)

text \<open>The pipeline as a whole: every command is run and all must succeed.\<close>

lemma execute_pipeline_runs:
  assumes cs: "split_at ts = cs" "\<forall>c\<in>set cs. c \<noteq> []" "length ts < 128"
    and n: "n = pipes_in ts"
    and ps: "pr_pipes pr = map Some pipes" "length pipes = n"
    and fk: "\<forall>i < n + 1. 0 \<le> pr_forks pr i"
    and st: "map (\<lambda>i. child_run (pr_children pr i) sh (cs ! i)) [0..<length cs] = map Some rs"
  shows "execute_pipeline pr sh ts n =
    Some (Returns (if \<forall>r\<in>set rs. fst r = Some 0 then 0 else -1) sh
      (opened pipes @ concat (map close_pipe pipes) @
       concat (map (\<lambda>i. child_shows (child_table pipes i) (snd (rs ! i))) [0..<length rs])))"
proof -
  have l: "length cs = n + 1" using cs(1) n length_split_at by blast
  have lr: "length rs = n + 1" using arg_cong[OF st, of length] l by simp
  have ne: "cs \<noteq> []" using l by auto
  have "split_loop n [] [] ts = Some (Inr cs)"
    using split_loop_eq[of "[]" ts n "[]"] cs n ne by (auto dest: list.set_sel(2))
  moreover have "make_pipes n (pr_pipes pr) [] = Inr pipes"
    using make_pipes_Some[of pipes n "[]" "[]"] ps by simp
  moreover have "\<not> (\<exists>i < n + 1. pr_forks pr i < 0)" using fk by (meson linorder_not_less)
  moreover have "wait_all (map (\<lambda>i. child_run (pr_children pr i) sh (cs ! i)) [0..<n + 1]) = Some rs"
    using st l by (simp only: wait_all_Some)
  ultimately show ?thesis by (auto simp add: execute_pipeline_def Let_def lr simp del: upt_Suc)
qed

text \<open>On the terminal appears what the last command writes.\<close>

lemma stdout_concat: "(\<And>xs. xs \<in> set xss \<Longrightarrow> stdout_of xs = []) \<Longrightarrow> stdout_of (concat xss) = []"
  by (induction xss) auto

lemma stdout_pipe_events: "stdout_of (opened pipes) = []" "stdout_of (concat (map close_pipe pipes)) = []"
  by (induction pipes) (auto simp: opened_def close_pipe_def)

lemma pipeline_stdout:
  assumes "fresh_pipes pipes" and "length rs = length pipes + 1"
  shows "stdout_of (concat (map (\<lambda>i. child_shows (child_table pipes i) (snd (rs ! i))) [0..<length rs])) =
    stdout_of (snd (last rs))"
proof -
  have "last rs = rs ! length pipes" using assms(2) by (cases rs rule: rev_cases) (auto simp: nth_append)
  moreover have "stdout_of (concat (map (\<lambda>i. child_shows (child_table pipes i) (snd (rs ! i))) [0..<length pipes])) = []"
    using assms(1) by (intro stdout_concat) (auto simp: child_shows_inner)
  ultimately show ?thesis using assms by (simp add: child_shows_last)
qed

end
