(* ===== verification/Execute.thy ===== *)
theory Execute
  imports Pipeline
begin

text \<open>
  \<open>execute_command\<close> of commands.c: the syntax checks on pipes, then a pipeline, a builtin, an
  assignment, or an external program.
\<close>

text \<open>The scan for pipes: the flag \<open>previous_pipe\<close>, the count, and the messages.\<close>

fun pipe_scan :: "bool \<Rightarrow> nat \<Rightarrow> string list \<Rightarrow> nat \<times> event list" where
  "pipe_scan previous_pipe n [] = (n, [])"
| "pipe_scan previous_pipe n (t # ts) =
     (if t = pipe_token then
        if previous_pipe
        then (let (m, es) = pipe_scan previous_pipe n ts in (m, pipe_syntax_error @ es))
        else pipe_scan True (n + 1) ts
      else pipe_scan False n ts)"

definition prepend :: "event list \<Rightarrow> outcome \<Rightarrow> outcome" where
  "prepend es r =
     (case r of
        Returns n sh fs \<Rightarrow> Returns n sh (es @ fs)
      | Exits n fs \<Rightarrow> Exits n (es @ fs)
      | Stays fs \<Rightarrow> Stays (es @ fs))"

text \<open>An assignment: a value with a dollar sign is expanded first; the key and value are freed.\<close>

definition assign :: "shell \<Rightarrow> string \<Rightarrow> outcome checked" where
  "assign sh t = do {
     valid \<leftarrow> is_valid_varname t;
     k \<leftarrow> find_key (Some t);
     if valid then do {
       v \<leftarrow> find_value (Some t);
       v' \<leftarrow> (if strchr v dollar \<noteq> None then expand_variables (sh_vars sh) (Some v) else Some v);
       free_str k;
       Some (Returns 0 (sh\<lparr>sh_vars := snd (set_variable (snd k) v' (sh_vars sh))\<rparr>) [])
     } else do {
       free_str k;
       Some (Returns (-1) sh (display_error ''ERROR: Invalid Variable name : '' (snd k)))
     }
   }"

definition execute_single :: "os_replies \<Rightarrow> shell \<Rightarrow> string list \<Rightarrow> outcome checked" where
  "execute_single os sh tokens =
     (case check_builtin (hd tokens) of
        Some b \<Rightarrow> do {
          r \<leftarrow> run_builtin b os sh tokens;
          Some (case r of
              Returns err sh' es \<Rightarrow>
                if err = -1
                then Returns (-1) sh' (es @ display_error ''ERROR: Builtin failed: '' (hd tokens))
                else Returns 0 sh' es
            | other \<Rightarrow> other)
        }
      | None \<Rightarrow>
          if strchr (hd tokens) (CHR ''='') \<noteq> None \<and> length tokens = 1 then assign sh (hd tokens)
          else
            let (result, es) = execute_bin os tokens in
            Some (Returns 0 sh
              (if result = -1 then es @ display_error ''ERROR: Unknown command: '' (hd tokens) else es)))"

definition execute_command :: "os_replies \<Rightarrow> pipe_replies \<Rightarrow> shell \<Rightarrow> string list \<Rightarrow> outcome checked" where
  "execute_command os pr sh tokens =
     (let (number_of_pipes, es) = pipe_scan False 0 tokens in
      map_option (prepend es)
        (if number_of_pipes > 0 then
           if hd tokens = pipe_token \<or> last tokens = pipe_token
           then Some (Returns (-1) sh pipe_syntax_error)
           else do {
             r \<leftarrow> execute_pipeline pr sh tokens number_of_pipes;
             Some (case r of
                 Returns result sh' fs \<Rightarrow>
                   if result = -1 then Returns (-1) sh' (fs @ display_error ''ERROR: Pipeline failed: '' [])
                   else Returns 0 sh' fs
               | other \<Rightarrow> other)
           }
         else if tokens = [] then Some (Returns 0 sh [])
         else execute_single os sh tokens))"

section \<open>Lemmas on pipes\<close>

lemma pipe_scan_shift: "fst (pipe_scan p n ts) = n + fst (pipe_scan p 0 ts)"
proof (induction ts arbitrary: p n)
  case (Cons t ts)
  show ?case using Cons[of True "n + 1"] Cons[of True 1] Cons[of False n] Cons[of True n]
    by (cases p) (simp_all add: case_prod_unfold Let_def)
qed simp

text \<open>However the pipes are placed, no store of the split is out of range.\<close>

lemma split_loop_total:
  assumes "length cmds + fst (pipe_scan (cmds \<noteq> [] \<and> cur = []) 0 ts) = n" and "length cur + length ts < 128"
    and "cmds = [] \<and> cur = [] \<longrightarrow> ts \<noteq> [] \<and> hd ts \<noteq> pipe_token"
  shows "\<exists>r. split_loop n cmds cur ts = Some r"
  using assms
proof (induction n cmds cur ts rule: split_loop.induct)
  case (2 n cmds cur t ts)
  have st: "store_ok n cmds cur" using "2.prems"(1,2) by (simp add: store_ok_def)
  show ?case
  proof (cases "t = pipe_token")
    case True
    show ?thesis
    proof (cases "cmds \<noteq> [] \<and> cur = []")
      case False
      have "length (cmds @ [cur]) + fst (pipe_scan True 0 ts) = n"
        using "2.prems"(1) False True pipe_scan_shift[of True 1 ts] by simp
      then have "\<exists>r. split_loop n (cmds @ [cur]) [] ts = Some r"
        using "2.prems"(2) by (intro "2.IH"(1)[OF True False]) (auto simp: st)
      then show ?thesis using True False st by simp
    qed (use True in simp)
  next
    case False
    have "\<exists>r. split_loop n cmds (cur @ [t]) ts = Some r"
      using "2.prems" False by (intro "2.IH"(2)[OF False]) (auto simp: st)
    then show ?thesis using False st by simp
  qed
qed (auto simp: store_ok_def)

lemma execute_pipeline_total:
  assumes "pipe_scan False 0 ts = (n, es)" and "ts \<noteq> []" "hd ts \<noteq> pipe_token" and "length ts < 128"
  shows "execute_pipeline pr sh ts n \<noteq> fault"
proof -
  obtain r where "split_loop n [] [] ts = Some r"
    using split_loop_total[of "[]" "[]" ts n] assms by auto
  then show ?thesis by (auto simp: execute_pipeline_def Let_def split: sum.splits option.splits)
qed

lemma pipe_scan_pos: "pipe_token \<in> set ts \<Longrightarrow> 0 < fst (pipe_scan False n ts)"
proof (induction ts arbitrary: n)
  case (Cons t ts)
  then show ?case using pipe_scan_shift[of True "n + 1" ts] by auto
qed simp

text \<open>A line with pipes, wherever they are, is an error or is run, but never faults.\<close>

lemma execute_command_pipes_total:
  assumes "pipe_token \<in> set ts" and "length ts < 128"
  shows "execute_command os pr sh ts \<noteq> fault"
proof -
  obtain n es where s: "pipe_scan False 0 ts = (n, es)" by (metis prod.exhaust)
  have n: "n > 0" and ne: "ts \<noteq> []" using pipe_scan_pos[OF assms(1), of 0] s assms(1) by auto
  show ?thesis
  proof (cases "hd ts = pipe_token \<or> last ts = pipe_token")
    case False
    then show ?thesis using execute_pipeline_total[OF s ne _ assms(2), of pr sh] s n
      by (auto simp: execute_command_def)
  qed (use s n in \<open>simp add: execute_command_def\<close>)
qed

section \<open>The table of builtins\<close>

text \<open>The search finds a name exactly, and the slot behind the last name holds NULL.\<close>

lemma builtin_names_short: "n \<in> set BUILTINS \<Longrightarrow> length n < MAX_STR_LEN"
  by (auto simp: BUILTINS_def)

lemma strncmp_builtin:
  assumes "length n < MAX_STR_LEN"
  shows "strncmp_eq MAX_STR_LEN n cmd \<longleftrightarrow> cmd = n"
proof
  assume "strncmp_eq MAX_STR_LEN n cmd"
  then have t: "take MAX_STR_LEN cmd = n" using assms by (simp add: strncmp_eq_def)
  then have "length cmd < MAX_STR_LEN" using assms by auto
  then show "cmd = n" using t by simp
qed (simp add: strncmp_eq_def)

lemma builtin_index_eq:
  "i \<le> BUILTINS_COUNT \<Longrightarrow> builtin_index i cmd = i + length (takeWhile (\<lambda>n. n \<noteq> cmd) (drop i BUILTINS))"
proof (induction i cmd rule: builtin_index.induct)
  case (1 i cmd)
  have len: "length BUILTINS = BUILTINS_COUNT" by (simp add: BUILTINS_def)
  show ?case
  proof (cases "i < BUILTINS_COUNT")
    case True
    have d: "drop i BUILTINS = BUILTINS ! i # drop (i + 1) BUILTINS"
      using True len by (simp add: Cons_nth_drop_Suc)
    have c: "strncmp_eq MAX_STR_LEN (BUILTINS ! i) cmd \<longleftrightarrow> cmd = BUILTINS ! i"
      using True len by (intro strncmp_builtin builtin_names_short nth_mem) simp
    show ?thesis
    proof (cases "cmd = BUILTINS ! i")
      case eq: True
      then show ?thesis using c d by (subst builtin_index.simps) simp
    next
      case False
      then have "builtin_index (i + 1) cmd =
          i + 1 + length (takeWhile (\<lambda>n. n \<noteq> cmd) (drop (i + 1) BUILTINS))"
        using "1.IH" True c by simp
      then show ?thesis using True False c d by (subst builtin_index.simps) simp
    qed
  next
    case False
    then show ?thesis using "1.prems" len by (subst builtin_index.simps) simp
  qed
qed

lemma check_builtin_name:
  assumes "i < BUILTINS_COUNT"
  shows "check_builtin (BUILTINS ! i) = BUILTINS_FN ! i"
proof -
  have d: "distinct BUILTINS" "length BUILTINS = BUILTINS_COUNT" by (simp_all add: BUILTINS_def)
  have "takeWhile (\<lambda>n. n \<noteq> BUILTINS ! i) BUILTINS = take i BUILTINS"
  proof (rule takeWhile_eq_take_P_nth)
    show "BUILTINS ! k \<noteq> BUILTINS ! i" if "k < i" "k < length BUILTINS" for k
      using that d assms by (simp add: nth_eq_iff_index_eq)
  qed simp
  then show ?thesis using assms d builtin_index_eq[of 0 "BUILTINS ! i"] by (simp add: check_builtin_def)
qed

lemma check_builtin_None: "check_builtin cmd = None \<longleftrightarrow> cmd \<notin> set BUILTINS"
proof
  assume "cmd \<notin> set BUILTINS"
  then have "takeWhile (\<lambda>n. n \<noteq> cmd) BUILTINS = BUILTINS"
    unfolding takeWhile_all_iff by auto
  then have "builtin_index 0 cmd = BUILTINS_COUNT"
    using builtin_index_eq[of 0 cmd] by (simp add: BUILTINS_def)
  then show "check_builtin cmd = None" by (simp add: check_builtin_def BUILTINS_FN_def)
next
  assume n: "check_builtin cmd = None"
  show "cmd \<notin> set BUILTINS"
  proof
    assume "cmd \<in> set BUILTINS"
    moreover have "length BUILTINS = BUILTINS_COUNT" by (simp add: BUILTINS_def)
    ultimately obtain i where i: "i < BUILTINS_COUNT" "BUILTINS ! i = cmd"
      by (auto simp: in_set_conv_nth)
    have "\<forall>i < BUILTINS_COUNT. BUILTINS_FN ! i \<noteq> None"
      by (simp add: BUILTINS_FN_def All_less_Suc numeral_eq_Suc)
    then show False using n check_builtin_name[OF i(1)] i by auto
  qed
qed

section \<open>Assignments and programs\<close>

lemma equals_not_builtin: "CHR ''='' \<in> set t \<Longrightarrow> check_builtin t = None"
  by (auto simp: check_builtin_None BUILTINS_def)

lemma execute_assignment:
  assumes "CHR ''='' \<notin> set k" and "valid_name k" and "dollar \<notin> set v"
  shows "execute_command os pr sh [k @ CHR ''='' # v] =
    Some (Returns 0 (sh\<lparr>sh_vars := snd (set_variable k v (sh_vars sh))\<rparr>) [])"
proof -
  have "k @ CHR ''='' # v \<noteq> pipe_token" by (auto simp: pipe_token_def append_eq_Cons_conv)
  then show ?thesis using assms
    by (simp add: execute_command_def execute_single_def equals_not_builtin assign_def
        is_valid_varname_assignment find_key_assignment find_value_assignment free_str_def prepend_def
        strchr_def)
qed

lemma execute_bad_assignment:
  assumes "CHR ''='' \<notin> set k" and "\<not> valid_name k"
  shows "execute_command os pr sh [k @ CHR ''='' # v] =
    Some (Returns (-1) sh (display_error ''ERROR: Invalid Variable name : '' k))"
proof -
  have "k @ CHR ''='' # v \<noteq> pipe_token" by (auto simp: pipe_token_def append_eq_Cons_conv)
  then show ?thesis using assms
    by (simp add: execute_command_def execute_single_def equals_not_builtin assign_def
        is_valid_varname_assignment find_key_assignment find_value_assignment free_str_def prepend_def
        strchr_def)
qed

lemma pipe_scan_none: "pipe_token \<notin> set ts \<Longrightarrow> pipe_scan p n ts = (n, [])"
  by (induction ts arbitrary: p) auto

text \<open>
  An external program that fails is reported as unknown, and the call still returns 0. The
  events are written out: what the attempt in /bin leads to, and the one in /usr/bin.
\<close>

lemma exec_child_cases:
  "exec_child os ts =
     (case os_exec os (take MAX_PATH_LEN (''/bin/'' @ hd ts)) ts of Some (st, out) \<Rightarrow> (st, [Out out])
      | None \<Rightarrow> (case os_exec os (take MAX_PATH_LEN (''/usr/bin/'' @ hd ts)) ts of Some (st, out) \<Rightarrow> (st, [Out out])
      | None \<Rightarrow> (Some 1, display_error ''ERROR: Unknown command: '' (hd ts))))"
proof -
  have "cmd_path d c = take MAX_PATH_LEN (d @ c)" for d c by (simp add: cmd_path_def snprintf_def)
  then show ?thesis by (simp only: exec_child_def)
qed

lemma execute_external:
  assumes "ts \<noteq> []" and "pipe_token \<notin> set ts" and "hd ts \<notin> set BUILTINS" and "CHR ''='' \<notin> set (hd ts)"
  defines "unknown \<equiv> display_error ''ERROR: Unknown command: '' (hd ts)"
  shows "execute_command os pr sh ts = Some (Returns 0 sh
    (if os_fork os < 0 then display_error ''ERROR: Fork Failed'' [] @ unknown
     else case os_exec os (take MAX_PATH_LEN (''/bin/'' @ hd ts)) ts of
         Some (st, out) \<Rightarrow> Out out # (if st = Some 0 then [] else unknown)
       | None \<Rightarrow>
           (case os_exec os (take MAX_PATH_LEN (''/usr/bin/'' @ hd ts)) ts of
              Some (st, out) \<Rightarrow> Out out # (if st = Some 0 then [] else unknown)
            | None \<Rightarrow> unknown @ unknown)))"
proof -
  have "check_builtin (hd ts) = None" using assms(3) by (simp add: check_builtin_None)
  then have "execute_command os pr sh ts = Some (Returns 0 sh
      (let (r, es) = execute_bin os ts in if r = -1 then es @ unknown else es))"
    using assms(1,2,4)
    by (simp add: execute_command_def pipe_scan_none execute_single_def strchr_def prepend_def Let_def
        case_prod_unfold unknown_def)
  then show ?thesis
    unfolding execute_bin_def exec_child_cases unknown_def[symmetric] by (simp split: option.split prod.split)
qed

section \<open>The invariant of the shell\<close>

definition shell_ok :: "shell \<Rightarrow> bool" where
  "shell_ok sh \<longleftrightarrow> vars_ok (sh_vars sh) \<and> table_ok (sh_jobs sh)"

lemma expand_variables_length:
  "vars_ok vs \<Longrightarrow> expand_variables vs s = Some r \<Longrightarrow> length r \<le> MAX_STR_LEN"
  using vars.expansion_length[of vs] by (auto simp: expand_variables_def split: option.splits)

lemma assign_ok:
  assumes "shell_ok sh" and "length t \<le> MAX_STR_LEN" and "assign sh t = Some (Returns r sh' es)"
  shows "shell_ok sh' \<and> sh_jobs sh' = sh_jobs sh"
proof (cases "CHR ''='' \<in> set t")
  case False
  then show ?thesis using assms(3) by (simp add: assign_def is_valid_varname_no_assignment)
next
  case True
  then obtain k v where t: "t = k @ CHR ''='' # v" "CHR ''='' \<notin> set k" by (rule assignment_split)
  show ?thesis
  proof (cases "valid_name k")
    case False
    then show ?thesis using assms t
      by (simp add: assign_def is_valid_varname_assignment find_key_assignment free_str_def)
  next
    case valid: True
    obtain v' where v': "(if strchr v dollar \<noteq> None then expand_variables (sh_vars sh) (Some v) else Some v) = Some v'"
      "sh' = sh\<lparr>sh_vars := snd (set_variable k v' (sh_vars sh))\<rparr>"
      using assms(3) t valid
      by (auto simp: assign_def is_valid_varname_assignment find_key_assignment find_value_assignment
          free_str_def split: Option.bind_splits if_splits)
    have "length v' \<le> MAX_STR_LEN"
      using v'(1) assms(1,2) t expand_variables_length by (auto simp: shell_ok_def split: if_splits)
    then show ?thesis using v'(2) assms(1) valid set_variable_ok by (simp add: shell_ok_def)
  qed
qed

lemma run_start_client_keeps:
  "run_builtin Bn_start_client os sh ts = Some (Returns r sh' es) \<Longrightarrow>
     sh_vars sh' = sh_vars sh \<and> sh_jobs sh' = sh_jobs sh \<and> sh_server sh' = sh_server sh"
  by (auto simp: run_builtin_def) (auto split: start_result.splits client_result.splits if_splits)

lemma run_builtin_ok:
  assumes "shell_ok sh" and "run_builtin b os sh ts = Some (Returns r sh' es)"
  shows "shell_ok sh' \<and> in_use (sh_jobs sh') = in_use (sh_jobs sh)"
proof (cases "b = Bn_start_client")
  case True
  then show ?thesis using assms run_start_client_keeps by (fastforce simp: shell_ok_def)
next
  case False
  then show ?thesis using assms
    by (cases b) (auto simp: run_builtin_def Let_def shell_ok_def split: option.splits prod.splits
        dest: bn_kill_table)
qed

lemma execute_single_ok:
  assumes "shell_ok sh" and "length (hd ts) \<le> MAX_STR_LEN" and "execute_single os sh ts = Some (Returns r sh' es)"
  shows "shell_ok sh' \<and> in_use (sh_jobs sh') = in_use (sh_jobs sh)"
proof (cases "check_builtin (hd ts)")
  case (Some b)
  then obtain q where q: "run_builtin b os sh ts = Some q" using assms(3)
    by (auto simp: execute_single_def split: Option.bind_splits)
  then show ?thesis using assms(1,3) Some run_builtin_ok
    by (cases q) (auto simp: execute_single_def split: if_splits)
next
  case None
  then show ?thesis using assms assign_ok[OF assms(1,2)]
    by (auto simp: execute_single_def Let_def case_prod_unfold split: if_splits)
qed

lemma execute_pipeline_keeps: "execute_pipeline pr sh ts n = Some (Returns r sh' es) \<Longrightarrow> sh' = sh"
  by (auto simp: execute_pipeline_def Let_def split: Option.bind_splits sum.splits if_splits option.splits)

lemma prepend_Returns: "prepend es q = Returns r sh' fs \<longleftrightarrow> (\<exists>gs. q = Returns r sh' gs \<and> fs = es @ gs)"
  by (cases q) (auto simp: prepend_def)

text \<open>The branch that \<open>execute_command\<close> takes.\<close>

lemma execute_command_cases:
  assumes "execute_command os pr sh ts = Some (Returns r sh' es)"
  shows "sh' = sh \<or> (\<exists>n gs q. execute_pipeline pr sh ts n = Some (Returns q sh' gs)) \<or>
    (ts \<noteq> [] \<and> (\<exists>gs. execute_single os sh ts = Some (Returns r sh' gs)))"
proof -
  obtain n fs where s: "pipe_scan False 0 ts = (n, fs)" by (metis prod.exhaust)
  show ?thesis
  proof (cases "n > 0 \<and> hd ts \<noteq> pipe_token \<and> last ts \<noteq> pipe_token")
    case True
    then obtain q where q: "execute_pipeline pr sh ts n = Some q"
      using assms s by (cases "execute_pipeline pr sh ts n") (auto simp: execute_command_def)
    show ?thesis
    proof (cases q)
      case (Returns k sh1 gs)
      then have "sh1 = sh'" using assms s True q
        by (auto simp: execute_command_def prepend_Returns split: if_splits)
      then show ?thesis using q Returns by blast
    qed (use assms s True q in \<open>auto simp: execute_command_def prepend_Returns\<close>)
  next
    case False
    then show ?thesis using assms s
      by (cases "n = 0"; cases "ts = []") (auto simp: execute_command_def prepend_Returns)
  qed
qed

lemma execute_command_ok:
  assumes "shell_ok sh" and "ts \<noteq> [] \<longrightarrow> length (hd ts) \<le> MAX_STR_LEN"
    and "execute_command os pr sh ts = Some (Returns r sh' es)"
  shows "shell_ok sh' \<and> in_use (sh_jobs sh') = in_use (sh_jobs sh)"
  using execute_command_cases[OF assms(3)] execute_pipeline_keeps execute_single_ok[OF assms(1)] assms(1,2)
  by metis

end
