(* ===== verification/Mysh.thy ===== *)
theory Mysh
  imports Execute
begin

text \<open>
  src/src/mysh.c: the main loop of the shell. One pass reads a line, makes tokens of it,
  expands variables, reports finished jobs, and runs the line in the foreground or in the
  background. The state of a session is the shell's state and the array of expanded tokens.
\<close>

abbreviation TEMP_SIZE :: nat where "TEMP_SIZE \<equiv> MAX_STR_LEN * 2 + 1"
abbreviation EXPANDED_SIZE :: nat where "EXPANDED_SIZE \<equiv> MAX_STR_LEN * 2"

record session =
  ss_shell :: shell
  expanded_tokens :: "string option list"
  expanded_token_count :: nat

section \<open>From a line to tokens\<close>

abbreviation bar :: char where "bar \<equiv> CHR ''|''"

text \<open>The copy into \<open>temp_buffer\<close>, which has room for \<open>TEMP_SIZE\<close> bytes.\<close>

fun space_loop :: "string \<Rightarrow> string \<Rightarrow> string checked" where
  "space_loop temp [] = do { require (length temp < TEMP_SIZE); Some temp }"
| "space_loop temp (c # cs) =
     (if c = bar then do {
        require (length temp + 3 \<le> TEMP_SIZE);
        space_loop (temp @ [CHR '' '', bar, CHR '' '']) cs
      } else do {
        require (length temp + 1 \<le> TEMP_SIZE);
        space_loop (temp @ [c]) cs
      })"

definition read_tokens :: "string \<Rightarrow> string list checked" where
  "read_tokens input_buf =
     (if strchr input_buf bar \<noteq> None then do {
        temp_buffer \<leftarrow> space_loop [] input_buf;
        tokenize_input MAX_STR_LEN temp_buffer
      } else tokenize_input MAX_STR_LEN input_buf)"

text \<open>Expanding the tokens; every expansion takes a slot of the array.\<close>

fun expand_tokens ::
  "var_list \<Rightarrow> string list \<Rightarrow> string option list \<Rightarrow> nat \<Rightarrow> (string list \<times> string option list \<times> nat) checked" where
  "expand_tokens vs [] slots n = Some ([], slots, n)"
| "expand_tokens vs (t # ts) slots n =
     (if strchr t dollar \<noteq> None then do {
        e \<leftarrow> expand_variables vs (Some t);
        require (n < length slots);
        (ts', slots', n') \<leftarrow> expand_tokens vs ts (slots[n := Some e]) (n + 1);
        Some (e # ts', slots', n')
      } else do {
        (ts', slots', n') \<leftarrow> expand_tokens vs ts slots n;
        Some (t # ts', slots', n')
      })"

section \<open>Background jobs\<close>

text \<open>The third argument of strncat is a size_t: a negative \<open>remaining\<close> is a huge one.\<close>

definition size_of_int :: "int \<Rightarrow> nat" where
  "size_of_int i = unat (word_of_int i :: size_t)"

abbreviation COMMAND_SIZE :: nat where "COMMAND_SIZE \<equiv> MAX_STR_LEN + 1"

fun bg_command :: "int \<Rightarrow> string \<Rightarrow> string list \<Rightarrow> string checked" where
  "bg_command remaining cmd [] = Some cmd"
| "bg_command remaining cmd (t # ts) =
     (if remaining > 0 then do {
        c1 \<leftarrow> strncat COMMAND_SIZE cmd t (size_of_int remaining);
        let rem = remaining - int (length t);
        c2 \<leftarrow> (if ts \<noteq> [] then strncat COMMAND_SIZE c1 '' '' (size_of_int rem) else Some c1);
        bg_command rem c2 ts
      } else Some cmd)"

definition register_job :: "int \<Rightarrow> string \<Rightarrow> job_table \<Rightarrow> (job_table \<times> event list) checked" where
  "register_job p cmd j =
     (let index = find_new_spot j in
      if index = -1 then Some (j, display_error ''ERROR: Too many background processes'' [])
      else do {
        (r, j') \<leftarrow> add_bg_process p cmd (nat index) j;
        Some (j', display_message (snprintf MAX_STR_LEN
          (''['' @ show_int (index + 1) @ ''] '' @ show_int p @ [LF])))
      })"

section \<open>One pass of the loop\<close>

text \<open>
  What the system does during one pass. A signal comes while the shell waits for the line:
  SIGINT usually makes read fail; SIGTERM stands for SIGHUP too, which has the same action.
\<close>

datatype shell_signal = SIGINT | SIGTERM

record line_input =
  li_signal :: "shell_signal option"
  li_read :: read_reply
  li_tty :: string           \<comment> \<open>what the terminal holds beyond the bytes read\<close>
  li_reaped :: "int list"    \<comment> \<open>the children that waitpid reports\<close>
  li_os :: os_replies
  li_pipes :: pipe_replies
  li_fork :: int             \<comment> \<open>fork of a background job\<close>

datatype step_result =
    Next session "event list"
  | Shell_Exit int "event list"
  | Never "event list"

definition with_shell :: "session \<Rightarrow> shell \<Rightarrow> session" where
  "with_shell s sh = s\<lparr>ss_shell := sh\<rparr>"

text \<open>The exit command; \<open>fault\<close> when the array of expanded tokens is overrun.\<close>

definition exit_shell :: "line_input \<Rightarrow> session \<Rightarrow> step_result checked" where
  "exit_shell inp s = do {
     remove_all_var (sh_vars (ss_shell s)) (expanded_tokens s) (expanded_token_count s);
     let (r, g, es) = cleanup_server (kill_status (li_os inp)) (sh_server (ss_shell s));
     Some (Shell_Exit 0 es)
   }"

definition foreground :: "line_input \<Rightarrow> session \<Rightarrow> string list \<Rightarrow> step_result checked" where
  "foreground inp s tokens =
     map_option (\<lambda>r. case r of
         Returns n sh es \<Rightarrow> Next (with_shell s sh) es
       | Exits n es \<Rightarrow> Shell_Exit n es
       | Stays es \<Rightarrow> Never es)
       (execute_command (li_os inp) (li_pipes inp) (ss_shell s) tokens)"

text \<open>
  The line ends with an ampersand, which is dropped first. In the child (fork reply 0) the
  process exits; its message names the first token, if there is one.
\<close>

definition background :: "line_input \<Rightarrow> session \<Rightarrow> string list \<Rightarrow> step_result checked" where
  "background inp s tokens =
     (if li_fork inp < 0 then Some (Next s (display_error ''ERROR: Fork Failed'' []))
      else if li_fork inp = 0 then
        map_option (\<lambda>r. case r of
            Returns n sh es \<Rightarrow>
              if n = -1 then Shell_Exit 1 (es @ display_error ''ERROR: Unknown command: '' (hd tokens))
              else Shell_Exit 0 es
          | Exits n es \<Rightarrow> Shell_Exit n es
          | Stays es \<Rightarrow> Never es)
          (execute_command (li_os inp) (li_pipes inp) (ss_shell s) tokens)
      else do {
        cmd \<leftarrow> bg_command (int MAX_STR_LEN) [] tokens;
        (j, es) \<leftarrow> register_job (li_fork inp) cmd (sh_jobs (ss_shell s));
        Some (Next (with_shell s ((ss_shell s)\<lparr>sh_jobs := j\<rparr>)) es)
      })"

definition run_line :: "line_input \<Rightarrow> int \<Rightarrow> session \<Rightarrow> string list \<Rightarrow> step_result checked" where
  "run_line inp ret s tokens =
     (if tokens = [] then Some (Next s [])
      else if ret \<noteq> -1 \<and> hd tokens = ''exit'' then exit_shell inp s
      else if last tokens = ''&'' then background inp s (butlast tokens)
      else foreground inp s tokens)"

definition prepend_step :: "event list \<Rightarrow> step_result \<Rightarrow> step_result" where
  "prepend_step es r =
     (case r of
        Next s fs \<Rightarrow> Next s (es @ fs)
      | Shell_Exit n fs \<Rightarrow> Shell_Exit n (es @ fs)
      | Never fs \<Rightarrow> Never (es @ fs))"

definition read_and_run :: "line_input \<Rightarrow> session \<Rightarrow> step_result checked" where
  "read_and_run inp s =
       (case get_input (li_read inp) (li_tty inp) of
          Input_Exit \<Rightarrow> Some (Shell_Exit 0 [])
        | Input ret input_buf tty es \<Rightarrow> do {
            tokens \<leftarrow> read_tokens input_buf;
            (tokens', slots, n) \<leftarrow>
              expand_tokens (sh_vars (ss_shell s)) tokens (expanded_tokens s) (expanded_token_count s);
            (j, fs) \<leftarrow> display_done_process (li_reaped inp) (sh_jobs (ss_shell s));
            let s1 = \<lparr>ss_shell = (ss_shell s)\<lparr>sh_jobs := j\<rparr>, expanded_tokens = slots, expanded_token_count = n\<rparr>;
            r \<leftarrow> run_line inp ret s1 tokens';
            Some (prepend_step (es @ fs) r)
          })"

definition handler :: "session \<Rightarrow> session \<times> event list" where
  "handler s = (s, display_message [LF])"

definition exit_handler :: "os_replies \<Rightarrow> session \<Rightarrow> step_result" where
  "exit_handler os s =
     (let (r, g, es) = cleanup_server (kill_status os) (sh_server (ss_shell s)) in Shell_Exit 0 es)"

text \<open>The SIGINT action that is installed: that of \<open>main\<close>, or one left behind by start-client.\<close>

definition sigint_handler :: "session \<Rightarrow> session \<times> event list" where
  "sigint_handler s =
     (case sh_sigint (ss_shell s) of
        Shell_Handler \<Rightarrow> handler s
      | Client_Handler \<Rightarrow>
          (with_shell s ((ss_shell s)\<lparr>sh_disconnect := client_signal_handler 2 (sh_disconnect (ss_shell s))\<rparr>), []))"

definition main_step :: "line_input \<Rightarrow> session \<Rightarrow> step_result checked" where
  "main_step inp s =
     map_option (prepend_step (display_message ''mysh$ ''))
       (case li_signal inp of
          None \<Rightarrow> read_and_run inp s
        | Some SIGINT \<Rightarrow> (let (s1, es) = sigint_handler s in map_option (prepend_step es) (read_and_run inp s1))
        | Some SIGTERM \<Rightarrow> Some (exit_handler (li_os inp) s))"

text \<open>The loop, for as many lines as there are inputs.\<close>

fun main_loop :: "line_input list \<Rightarrow> session \<Rightarrow> step_result checked" where
  "main_loop [] s = Some (Next s [])"
| "main_loop (i # is) s = do {
     r \<leftarrow> main_step i s;
     case r of
       Next s1 es \<Rightarrow> map_option (prepend_step es) (main_loop is s1)
     | other \<Rightarrow> Some other
   }"

definition start_shell :: shell where
  "start_shell = \<lparr>sh_vars = [], sh_jobs = initialize_available_indices zero_table, sh_server = no_server,
     sh_disconnect = False, sh_sigint = Shell_Handler\<rparr>"

definition start_session :: session where
  "start_session = \<lparr>ss_shell = start_shell, expanded_tokens = replicate EXPANDED_SIZE None,
     expanded_token_count = 0\<rparr>"

text \<open>\<open>main\<close>: the three sigaction calls (SIGINT, SIGTERM, SIGHUP) come first.\<close>

definition main_shell :: "int list \<Rightarrow> line_input list \<Rightarrow> step_result checked" where
  "main_shell sigaction_replies inputs =
     (if -1 \<in> set (take 3 sigaction_replies)
      then Some (Shell_Exit (-1) (display_error ''ERROR: sigaction failed'' []))
      else main_loop inputs start_session)"

end
