(* ===== verification/Mysh_Correct.thy ===== *)
theory Mysh_Correct
  imports Mysh
begin

text \<open>
  What one pass of the main loop guarantees: the tokens of a line, the invariant of a
  session, the text of a background job, and where the fixed arrays are overrun.
\<close>

section \<open>Pipes are tokens of their own\<close>

definition spaced :: "string \<Rightarrow> string" where
  "spaced s = concat (map (\<lambda>c. if c = bar then [CHR '' '', bar, CHR '' ''] else [c]) s)"

lemma length_spaced: "length (spaced s) = length s + 2 * count_list s bar"
  by (induction s) (auto simp: spaced_def)

lemma space_loop_eq:
  "space_loop temp s = (if length temp + length (spaced s) < TEMP_SIZE then Some (temp @ spaced s) else fault)"
  by (induction s arbitrary: temp) (auto simp: spaced_def)

lemma read_tokens_eq:
  "read_tokens s =
     (if bar \<in> set s then
        if length s + 2 * count_list s bar < TEMP_SIZE then tokenize_input MAX_STR_LEN (spaced s) else fault
      else tokenize_input MAX_STR_LEN s)"
  by (simp add: read_tokens_def space_loop_eq length_spaced strchr_def)

lemma spaced_id: "bar \<notin> set s \<Longrightarrow> spaced s = s"
  by (induction s) (auto simp: spaced_def)

lemma read_tokens_spaced: "read_tokens s = Some ts \<Longrightarrow> ts = strtok_all DELIMITERS (spaced s)"
  by (auto simp: read_tokens_eq tokenize_input_def Let_def spaced_id split: if_splits)

lemma blank_delimiter: "CHR '' '' \<in> set DELIMITERS"
  by (simp add: DELIMITERS_def)

lemma bar_not_delimiter: "bar \<notin> set DELIMITERS"
  by (simp add: DELIMITERS_def)

text \<open>A token holds a bar only when it is one.\<close>

lemma spaced_tokens: "t \<in> set (strtok_all DELIMITERS (spaced s)) \<Longrightarrow> bar \<in> set t \<Longrightarrow> t = pipe_token"
proof (induction s arbitrary: t rule: length_induct)
  case (1 s)
  show ?case
  proof (cases "bar \<in> set s")
    case False
    then have "set t \<subseteq> set s" using "1.prems"(1) strtok_all_clean[of t DELIMITERS s] spaced_id by auto
    then show ?thesis using "1.prems"(2) False by auto
  next
    case True
    obtain p q where s: "s = p @ bar # q" "bar \<notin> set p" using True by (metis split_list_first)
    have sp: "spaced s = p @ CHR '' '' # pipe_token @ CHR '' '' # spaced q"
      using s by (simp add: spaced_def pipe_token_def spaced_id[unfolded spaced_def])
    have w: "strtok_all DELIMITERS pipe_token = [pipe_token]"
      by (rule strtok_all_word) (simp_all add: pipe_token_def DELIMITERS_def)
    have "strtok_all DELIMITERS (spaced s) =
        strtok_all DELIMITERS p @ [pipe_token] @ strtok_all DELIMITERS (spaced q)"
      unfolding sp by (simp add: strtok_all_append blank_delimiter w)
    moreover have "t' = pipe_token" if "t' \<in> set (strtok_all DELIMITERS (spaced q))" "bar \<in> set t'" for t'
      using "1.IH"[rule_format, of q t'] that s(1) by simp
    moreover have "bar \<notin> set t" if "t \<in> set (strtok_all DELIMITERS p)"
      using strtok_all_clean[OF that] s(2) by auto
    ultimately show ?thesis using "1.prems" by auto
  qed
qed

lemma read_tokens_bar: "read_tokens s = Some ts \<Longrightarrow> t \<in> set ts \<Longrightarrow> bar \<in> set t \<Longrightarrow> t = pipe_token"
  using read_tokens_spaced spaced_tokens by blast

text \<open>A line without a bar is always split; one with bars when there are few enough of them.\<close>

lemma read_tokens_total:
  assumes "length s \<le> MAX_STR_LEN"
    and "bar \<notin> set s \<or> length s + 2 * count_list s bar < 2 * MAX_STR_LEN - 1"
  shows "read_tokens s = Some (strtok_all DELIMITERS (spaced s)) \<and>
    length (strtok_all DELIMITERS (spaced s)) < MAX_STR_LEN"
proof -
  have "length (spaced s) < 2 * MAX_STR_LEN - 1"
    using assms by (auto simp: length_spaced count_list_0_iff)
  then show ?thesis using assms tokenize_input_fits[of "spaced s" MAX_STR_LEN]
      length_strtok_all[of DELIMITERS "spaced s"]
    by (auto simp: read_tokens_eq spaced_id length_spaced)
qed

lemma read_tokens_overflow:
  "bar \<in> set s \<Longrightarrow> 2 * MAX_STR_LEN < length s + 2 * count_list s bar \<Longrightarrow> read_tokens s = fault"
  by (simp add: read_tokens_eq)

section \<open>Expanded tokens\<close>

definition needs_slot :: "string list \<Rightarrow> nat" where
  "needs_slot ts = length (filter (\<lambda>t. dollar \<in> set t) ts)"

lemma expand_tokens_slots:
  "expand_tokens vs ts slots n = Some (ts', slots', n') \<Longrightarrow>
     n' = n + needs_slot ts \<and> length slots' = length slots \<and> length ts' = length ts \<and>
     (n \<le> length slots \<longrightarrow> n' \<le> length slots)"
proof (induction vs ts slots n arbitrary: ts' slots' n' rule: expand_tokens.induct)
  case (2 vs t ts slots n)
  show ?case
  proof (cases "dollar \<in> set t")
    case True
    then obtain e us ss m where *: "expand_variables vs (Some t) = Some e" "n < length slots"
      "expand_tokens vs ts (slots[n := Some e]) (n + 1) = Some (us, ss, m)" "ts' = e # us" "slots' = ss" "n' = m"
      using "2.prems" by (auto simp: strchr_def split: Option.bind_splits if_splits)
    have "strchr t dollar \<noteq> None" using True by (simp add: strchr_def)
    then have "m = n + 1 + needs_slot ts \<and> length ss = length slots \<and> length us = length ts \<and>
        (n + 1 \<le> length slots \<longrightarrow> m \<le> length slots)"
      using "2.IH"(1)[OF _ *(1) _ *(3)] *(2) by simp
    then show ?thesis using * True by (simp add: needs_slot_def)
  next
    case False
    then obtain us where *: "expand_tokens vs ts slots n = Some (us, slots', n')" "ts' = t # us"
      using "2.prems" by (auto simp: strchr_def split: Option.bind_splits)
    have "\<not> strchr t dollar \<noteq> None" using False by (simp add: strchr_def)
    from "2.IH"(2)[OF this *(1)] show ?thesis using * False by (auto simp: needs_slot_def)
  qed
qed (simp add: needs_slot_def)

lemma expand_tokens_lengths:
  assumes "vars_ok vs"
  shows "expand_tokens vs ts slots n = Some (ts', slots', n') \<Longrightarrow> \<forall>t\<in>set ts. length t \<le> MAX_STR_LEN \<Longrightarrow>
     \<forall>t\<in>set ts'. length t \<le> MAX_STR_LEN"
proof (induction ts arbitrary: slots n ts' slots' n')
  case (Cons t ts)
  then obtain e us ss k m where *: "ts' = e # us" "expand_tokens vs ts ss k = Some (us, slots', n')"
    "e = t \<or> expand_variables vs (Some t) = Some e"
    by (auto split: Option.bind_splits if_splits)
  then have "length e \<le> MAX_STR_LEN" using Cons.prems(2) expand_variables_length[OF assms] by auto
  then show ?case using Cons.IH[OF *(2)] Cons.prems(2) *(1) by simp
qed simp

text \<open>The array is never emptied, so the shell fails after 256 expansions in all.\<close>

lemma expand_tokens_overflow:
  assumes "n \<le> length slots" and "length slots < n + needs_slot ts"
  shows "expand_tokens vs ts slots n = fault"
proof (cases "expand_tokens vs ts slots n")
  case (Some x)
  then show ?thesis using expand_tokens_slots[of vs ts slots n "fst x" "fst (snd x)" "snd (snd x)"] assms by simp
qed

text \<open>Tokens without a dollar sign pass unchanged and use no slot.\<close>

lemma expand_tokens_plain: "\<forall>t\<in>set ts. dollar \<notin> set t \<Longrightarrow> expand_tokens vs ts slots n = Some (ts, slots, n)"
  by (induction ts) (auto simp: strchr_def)

section \<open>The invariant of a session\<close>

definition session_ok :: "session \<Rightarrow> bool" where
  "session_ok s \<longleftrightarrow> shell_ok (ss_shell s) \<and> length (expanded_tokens s) = EXPANDED_SIZE \<and>
     expanded_token_count s \<le> EXPANDED_SIZE"

lemma start_session_ok: "session_ok start_session"
  using table_ok_init(1)[of zero_table]
  by (simp add: session_ok_def start_session_def start_shell_def shell_ok_def zero_table_def)

lemma spaced_filter:
  "filter (\<lambda>c. c \<noteq> bar) (filter (\<lambda>c. c \<notin> set DELIMITERS) (spaced s)) =
   filter (\<lambda>c. c \<noteq> bar) (filter (\<lambda>c. c \<notin> set DELIMITERS) s)"
  using blank_delimiter by (induction s) (auto simp: spaced_def)

lemma length_in_concat: "t \<in> set ts \<Longrightarrow> length t \<le> length (concat ts)"
  by (induction ts) auto

text \<open>Spacing the pipes out does not make a token longer than the line.\<close>

lemma spaced_token_length:
  assumes "length s \<le> MAX_STR_LEN" and t: "t \<in> set (strtok_all DELIMITERS (spaced s))"
  shows "length t \<le> MAX_STR_LEN"
proof (cases "bar \<in> set t")
  case True
  then have "t = pipe_token" using spaced_tokens[OF t] by blast
  then show ?thesis by (simp add: pipe_token_def)
next
  case False
  let ?nb = "filter (\<lambda>c. c \<noteq> bar)"
  have "?nb t = t" using False by (simp add: filter_id_conv) metis
  then have "length t \<le> length (concat (map ?nb (strtok_all DELIMITERS (spaced s))))"
    using t length_in_concat[of "?nb t"] by (metis image_eqI set_map)
  also have "\<dots> = length (?nb (filter (\<lambda>c. c \<notin> set DELIMITERS) s))"
    by (simp only: filter_concat[symmetric] concat_strtok_all spaced_filter)
  also have "\<dots> \<le> length s" by (meson length_filter_le le_trans)
  finally show ?thesis using assms(1) by simp
qed

lemma prepend_step_Next: "prepend_step es r = Next s fs \<longleftrightarrow> (\<exists>gs. r = Next s gs \<and> fs = es @ gs)"
  by (cases r) (auto simp: prepend_step_def)

lemma register_job_ok:
  assumes "table_ok j" and "register_job p cmd j = Some (j', es)"
  shows "table_ok j'"
proof (cases "in_use j < MAX_PROCESS")
  case True
  then show ?thesis using assms add_bg_process_spot[OF assms(1) True, of p cmd]
    by (auto simp: register_job_def find_new_spot_eq Let_def)
next
  case False
  then show ?thesis using assms by (simp add: register_job_def find_new_spot_eq)
qed

lemma background_Next:
  assumes "background inp s ts = Some (Next s' es)"
  obtains "s' = s"
  | j cmd es' where "register_job (li_fork inp) cmd (sh_jobs (ss_shell s)) = Some (j, es')"
      "s' = with_shell s ((ss_shell s)\<lparr>sh_jobs := j\<rparr>)"
proof (cases "li_fork inp = 0")
  case True
  obtain z where "execute_command (li_os inp) (li_pipes inp) (ss_shell s) ts = Some z"
    using assms True by (auto simp: background_def)
  then show ?thesis using assms True by (cases z) (auto simp: background_def split: if_splits)
next
  case False
  show ?thesis
  proof (cases "li_fork inp < 0")
    case True
    then have "s' = s" using assms by (simp add: background_def)
    then show ?thesis by (rule that(1))
  next
    case pos: False
    obtain cmd j es' where c: "register_job (li_fork inp) cmd (sh_jobs (ss_shell s)) = Some (j, es')"
      "s' = with_shell s ((ss_shell s)\<lparr>sh_jobs := j\<rparr>)"
      using assms False pos by (auto simp: background_def split: Option.bind_splits)
    then show ?thesis by (rule that(2))
  qed
qed

lemma foreground_Next:
  assumes "foreground inp s ts = Some (Next s' es)"
  obtains n sh fs where "execute_command (li_os inp) (li_pipes inp) (ss_shell s) ts = Some (Returns n sh fs)"
    "s' = with_shell s sh"
proof -
  obtain z where "execute_command (li_os inp) (li_pipes inp) (ss_shell s) ts = Some z"
    using assms by (auto simp: foreground_def)
  then show ?thesis using assms that by (cases z) (auto simp: foreground_def)
qed

text \<open>What a line does to the session: nothing, a job is registered, or a command was executed.\<close>

lemma run_line_Next:
  assumes "run_line inp ret s ts = Some (Next s' es)"
  obtains "s' = s"
  | j cmd es' where "register_job (li_fork inp) cmd (sh_jobs (ss_shell s)) = Some (j, es')"
      "s' = with_shell s ((ss_shell s)\<lparr>sh_jobs := j\<rparr>)"
  | n sh fs where "ts \<noteq> []" "execute_command (li_os inp) (li_pipes inp) (ss_shell s) ts = Some (Returns n sh fs)"
      "s' = with_shell s sh"
proof -
  consider "ts = []" | "ts \<noteq> []" "ret \<noteq> -1 \<and> hd ts = ''exit''"
    | "ts \<noteq> []" "\<not> (ret \<noteq> -1 \<and> hd ts = ''exit'')" "last ts = ''&''"
    | "ts \<noteq> []" "\<not> (ret \<noteq> -1 \<and> hd ts = ''exit'')" "last ts \<noteq> ''&''" by blast
  then show thesis
  proof cases
    case 1
    then show ?thesis using assms that(1) by (simp add: run_line_def)
  next
    case 2
    then have "exit_shell inp s = Some (Next s' es)" using assms by (simp add: run_line_def)
    then show ?thesis by (auto simp: exit_shell_def split: Option.bind_splits prod.splits)
  next
    case 3
    then have "background inp s (butlast ts) = Some (Next s' es)"
      using assms unfolding run_line_def by (simp only: if_False if_True) simp
    then show ?thesis using that(1,2) by (rule background_Next)
  next
    case 4
    then have "foreground inp s ts = Some (Next s' es)" using assms by (auto simp: run_line_def split: if_splits)
    then show ?thesis using that(3) 4(1) foreground_Next by metis
  qed
qed

lemma run_line_ok:
  assumes "session_ok s" and "\<forall>t\<in>set ts. length t \<le> MAX_STR_LEN" and "run_line inp ret s ts = Some (Next s' es)"
  shows "session_ok s'"
proof -
  have f: "session_ok (with_shell s sh)" if "shell_ok sh" for sh
    using assms(1) that by (simp add: session_ok_def with_shell_def)
  have sh: "shell_ok (ss_shell s)" using assms(1) by (simp add: session_ok_def)
  from assms(3) show ?thesis
  proof (cases rule: run_line_Next)
    case 1
    then show ?thesis using assms(1) by simp
  next
    case (2 j cmd es')
    have "table_ok j" using register_job_ok[OF _ 2(1)] sh by (simp add: shell_ok_def)
    then show ?thesis unfolding 2(2) using sh by (intro f) (simp add: shell_ok_def)
  next
    case (3 n sh' fs)
    have "ts \<noteq> [] \<longrightarrow> length (hd ts) \<le> MAX_STR_LEN" using assms(2) by simp
    then show ?thesis unfolding 3(3) using execute_command_ok[OF sh _ 3(2)] by (intro f) blast
  qed
qed

lemma display_done_ok:
  assumes "table_ok j" and "display_done_process ps j = Some (j', es)"
  shows "table_ok j'"
proof -
  have "in_use j < MAX_PROCESS"
    using assms display_done_full[OF assms(1)] table_ok_lengths(3)[OF assms(1)] by (force simp: le_less)
  then show ?thesis using display_done_total[OF assms(1), of ps] assms(2) by auto
qed

text \<open>Every pass of the loop that comes back keeps the invariant.\<close>

lemma read_and_run_Next:
  assumes "read_and_run inp s = Some (Next s' es)"
  obtains ret buf tty e0 ts ts' slots n j fs gs where "get_input (li_read inp) (li_tty inp) = Input ret buf tty e0"
    "read_tokens buf = Some ts"
    "expand_tokens (sh_vars (ss_shell s)) ts (expanded_tokens s) (expanded_token_count s) = Some (ts', slots, n)"
    "display_done_process (li_reaped inp) (sh_jobs (ss_shell s)) = Some (j, fs)"
    "run_line inp ret \<lparr>ss_shell = (ss_shell s)\<lparr>sh_jobs := j\<rparr>, expanded_tokens = slots, expanded_token_count = n\<rparr> ts'
        = Some (Next s' gs)"
proof -
  obtain ret buf tty e0 where i: "get_input (li_read inp) (li_tty inp) = Input ret buf tty e0"
    using assms by (cases "get_input (li_read inp) (li_tty inp)") (auto simp: read_and_run_def prepend_step_def)
  then show thesis using assms that
    by (auto simp: read_and_run_def prepend_step_Next split: Option.bind_splits)
qed

lemma read_and_run_ok:
  assumes "session_ok s" and "read_and_run inp s = Some (Next s' es)"
  shows "session_ok s'"
proof -
  obtain ret buf tty e0 ts ts' slots n j fs gs where i: "get_input (li_read inp) (li_tty inp) = Input ret buf tty e0"
    and ts: "read_tokens buf = Some ts"
      "expand_tokens (sh_vars (ss_shell s)) ts (expanded_tokens s) (expanded_token_count s) = Some (ts', slots, n)"
    and j: "display_done_process (li_reaped inp) (sh_jobs (ss_shell s)) = Some (j, fs)"
    and r: "run_line inp ret \<lparr>ss_shell = (ss_shell s)\<lparr>sh_jobs := j\<rparr>, expanded_tokens = slots, expanded_token_count = n\<rparr> ts'
        = Some (Next s' gs)"
    using assms(2) by (rule read_and_run_Next)
  have sh: "vars_ok (sh_vars (ss_shell s))" "table_ok (sh_jobs (ss_shell s))"
    using assms(1) by (simp_all add: session_ok_def shell_ok_def)
  have "table_ok j" using display_done_ok[OF sh(2) j] .
  then have ok: "session_ok \<lparr>ss_shell = (ss_shell s)\<lparr>sh_jobs := j\<rparr>, expanded_tokens = slots, expanded_token_count = n\<rparr>"
    using expand_tokens_slots[OF ts(2)] assms(1) sh by (simp add: session_ok_def shell_ok_def)
  have "length buf \<le> MAX_STR_LEN" using get_input_buffer[OF i] by simp
  then have "\<forall>t\<in>set ts. length t \<le> MAX_STR_LEN"
    using spaced_token_length read_tokens_spaced[OF ts(1)] by blast
  then have "\<forall>t\<in>set ts'. length t \<le> MAX_STR_LEN" using expand_tokens_lengths[OF sh(1) ts(2)] by blast
  then show ?thesis using run_line_ok[OF ok _ r] by blast
qed

lemma sigint_handler_ok: "session_ok s \<Longrightarrow> session_ok (fst (sigint_handler s))"
  by (cases "sh_sigint (ss_shell s)")
    (simp_all add: sigint_handler_def handler_def with_shell_def session_ok_def shell_ok_def)

lemma main_step_Next:
  "main_step inp s = Some (Next s' es) \<Longrightarrow>
     (\<exists>fs. read_and_run inp s = Some (Next s' fs)) \<or>
     (\<exists>fs. read_and_run inp (fst (sigint_handler s)) = Some (Next s' fs))"
  by (auto simp: main_step_def prepend_step_Next exit_handler_def case_prod_unfold Let_def
      split: option.splits shell_signal.splits)

lemma main_step_ok:
  assumes "session_ok s" and "main_step inp s = Some (Next s' es)"
  shows "session_ok s'"
  using main_step_Next[OF assms(2)] read_and_run_ok sigint_handler_ok[OF assms(1)] assms(1) by blast

lemma main_loop_ok: "main_loop is s = Some (Next s' es) \<Longrightarrow> session_ok s \<Longrightarrow> session_ok s'"
proof (induction "is" s arbitrary: es rule: main_loop.induct)
  case (2 i "is" s)
  obtain r where r: "main_step i s = Some r" using "2.prems"(1) by (auto split: Option.bind_splits)
  show ?case
  proof (cases r)
    case (Next s1 fs)
    then obtain gs where "main_loop is s1 = Some (Next s' gs)"
      using "2.prems"(1) r by (auto simp: prepend_step_Next)
    then show ?thesis using "2.IH" r Next main_step_ok "2.prems"(2) by blast
  qed (use "2.prems"(1) r in auto)
qed simp

section \<open>The text of a background job\<close>

lemma size_of_int_pos: "0 \<le> i \<Longrightarrow> i < 2 ^ 64 \<Longrightarrow> size_of_int i = nat i"
  by (simp add: size_of_int_def unat_eq_nat_uint uint_word_of_int)

lemma bg_command_fits_from:
  "length cmd + length (join '' '' ts) \<le> MAX_STR_LEN \<Longrightarrow> \<forall>t\<in>set ts. t \<noteq> [] \<Longrightarrow>
     int (length (join '' '' ts)) \<le> remaining \<Longrightarrow> remaining \<le> int MAX_STR_LEN \<Longrightarrow>
     bg_command remaining cmd ts = Some (cmd @ join '' '' ts)"
proof (induction remaining cmd ts rule: bg_command.induct)
  case (2 remaining cmd t ts)
  have t: "0 < length t" using "2.prems"(2) by simp
  have j: "length t \<le> length (join '' '' (t # ts))"
    "ts \<noteq> [] \<Longrightarrow> length (join '' '' (t # ts)) = length t + 1 + length (join '' '' ts)" by (simp_all add: join_Cons)
  have pos: "remaining > 0" using t j(1) "2.prems"(3) by linarith
  have sz: "size_of_int remaining = nat remaining"
    using pos "2.prems"(4) by (intro size_of_int_pos) auto
  have c1: "strncat COMMAND_SIZE cmd t (size_of_int remaining) = Some (cmd @ t)"
    using "2.prems"(1,3) j(1) sz by (intro strncat_fits) auto
  show ?case
  proof (cases "ts = []")
    case True
    then show ?thesis using pos c1 by simp
  next
    case False
    let ?rem = "remaining - int (length t)"
    have rem: "1 \<le> ?rem" using j(2)[OF False] "2.prems"(3) by simp
    have szr: "size_of_int ?rem = nat ?rem" using rem "2.prems"(4) by (intro size_of_int_pos) auto
    have c2: "strncat COMMAND_SIZE (cmd @ t) '' '' (size_of_int ?rem) = Some ((cmd @ t) @ '' '')"
      using "2.prems"(1) j(2)[OF False] szr rem by (intro strncat_fits) auto
    have "bg_command ?rem ((cmd @ t) @ '' '') ts = Some (((cmd @ t) @ '' '') @ join '' '' ts)"
      using "2.IH"[OF pos c1 refl, of "(cmd @ t) @ '' ''"] c2 False "2.prems" j(2)[OF False] by simp
    then show ?thesis using pos c1 c2 False by (simp add: join_Cons)
  qed
qed simp

lemma bg_command_fits:
  "length (join '' '' ts) \<le> MAX_STR_LEN \<Longrightarrow> \<forall>t\<in>set ts. t \<noteq> [] \<Longrightarrow>
     bg_command (int MAX_STR_LEN) [] ts = Some (join '' '' ts)"
  using bg_command_fits_from[of "[]" ts "int MAX_STR_LEN"] by simp

text \<open>
  The blanks are not counted: two tokens that fill the buffer between them overrun it.
\<close>

lemma bg_command_overflow:
  assumes "length t < MAX_STR_LEN" and "MAX_STR_LEN \<le> length t + length u"
  shows "bg_command (int MAX_STR_LEN) [] (t # u # us) = fault"
proof -
  let ?rem = "int MAX_STR_LEN - int (length t)"
  have r: "0 < ?rem" using assms(1) by simp
  have sz: "size_of_int ?rem = nat ?rem" using r by (intro size_of_int_pos) auto
  have "strncat COMMAND_SIZE [] t (size_of_int (int MAX_STR_LEN)) = Some t"
    using assms(1) size_of_int_pos[of "int MAX_STR_LEN"] strncat_fits[of "[]" t COMMAND_SIZE] by simp
  moreover have "strncat COMMAND_SIZE t '' '' (size_of_int ?rem) = Some (t @ '' '')"
    using assms(1) sz by (intro strncat_fits) auto
  moreover have "strncat COMMAND_SIZE (t @ '' '') u (size_of_int ?rem) = fault"
    using assms sz by (simp add: strncat_def Let_def)
  ultimately show ?thesis using r by simp
qed

section \<open>The registry of jobs\<close>

text \<open>
  The interface between the main loop and the table of jobs: a job is appended, with the
  next number, as long as there is room.
\<close>

locale job_registry =
  fixes ok :: "'j \<Rightarrow> bool"
    and jobs :: "'j \<Rightarrow> 'b list"
    and capacity :: nat
    and number :: "'b \<Rightarrow> nat"
    and reg :: "int \<times> string \<Rightarrow> 'j \<Rightarrow> 'j option"
  assumes reg_ok: "ok j \<Longrightarrow> length (jobs j) < capacity \<Longrightarrow>
      \<exists>j' b. reg pc j = Some j' \<and> ok j' \<and> jobs j' = jobs j @ [b] \<and> number b = length (jobs j) + 1"
begin

lemma register_many:
  "ok j \<Longrightarrow> length (jobs j) + length pcs \<le> capacity \<Longrightarrow>
     \<exists>j' bs. foldM reg pcs j = Some j' \<and> ok j' \<and> jobs j' = jobs j @ bs \<and>
       map number bs = map Suc [length (jobs j)..<length (jobs j) + length pcs]"
proof (induction pcs arbitrary: j)
  case (Cons pc pcs)
  obtain j1 b where j1: "reg pc j = Some j1" "ok j1" "jobs j1 = jobs j @ [b]" "number b = length (jobs j) + 1"
    using reg_ok[OF Cons.prems(1)] Cons.prems(2) by fastforce
  obtain j' bs where j': "foldM reg pcs j1 = Some j'" "ok j'" "jobs j' = jobs j1 @ bs"
    "map number bs = map Suc [length (jobs j1)..<length (jobs j1) + length pcs]"
    using Cons.IH[OF j1(2)] Cons.prems(2) j1(3) by auto
  have "map number (b # bs) = map Suc [length (jobs j)..<length (jobs j) + length (pc # pcs)]"
    using j1(3,4) j'(4) by (simp add: upt_conv_Cons del: upt_Suc)
  then show ?case using j1 j' by (intro exI[of _ j'] exI[of _ "b # bs"]) simp
qed simp

end

definition register_entry :: "int \<times> string \<Rightarrow> job_table \<Rightarrow> job_table option" where
  "register_entry pc j = map_option fst (register_job (fst pc) (snd pc) j)"

lemma register_job_appends:
  assumes "table_ok j" and "in_use j < MAX_PROCESS"
  shows "\<exists>j'. register_job p cmd j = Some (j', display_message (snprintf MAX_STR_LEN
      (''['' @ show_int (int (in_use j) + 1) @ ''] '' @ show_int p @ [LF]))) \<and> table_ok j' \<and>
    entries j' = entries j @
      [\<lparr>pid = p, job_num = int (in_use j) + 1, command = take (MAX_STR_LEN - 1) cmd, is_running = 1\<rparr>]"
  using add_bg_process_spot[OF assms, of p cmd] assms
  by (auto simp: register_job_def find_new_spot_eq)

interpretation registry: job_registry table_ok entries MAX_PROCESS "\<lambda>b. nat (job_num b)" register_entry
proof unfold_locales
  fix j pc
  assume j: "table_ok j" "length (entries j) < MAX_PROCESS"
  then have i: "in_use j < MAX_PROCESS" by (simp add: length_entries)
  show "\<exists>j' b. register_entry pc j = Some j' \<and> table_ok j' \<and> entries j' = entries j @ [b] \<and>
      nat (job_num b) = length (entries j) + 1"
    using register_job_appends[OF j(1) i, of "fst pc" "snd pc"] length_entries[OF j(1)]
    by (auto simp: register_entry_def)
qed

section \<open>A full table of jobs\<close>

text \<open>
  The report of finished jobs runs off a full table before anything else happens with the
  line: the message about too many processes is never reached.
\<close>

lemma read_and_run_full:
  assumes "table_ok (sh_jobs (ss_shell s))" and "in_use (sh_jobs (ss_shell s)) = MAX_PROCESS"
    and "get_input (li_read inp) (li_tty inp) \<noteq> Input_Exit"
  shows "read_and_run inp s = fault"
proof (cases "get_input (li_read inp) (li_tty inp)")
  case (Input r b t e)
  then show ?thesis using display_done_full[OF assms(1,2)]
    by (auto simp: read_and_run_def bind_eq_None_conv split: Option.bind_splits)
qed (use assms(3) in simp)

lemma sigint_handler_jobs [simp]: "sh_jobs (ss_shell (fst (sigint_handler s))) = sh_jobs (ss_shell s)"
  by (cases "sh_sigint (ss_shell s)") (simp_all add: sigint_handler_def handler_def with_shell_def)

lemma main_step_full:
  assumes "table_ok (sh_jobs (ss_shell s))" and "in_use (sh_jobs (ss_shell s)) = MAX_PROCESS"
    and "get_input (li_read inp) (li_tty inp) \<noteq> Input_Exit" and "li_signal inp \<noteq> Some SIGTERM"
  shows "main_step inp s = fault"
proof (cases "li_signal inp")
  case None
  then show ?thesis using read_and_run_full[OF assms(1-3)] by (simp add: main_step_def)
next
  case (Some sig)
  then have "sig = SIGINT" using assms(4) by (cases sig) simp_all
  then show ?thesis using Some read_and_run_full[of "fst (sigint_handler s)" inp] assms(1-3)
    by (simp add: main_step_def case_prod_unfold Let_def)
qed

section \<open>Lines without special characters\<close>

text \<open>A pass over a line of plain words, when there are no jobs: the words are run as they are.\<close>

definition plain_word :: "string \<Rightarrow> bool" where
  "plain_word t \<longleftrightarrow> t \<noteq> [] \<and> set t \<inter> (set DELIMITERS \<union> {bar, NUL}) = {}"

lemma split_line:
  assumes "\<forall>t\<in>set ts. plain_word t" and "length (join '' '' ts) < MAX_STR_LEN"
  shows "read_tokens (cstr (join '' '' ts @ [LF])) = Some ts"
proof -
  have sub: "set (join '' '' ts) \<subseteq> insert (CHR '' '') (\<Union> (set ` set ts))"
    by (induction ts) (auto simp: join_Cons)
  have n: "NUL \<notin> set (join '' '' ts @ [LF])" and b: "bar \<notin> set (join '' '' ts @ [LF])"
    using sub assms(1) by (auto simp: plain_word_def)
  have lf: "LF \<in> set DELIMITERS" by (simp add: DELIMITERS_def)
  have "strtok_all DELIMITERS (join '' '' ts @ [LF]) = strtok_all DELIMITERS (join '' '' ts)"
    using strtok_all_append[OF lf, of "join '' '' ts" "[]"] by simp
  also have "\<dots> = ts"
    using assms(1) by (intro strtok_all_join blank_delimiter) (auto simp: plain_word_def)
  finally have t: "strtok_all DELIMITERS (join '' '' ts @ [LF]) = ts" .
  have "length (join '' '' ts @ [LF]) \<le> MAX_STR_LEN" using assms(2) by simp
  then show ?thesis
    using read_tokens_total[of "join '' '' ts @ [LF]"] b t cstr_id[OF n] spaced_id[OF b] by simp
qed

lemma display_done_empty:
  assumes "table_ok j" and "in_use j = 0"
  shows "\<exists>j'. display_done_process ps j = Some (j', []) \<and> table_ok j' \<and> in_use j' = 0"
proof -
  obtain j' es where "display_done_process ps j = Some (j', es)" "table_ok j'" "announces j {} es" "in_use j' = 0"
    using display_done_total[OF assms(1), of ps] assms(2) by auto
  then show ?thesis by (auto simp: announces_def)
qed

lemma main_step_plain:
  assumes jobs: "table_ok (sh_jobs (ss_shell s))" "in_use (sh_jobs (ss_shell s)) = 0"
    and inp: "li_read inp = Read_Bytes (join '' '' ts @ [LF])" "\<forall>t\<in>set ts. plain_word t"
      "length (join '' '' ts) < MAX_STR_LEN"
    and sig: "li_signal inp = None"
    and us: "expand_tokens (sh_vars (ss_shell s)) ts (expanded_tokens s) (expanded_token_count s) = Some (us, slots, n)"
      "us \<noteq> []" "hd us \<noteq> ''exit''" "last us \<noteq> ''&''"
  shows "\<exists>j. table_ok j \<and> in_use j = 0 \<and> main_step inp s = map_option (prepend_step (display_message ''mysh$ ''))
    (foreground inp \<lparr>ss_shell = (ss_shell s)\<lparr>sh_jobs := j\<rparr>, expanded_tokens = slots, expanded_token_count = n\<rparr> us)"
proof -
  obtain j where j: "display_done_process (li_reaped inp) (sh_jobs (ss_shell s)) = Some (j, [])"
    "table_ok j" "in_use j = 0" using display_done_empty[OF jobs] by blast
  have g: "get_input (li_read inp) (li_tty inp) =
      Input (int (length (join '' '' ts @ [LF]))) (cstr (join '' '' ts @ [LF])) (li_tty inp) []"
    using inp(1,3) by simp
  have p: "prepend_step [] r = r" for r by (cases r) (simp_all add: prepend_step_def)
  have "run_line inp ret s' us = foreground inp s' us" for ret s'
    using us(2-4) by (simp add: run_line_def)
  then have "main_step inp s = map_option (prepend_step (display_message ''mysh$ ''))
    (foreground inp \<lparr>ss_shell = (ss_shell s)\<lparr>sh_jobs := j\<rparr>, expanded_tokens = slots, expanded_token_count = n\<rparr> us)"
    using split_line[OF inp(2,3)] us(1) j(1) sig unfolding main_step_def read_and_run_def g
    by (simp add: p Option.map_conv_bind_option)
  then show ?thesis using j by blast
qed

text \<open>The word \<open>exit\<close>, and the end of standard input.\<close>

lemma main_step_exit:
  assumes s: "session_ok s" "in_use (sh_jobs (ss_shell s)) = 0" "expanded_token_count s \<le> EXPANDED_SIZE"
    and inp: "li_read inp = Read_Bytes (''exit'' @ [LF])" "li_signal inp = None"
  shows "main_step inp s = Some (Shell_Exit 0 (display_message ''mysh$ '' @
    snd (snd (cleanup_server (kill_status (li_os inp)) (sh_server (ss_shell s))))))"
proof -
  have jobs: "table_ok (sh_jobs (ss_shell s))" using s(1) by (simp add: session_ok_def shell_ok_def)
  obtain j where j: "display_done_process (li_reaped inp) (sh_jobs (ss_shell s)) = Some (j, [])"
    using display_done_empty[OF jobs s(2)] by blast
  have "read_tokens (cstr (join '' '' [''exit''] @ [LF])) = Some [''exit'']"
    by (rule split_line) (simp_all add: plain_word_def DELIMITERS_def)
  then have t: "read_tokens (cstr (''exit'' @ [LF])) = Some [''exit'']" by simp
  have p: "prepend_step [] r = r" for r by (cases r) (simp_all add: prepend_step_def)
  have e: "expand_tokens vs [''exit''] (expanded_tokens s) (expanded_token_count s) =
      Some ([''exit''], expanded_tokens s, expanded_token_count s)" for vs
    by (rule expand_tokens_plain) simp
  have r: "remove_all_var vs (expanded_tokens s) (expanded_token_count s) =
      Some (1, [], replicate (expanded_token_count s) None @ drop (expanded_token_count s) (expanded_tokens s), 0)" for vs
    using s(1,3) by (intro remove_all_var_clears) (simp add: session_ok_def)
  have g: "get_input (li_read inp) (li_tty inp) = Input 5 (cstr (''exit'' @ [LF])) (li_tty inp) []"
    unfolding inp(1) by simp
  have "run_line inp 5 s1 [''exit''] = exit_shell inp s1" for s1 by (simp add: run_line_def)
  then show ?thesis unfolding main_step_def read_and_run_def g
    using t e j p r inp(2) by (simp add: exit_shell_def case_prod_unfold) (simp add: prepend_step_def)
qed

text \<open>With a server running, the one stops it and the other does not.\<close>

lemma main_step_exit_stops:
  assumes "session_ok s" "in_use (sh_jobs (ss_shell s)) = 0" "expanded_token_count s \<le> EXPANDED_SIZE"
    and inp: "li_read inp = Read_Bytes (''exit'' @ [LF])" "li_signal inp = None"
    and g: "sh_server (ss_shell s) = g" "server_num g > 0" "server_pid g > 0" "os_kill (li_os inp) (server_pid g) 15"
  shows "\<exists>es. main_step inp s = Some (Shell_Exit 0 es) \<and> Kill (server_pid g) 15 \<in> set es"
  using main_step_exit[OF assms(1-5)] g by (simp add: cleanup_server_def kill_status_def)

lemma main_step_sigterm_stops:
  assumes "li_signal inp = Some SIGTERM"
    and g: "sh_server (ss_shell s) = g" "server_num g > 0" "server_pid g > 0" "os_kill (li_os inp) (server_pid g) 15"
  shows "\<exists>es. main_step inp s = Some (Shell_Exit 0 es) \<and> Kill (server_pid g) 15 \<in> set es"
  using assms by (simp add: main_step_def exit_handler_def prepend_step_def cleanup_server_def kill_status_def)

lemma main_step_eof:
  "li_read inp = Read_Bytes [] \<Longrightarrow> li_signal inp = None \<Longrightarrow> main_step inp s = Some (Shell_Exit 0 (display_message ''mysh$ ''))"
  by (simp add: main_step_def read_and_run_def prepend_step_def)

lemma name_char_plain: "name_char c \<Longrightarrow> c \<notin> set DELIMITERS \<union> {bar, NUL, dollar, CHR ''='', CHR ''&''}"
  by (auto simp: name_char_def isalpha_def isdigit_def DELIMITERS_def Let_def)

lemma valid_name_plain:
  assumes "valid_name k"
  shows "set k \<inter> (set DELIMITERS \<union> {bar, NUL, dollar, CHR ''='', CHR ''&''}) = {}" and "k \<noteq> []"
proof -
  have "\<forall>c\<in>set k. name_char c"
    using assms by (cases k) (auto simp: valid_name_def name_char_def)
  then show "set k \<inter> (set DELIMITERS \<union> {bar, NUL, dollar, CHR ''='', CHR ''&''}) = {}"
    using name_char_plain by blast
  show "k \<noteq> []" using assms by (simp add: valid_name_def)
qed

lemma run_echo:
  assumes "vars_ok (sh_vars sh)" and "dollar \<notin> set v" and "v \<noteq> pipe_token" and "length v < MAX_STR_LEN"
  shows "\<exists>es. execute_command os pr sh [''echo'', v] = Some (Returns 0 sh es) \<and> stdout_of es = v @ [LF]"
proof -
  have c: "check_builtin ''echo'' = Some Bn_echo"
    using check_builtin_name[of 0] by (simp add: BUILTINS_def BUILTINS_FN_def)
  have e: "echo_text (sh_vars sh) [v] = v" using assms echo_text_plain[of "[v]"] by simp
  obtain es where "bn_echo (sh_vars sh) [''echo'', v] = Some (0, es)" "stdout_of es = v @ [LF]"
    using bn_echo_fits[OF assms(1), of "[v]" "''echo''"] assms e
    by (auto simp: pieces_ok_def split_dollar_plain expand_ref_plain)
  then show ?thesis using c assms(3)
    by (simp add: execute_command_def execute_single_def run_builtin_def prepend_def pipe_token_def)
qed

text \<open>A variable that was typed in can be echoed.\<close>

lemma assign_then_echo:
  assumes s: "session_ok s" "in_use (sh_jobs (ss_shell s)) = 0" "expanded_token_count s < EXPANDED_SIZE"
    and k: "valid_name k" "no_longer_name k (sh_vars (ss_shell s))" "length k + length v + 1 < MAX_STR_LEN"
      "length k < 122"
    and v: "plain_word v" "dollar \<notin> set v" "v \<noteq> ''&''"
    and sig: "li_signal i1 = None" "li_signal i2 = None"
    and i: "li_read i1 = Read_Bytes (k @ CHR ''='' # v @ [LF])" "li_read i2 = Read_Bytes (''echo $'' @ k @ [LF])"
  shows "\<exists>s' es. main_loop [i1, i2] s = Some (Next s' es) \<and> stdout_of es = ''mysh$ '' @ ''mysh$ '' @ v @ [LF]"
proof -
  let ?t = "k @ CHR ''='' # v" and ?d = "dollar # k"
  note kp = valid_name_plain[OF k(1)]
  have pt: "plain_word ?t" "plain_word ?d" "plain_word ''echo''"
    using kp v(1) by (auto simp: plain_word_def DELIMITERS_def)
  have eq: "CHR ''='' \<notin> set k" "dollar \<notin> set k" "dollar \<notin> set ?t" using kp v(2) by auto
  have ok: "vars_ok (sh_vars (ss_shell s))" "table_ok (sh_jobs (ss_shell s))"
    using s(1) by (simp_all add: session_ok_def shell_ok_def)
  have one: "expand_tokens (sh_vars (ss_shell s)) [?t] (expanded_tokens s) (expanded_token_count s) =
      Some ([?t], expanded_tokens s, expanded_token_count s)"
    using expand_tokens_plain[of "[?t]"] eq(3) by simp
  have amp: "?t \<noteq> ''&''" "?t \<noteq> ''exit''" by (auto simp: append_eq_Cons_conv)
  obtain j where j: "table_ok j" "in_use j = 0" and m1: "main_step i1 s = map_option (prepend_step (display_message ''mysh$ ''))
      (foreground i1 \<lparr>ss_shell = (ss_shell s)\<lparr>sh_jobs := j\<rparr>, expanded_tokens = expanded_tokens s,
        expanded_token_count = expanded_token_count s\<rparr> [?t])"
    using main_step_plain[OF ok(2) s(2), of i1 "[?t]", OF _ _ _ sig(1) one] i(1) pt(1) k(3) amp by auto
  let ?vs = "snd (set_variable k v (sh_vars (ss_shell s)))"
  let ?sh = "(ss_shell s)\<lparr>sh_vars := ?vs, sh_jobs := j\<rparr>"
  let ?s1 = "\<lparr>ss_shell = ?sh, expanded_tokens = expanded_tokens s, expanded_token_count = expanded_token_count s\<rparr>"
  have m1': "main_step i1 s = Some (Next ?s1 (display_message ''mysh$ ''))"
    unfolding m1 using execute_assignment[OF eq(1) k(1) v(2)]
    by (simp add: foreground_def prepend_step_def with_shell_def)
  have lv: "length v \<le> MAX_STR_LEN" using k(3) by simp
  have vs: "vars_ok ?vs" using set_variable_ok[OF ok(1) k(1) lv] .
  have val: "find_val_with_key k ?vs = v" using vars.get_put_same[OF ok(1) k(2)] .
  have e: "expand_variables ?vs (Some ?d) = Some v"
    using vars.expansion_of_one[OF vs eq(2) kp(2)] k(3) val by (simp add: expand_variables_def)
  have "length (expanded_tokens s) = EXPANDED_SIZE" using s(1) by (simp add: session_ok_def)
  then obtain slots n where two: "expand_tokens (sh_vars (ss_shell ?s1)) [''echo'', ?d] (expanded_tokens ?s1)
      (expanded_token_count ?s1) = Some ([''echo'', v], slots, n)"
    using e s(3) by (auto simp: strchr_def)
  obtain j2 where j2: "main_step i2 ?s1 = map_option (prepend_step (display_message ''mysh$ ''))
      (foreground i2 \<lparr>ss_shell = ?sh\<lparr>sh_jobs := j2\<rparr>, expanded_tokens = slots, expanded_token_count = n\<rparr> [''echo'', v])"
    using main_step_plain[of ?s1 i2 "[''echo'', ?d]", OF _ _ _ _ _ sig(2) two] i(2) pt(2,3) k(4) v(3) j by auto
  have "v \<noteq> pipe_token" using v(1) by (auto simp: plain_word_def pipe_token_def)
  then obtain es where ex: "execute_command (li_os i2) (li_pipes i2) (?sh\<lparr>sh_jobs := j2\<rparr>) [''echo'', v] =
      Some (Returns 0 (?sh\<lparr>sh_jobs := j2\<rparr>) es)" "stdout_of es = v @ [LF]"
    using run_echo[of "?sh\<lparr>sh_jobs := j2\<rparr>" v "li_os i2" "li_pipes i2"] vs v(2) k(3) by auto
  have m2: "\<exists>s2. main_step i2 ?s1 = Some (Next s2 (display_message ''mysh$ '' @ es))"
    unfolding j2 using ex(1) by (simp add: foreground_def prepend_step_def)
  then show ?thesis using m1' ex(2) by (auto simp: prepend_step_def)
qed

end
