(* ===== verification/Execute_Errors.thy ===== *)
theory Execute_Errors
  imports Execute
begin

text \<open>
  How \<open>execute_command\<close> fails: its result is 0 or -1, a failure is reported on standard error,
  and it leaves the variables and the job table as they were.
\<close>

definition reports :: "event list \<Rightarrow> bool" where
  "reports es \<longleftrightarrow> (\<exists>m. Err (''ERROR'' @ m) \<in> set es)"

lemma reports_append [simp]: "reports (es @ fs) \<longleftrightarrow> reports es \<or> reports fs"
  by (auto simp: reports_def)

lemma reports_display_error [simp]: "reports (display_error (CHR ''E'' # CHR ''R'' # CHR ''R'' # CHR ''O'' # CHR ''R'' # m) s)"
  unfolding reports_def display_error_def by (intro exI[of _ "take 123 m"]) simp

text \<open>A failure of the shell, and the results of the functions under \<open>execute_command\<close>.\<close>

definition failed_safely :: "shell \<Rightarrow> int \<Rightarrow> shell \<Rightarrow> bool" where
  "failed_safely sh r sh' \<longleftrightarrow> (r = -1 \<longrightarrow> sh_vars sh' = sh_vars sh \<and> sh_jobs sh' = sh_jobs sh)"

lemma failed_safely_same [simp]: "failed_safely sh r sh"
  by (simp add: failed_safely_def)

lemma bn_kill_failed: "bn_kill k vs ts j = Some (-1, j', es) \<Longrightarrow> j' = j"
  by (auto simp: bn_kill_def do_kill_def Let_def split: if_splits option.splits Option.bind_splits)

lemma run_builtin_failed:
  assumes "run_builtin b os sh ts = Some (Returns r sh' es)"
  shows "failed_safely sh r sh'"
proof (cases "b = Bn_start_client")
  case True
  then show ?thesis using assms by (auto simp: failed_safely_def dest: run_start_client_keeps)
next
  case False
  then show ?thesis using assms bn_kill_failed
    by (cases b) (auto simp: run_builtin_def Let_def failed_safely_def split: option.splits prod.splits)
qed

lemma assign_result:
  assumes "assign sh t = Some (Returns r sh' es)"
  shows "(r = 0 \<or> r = -1) \<and> failed_safely sh r sh' \<and> (r = -1 \<longrightarrow> reports es)"
  using assms by (auto simp: assign_def failed_safely_def split: Option.bind_splits if_splits)

lemma execute_single_result:
  assumes "execute_single os sh ts = Some (Returns r sh' es)"
  shows "(r = 0 \<or> r = -1) \<and> failed_safely sh r sh' \<and> (r = -1 \<longrightarrow> reports es)"
proof (cases "check_builtin (hd ts)")
  case (Some b)
  then obtain q where q: "run_builtin b os sh ts = Some q" using assms
    by (auto simp: execute_single_def split: Option.bind_splits)
  then show ?thesis using assms Some run_builtin_failed
    by (cases q) (auto simp: execute_single_def failed_safely_def split: if_splits)
next
  case None
  then show ?thesis using assms assign_result
    by (auto simp: execute_single_def Let_def case_prod_unfold split: if_splits)
qed

lemma execute_command_result:
  assumes "execute_command os pr sh ts = Some (Returns r sh' es)"
  shows "(r = 0 \<or> r = -1) \<and> failed_safely sh r sh' \<and> (r = -1 \<longrightarrow> reports es)"
proof -
  obtain n fs where s: "pipe_scan False 0 ts = (n, fs)" by (metis prod.exhaust)
  consider "n = 0 \<and> ts = []" | "n = 0 \<and> ts \<noteq> []" | "n > 0 \<and> (hd ts = pipe_token \<or> last ts = pipe_token)"
    | "n > 0 \<and> \<not> (hd ts = pipe_token \<or> last ts = pipe_token)" by (meson neq0_conv)
  then show ?thesis
  proof cases
    case 2
    then show ?thesis using assms s by (auto simp: execute_command_def prepend_Returns dest: execute_single_result)
  next
    case 3
    then show ?thesis using assms s by (auto simp: execute_command_def prepend_Returns pipe_syntax_error_def)
  next
    case 4
    then obtain q where q: "execute_pipeline pr sh ts n = Some q"
      using assms s by (cases "execute_pipeline pr sh ts n") (auto simp: execute_command_def)
    then show ?thesis using assms s 4
      by (cases q) (auto simp: execute_command_def prepend_Returns failed_safely_def split: if_splits
          dest: execute_pipeline_keeps)
  qed (use assms s in \<open>auto simp: execute_command_def prepend_Returns\<close>)
qed

end
