(* ===== verification/Shell_Signals.thy ===== *)
theory Shell_Signals
  imports Mysh_Correct Execute_Errors Client_Correct
begin

text \<open>
  Control-C: while a chat waits in select it leads back to the shell, at another time it ends
  the whole shell; after a \<open>start-client\<close> that was refused by the network it has the action of the
  client at the prompt of the shell too.
\<close>

section \<open>Joining a chat\<close>

definition asks_to_join :: "string list \<Rightarrow> bool" where
  "asks_to_join ts \<longleftrightarrow> hd ts = ''start-client'' \<and> 2 < length ts \<and> pipe_token \<notin> set ts \<and> valid_port (atoi (ts ! 1))"

lemma start_client_name: "check_builtin ''start-client'' = Some Bn_start_client"
  using check_builtin_name[of 10] by (simp add: BUILTINS_def BUILTINS_FN_def)

lemma execute_start_client:
  assumes "asks_to_join ts"
  shows "execute_command os pr sh ts = do {
     r \<leftarrow> run_builtin Bn_start_client os sh ts;
     Some (case r of
         Returns err sh' es \<Rightarrow>
           if err = -1 then Returns (-1) sh' (es @ display_error ''ERROR: Builtin failed: '' ''start-client'')
           else Returns 0 sh' es
       | other \<Rightarrow> other) }"
proof -
  have ts: "hd ts = ''start-client''" "ts \<noteq> []" "pipe_token \<notin> set ts" using assms by (auto simp: asks_to_join_def)
  have "prepend [] r = r" for r by (cases r) (simp_all add: prepend_def)
  then have "execute_command os pr sh ts = execute_single os sh ts" using ts(2,3)
    by (simp add: execute_command_def pipe_scan_none option.map_ident_strong)
  then show ?thesis unfolding execute_single_def ts(1) start_client_name by simp
qed

lemma bn_start_client_connected:
  assumes "asks_to_join ts" and "connect_to_server os = (fd, [])" and "fd \<noteq> -1"
  shows "bn_start_client os input ws ins ts = map_option Looped (client_loop ins (client_start fd input ws []))"
  using assms by (simp add: bn_start_client_def asks_to_join_def valid_port_def map_option_case split: option.splits)

text \<open>The descriptor stays the same in a chat, and a flag that is set stays set.\<close>

definition keeps :: "chat_client \<Rightarrow> client_result \<Rightarrow> bool" where
  "keeps s r \<longleftrightarrow> (\<forall>c. r = Chatting c \<longrightarrow> sc_fd c = sc_fd s \<and> disconnect_client c = disconnect_client s)"

lemma read_stdin_keeps: "read_stdin s = Some r \<Longrightarrow> keeps s r"
  by (auto simp: keeps_def read_stdin_def say_def Let_def split: option.splits if_splits Option.bind_splits prod.splits)

lemma read_server_keeps: "keeps s (read_server rd s)"
  by (auto simp: keeps_def read_server_def say_def Let_def split: if_splits prod.splits)

lemma socket_phase_keeps: "keeps s r \<Longrightarrow> keeps s (socket_phase sock r)"
  using read_server_keeps by (cases r; cases sock) (fastforce simp: keeps_def socket_phase_def)+

lemma client_pass_keeps:
  assumes "client_pass sigint sel s = Some (Chatting c)"
  shows "sc_fd c = sc_fd s \<and> disconnect_client c = sigint"
proof -
  let ?s = "s\<lparr>disconnect_client := sigint\<rparr>"
  have d: "\<not> disconnect_client s" using assms by (simp add: client_pass_def split: if_splits)
  then have s: "(if sigint then s\<lparr>disconnect_client := client_signal_handler 2 (disconnect_client s)\<rparr> else s) = ?s"
    by (simp add: client_signal_handler_def)
  have "keeps ?s (Chatting c)"
  proof (cases sel)
    case (Ready_Fds stdin_ready sock)
    have p: "(if has_unread_data ?s \<or> stdin_ready then do {
          r \<leftarrow> read_stdin ?s;
          Some (case fgets MESSAGE_SIZE (sc_stdin ?s) of
              Some (line, rest) \<Rightarrow> if cstr line = [] then r else socket_phase sock r
            | None \<Rightarrow> r)
        } else Some (socket_phase sock (Chatting ?s))) = Some (Chatting c)"
      using assms d Ready_Fds unfolding client_pass_def s by (simp only: Let_def if_False client_select.case)
    show ?thesis
    proof (cases "has_unread_data ?s \<or> stdin_ready")
      case True
      then obtain r where r: "read_stdin ?s = Some r" using p by (cases "read_stdin ?s") simp_all
      have "Chatting c = r \<or> Chatting c = socket_phase sock r"
        using p True r by (auto split: option.splits if_splits)
      then show ?thesis using read_stdin_keeps[OF r] socket_phase_keeps[OF read_stdin_keeps[OF r], of sock] by auto
    next
      case False
      then have "Chatting c = socket_phase sock (Chatting ?s)" using p by simp
      moreover have "keeps ?s (Chatting ?s)" by (simp add: keeps_def)
      ultimately show ?thesis using socket_phase_keeps[of ?s "Chatting ?s" sock] by simp
    qed
  qed (use assms d in \<open>auto simp: client_pass_def s keeps_def Let_def split: if_splits\<close>)
  then show ?thesis by (simp add: keeps_def)
qed

lemma client_loop_fd: "client_loop ins s = Some (Chatting c) \<Longrightarrow> sc_fd c = sc_fd s"
proof (induction ins s rule: client_loop.induct)
  case (2 sigint sel ins s)
  then obtain s1 where "client_pass sigint sel s = Some (Chatting s1)" "client_loop ins s1 = Some (Chatting c)"
    by (auto split: Option.bind_splits client_result.splits)
  then show ?case using "2.IH"[of "Chatting s1" s1] client_pass_keeps[of sigint sel s s1] by simp
qed simp

text \<open>Control-C in a chat that has gone on for a while: while select waits, and at another time.\<close>

lemma interrupted_select:
  assumes "\<not> has_unread_data c"
  shows "client_loop [(True, Interrupted)] c = Some (if disconnect_client c
    then Client_Exit 0 (say [Close_Fd (sc_fd c)] c)
    else Client_Return 0 (say (display_message [LF] @ [Close_Fd (sc_fd c)]) (c\<lparr>disconnect_client := True\<rparr>)))"
  using assms by (simp add: client_pass_def client_signal_handler_def)

lemma interrupted_pass:
  assumes "client_pass True sel c = Some (Chatting c')"
  shows "client_loop [(True, sel), x] c = Some (Client_Exit 0 (say [Close_Fd (sc_fd c)] c'))"
  using client_pass_keeps[OF assms] assms by (cases x) (simp add: client_pass_def[of _ _ c'])

lemma control_c_returns:
  assumes "asks_to_join ts" and "connect_to_server (os_net os) = (fd, [])" and "fd \<noteq> -1"
    and chat: "client_loop ins (client_start fd (os_chat_input os) (os_chat_writes os) []) = Some (Chatting c)"
    and "\<not> disconnect_client c"
  shows "\<not> has_unread_data c \<Longrightarrow> os_chat_selects os = ins @ [(True, Interrupted)] \<Longrightarrow>
      execute_command os pr sh ts =
        Some (Returns 0 (sh\<lparr>sh_disconnect := True\<rparr>) (sc_trace c @ display_message [LF] @ [Close_Fd fd]))"
    and "client_pass True sel c = Some (Chatting c') \<Longrightarrow> os_chat_selects os = ins @ [(True, sel), x] \<Longrightarrow>
      execute_command os pr sh ts = Some (Exits 0 (sc_trace c' @ [Close_Fd fd]))"
proof -
  have fd: "sc_fd c = fd" using client_loop_fd[OF chat] by (simp add: client_start_def)
  note run = execute_start_client[OF assms(1)] run_builtin_def bn_start_client_connected[OF assms(1-3)]
  show "execute_command os pr sh ts =
      Some (Returns 0 (sh\<lparr>sh_disconnect := True\<rparr>) (sc_trace c @ display_message [LF] @ [Close_Fd fd]))"
    if "\<not> has_unread_data c" "os_chat_selects os = ins @ [(True, Interrupted)]"
    using interrupted_select[OF that(1)] that(2) fd assms(5)
    by (simp add: run client_loop_append chat say_def del: client_loop.simps)
  show "execute_command os pr sh ts = Some (Exits 0 (sc_trace c' @ [Close_Fd fd]))"
    if "client_pass True sel c = Some (Chatting c')" "os_chat_selects os = ins @ [(True, sel), x]"
    using interrupted_pass[OF that(1), of x] that(2) fd
    by (simp add: run client_loop_append chat say_def del: client_loop.simps)
qed

section \<open>The SIGINT action that is left behind\<close>

lemma refused_chat_keeps_action:
  assumes "asks_to_join ts" and "connect_to_server (os_net os) = (-1, es)"
  shows "\<exists>sh' fs. execute_command os pr sh ts = Some (Returns (-1) sh' fs) \<and> sh_sigint sh' = Client_Handler"
  unfolding execute_start_client[OF assms(1)] using assms
  by (simp add: run_builtin_def bn_start_client_def asks_to_join_def valid_port_def)

text \<open>What control-C does at the prompt, before and after that.\<close>

lemma control_c_at_prompt:
  assumes "session_ok s" "in_use (sh_jobs (ss_shell s)) = 0"
    and inp: "li_signal inp = Some SIGINT" "li_read inp = Read_Error"
  shows "\<exists>s'. main_step inp s = Some (Next s' (display_message ''mysh$ '' @
    (case sh_sigint (ss_shell s) of Shell_Handler \<Rightarrow> display_message [LF] | Client_Handler \<Rightarrow> [])))"
proof -
  let ?s = "fst (sigint_handler s)"
  have "table_ok (sh_jobs (ss_shell ?s))" "in_use (sh_jobs (ss_shell ?s)) = 0"
    using assms(1,2) by (simp_all add: session_ok_def shell_ok_def)
  then obtain j where j: "display_done_process (li_reaped inp) (sh_jobs (ss_shell ?s)) = Some (j, [])"
    using display_done_empty by blast
  have t: "read_tokens [] = Some []" using split_line[of "[]"] by (simp add: read_tokens_def tokenize_input_def)
  have "\<exists>s'. read_and_run inp ?s = Some (Next s' [])"
    using j inp(2) t by (simp add: read_and_run_def run_line_def prepend_step_def)
  then show ?thesis using inp(1)
    by (cases "sh_sigint (ss_shell s)")
      (auto simp: main_step_def case_prod_unfold Let_def prepend_step_def sigint_handler_def handler_def)
qed

end
