(* ===== verification/Spec2Isabelle.thy ===== *)
theory Spec2Isabelle
  imports Chat_Order Pipeline_Correct Shell_Signals
begin

text \<open>
  A model of mysh, a small Unix shell in C with a built-in chat server and client, and what
  has been proved about it. The sources are src/src/*.c and *.h.

  THE PROGRAM. \<open>main\<close> (mysh.c) prompts, reads a line (\<open>get_input\<close>, io_helpers.c), puts
  blanks around bars, splits it into tokens, expands the tokens that hold a dollar sign
  (\<open>expand_variables\<close>, variables.c), reports finished background jobs
  (\<open>display_done_process\<close>, commands.c) and then leaves, starts a background job, or calls
  \<open>execute_command\<close> (commands.c). That runs a pipeline, a builtin (builtins.c), an
  assignment (\<open>set_variable\<close>) or an external program. One builtin starts a server process
  (\<open>run_server\<close>, server.c, with chat_helpers.c and socket.c), another one joins a chat.
  The shell and the server meet only through sockets.

  THEORIES, in the order of their dependencies.
  \<^item> Prelude: the type \<open>'a checked\<close> (\<open>None\<close>, written \<open>fault\<close>, is undefined behaviour of C: an
    array overrun, a dereference or a free of a bad pointer, a failing assert), the events a
    process causes, and lemmas shared by all theories.
  \<^item> C_Strings, C_Numbers: what the sources use of string.h, ctype.h and stdlib.h (strchr,
    strncmp, strncat with the size of its target, snprintf, strtok, atoi at 32 bits).
  \<^item> IO_Helpers: io_helpers.c. A line is at most 128 bytes, a longer one is refused.
  \<^item> Variables: variables.c without the expansion. The linked list is a HOL list whose head is
    the newest variable. The locale \<open>var_lookup\<close> is what expansion relies on, \<open>var_store\<close>
    what an assignment promises; \<open>vars\<close> interprets them.
  \<^item> Str_Buffer: an array filled by strncat with a counter of type size_t that wraps around,
    as \<open>expand_variables\<close> and \<open>bn_echo\<close> use it. The locale \<open>bounded_text\<close> is the contract
    (text is truncated, nothing is lost before); \<open>tb\<close> interprets it.
  \<^item> Expand: \<open>expand_variables\<close> as a scanner with a state, and \<open>expand_ref\<close>, its specification.
  \<^item> Builtin_Echo, Builtin_Files (cd, cat, wc), Builtin_Ls: the builtins that need no
    process state.
  \<^item> Jobs: the two arrays of background jobs (commands.c) with \<open>bn_ps\<close> and \<open>bn_kill\<close>.
  \<^item> Socket: socket.c; the abstract protocol is \<open>messages\<close>, which cuts a byte stream at CR LF.
  \<^item> Framing: the locale \<open>framer\<close> is a receiver that is fed chunks and drained of messages;
    inside it the messages are proved to depend on the bytes only and not on the chunks.
    \<open>sock\<close> interprets it on \<open>read_from_socket\<close> and \<open>get_message\<close>.
  \<^item> Chat: the client list (chat_helpers.c, \<open>accept_connection\<close> of server.c) in an explicit
    heap. \<open>rep\<close> relates a list head and a heap to the list of clients; the locale \<open>roster\<close> is
    the contract of joining and leaving, \<open>clients\<close> interprets it.
  \<^item> Server: server.c. One round of the select loop is \<open>server_round\<close>; Server_Correct holds the
    invariant \<open>server_ok\<close>, reachability (\<open>server_reaches\<close>) and the lemmas on delivery.
  \<^item> Client: the builtins start-server, close-server, send and start-client (builtins.c);
    Client_Correct holds their lemmas.
  \<^item> Chat_Rounds: histories of a chat (who joins, who says what), the log of messages with
    recipients and names that a history determines (\<open>log_of\<close>), and the effect of a round of
    the server as a piece of history. Client_Passes: the effect of a pass of the client.
    Chat_Network: the server, any number of clients and the bytes between them as one state,
    with the step relation \<open>net_step\<close>, reachability and the invariant \<open>net_ok\<close>, which ties the
    state to a history. Chat_Order: what follows from the invariant; \<open>chat_so_far\<close> is what a
    history says about users and screens, and \<open>less_work\<close> the order in which a run that
    delivers everything goes down.
  \<^item> Commands, Pipeline, Execute: \<open>check_builtin\<close> and the rest of commands.c. A pipeline
    includes the descriptor table of each child and what the children show on the terminal.
    Pipeline_Correct relates the children to the commands and to the bytes in the pipes;
    Execute_Errors says what a failing command leaves behind.
  \<^item> Mysh: mysh.c; Mysh_Correct holds the invariant of a session and the locale
    \<open>job_registry\<close> with its interpretation \<open>registry\<close> on the job table. Shell_Signals is about
    control-C in a chat and at the prompt.

  STATE. A \<open>session\<close> is the shell's variables, job table and server globals, and the array of
  expanded tokens with its counter. A \<open>server\<close> is the heap of clients, the descriptor set,
  the counters and its output. Every operation takes the state and returns it; loops over
  lists are structural, loops over indices have a measure, loops over pointers are partial
  functions in the option type, so that a loop that does not end has no value; that they end
  in every reachable state is part of C1.

  THE ENVIRONMENT is an argument everywhere: replies of read, write, select, accept, fork,
  pipe, waitpid, kill and of the socket calls, the file system, the terminal, the external
  programs. Nothing is assumed of it except what a theorem states. Fuel occurs once, in
  \<open>recursive_ls\<close>: the directory tree is an argument and may have no bound;
  a fuel beyond the depth of the tree, or beyond the depth option (C34), is enough.

  WHAT IS SHOWN. Each property below is introduced by its number. C1 to C6 are about the
  chat: the server never touches freed memory as long as no write fails with a disconnect;
  a run of the network unfolds one history of joins and messages, which decides what everybody
  sees; a message reaches every client, the sender included; framing does not depend on the
  chunks; no buffer fills up; everything that was typed can be brought to all screens.
  C7 to C20 are about the shell: the invariant of a session, tokens, assignment and expansion
  end to end, pipelines with their wiring and data, the builtin table, external programs,
  failures, leaving the shell, control-C. C21 to C24 are about variables and expansion, C25 to
  C27 about jobs, C28 to C34 about single builtins, C35 to C38 about the chat client, C39 and
  C40 about the client list. Some of them state precisely when the program goes wrong (C22,
  C24, C36, C40), as do the lemmas \<open>full_table_faults\<close>, \<open>job_text_overflow\<close>, \<open>expanded_tokens_overflow\<close>, \<open>bars_overflow\<close>
  and \<open>lost_client_still_counted\<close>.

  The theorems on the network are about connections that stay open and writes of the server
  that are complete. In a step of the server at most all descriptors are ready; a read gives
  any part of what was sent that is not empty and fits the room that the code offers.

  BOUNDS are the program's own: lines of 128 bytes, tokens of an array of 128 pointers,
  1000 jobs, messages of 1129 bytes, descriptors below 1024 (FD_SETSIZE).

  NOT MODELLED. Allocations whose result the code does not test are taken to succeed. A
  freed address of the client heap is not handed out again. The counters \<open>client_id\<close> and
  \<open>client_connected\<close> of the server are C ints and unbounded integers here, so the theorems on
  the server are about runs in which fewer than \<open>2 ^ 31\<close> clients are greeted. (The counters of
  wc are modelled with their overflow.) perror is its prefix only. A write that returns 0 leaves errno as it was in C; the
  model takes it for another error. That a pipe delivers to its reader what its writer wrote is
  a hypothesis (\<open>reads_text\<close>), and a child is not ended by SIGPIPE. The children of a pipeline
  run at the same time; their output on the terminal is put in the order of the commands, and
  that of children started before a failing fork before the message of the shell. Signals are modelled where
  the program waits: SIGINT, SIGTERM and SIGHUP at the prompt, SIGINT in the chat client, each
  with the handler that is installed; a signal in the middle of a command is not, nor SIGPIPE
  in the shell, nor an interrupted waitpid. A read error of standard input in start-client is not modelled.

  STILL TO DO. Users who leave the network and writes that fail in it; the shell as the parent
  of the server process; signals that interrupt a command.
\<close>

section \<open>Example values for the witnesses\<close>

definition ex_client :: "int \<Rightarrow> client_socket" where
  "ex_client fd = (new_client fd)\<lparr>username := Some ''client1''\<rparr>"

text \<open>A server on descriptor 3 with one client, or with two.\<close>

definition ex_server :: "write_reply list \<Rightarrow> server" where
  "ex_server ws =
     \<lparr>sv_heap = \<lparr>cells = [1 \<mapsto> ex_client 4], fresh = 2\<rparr>, sv_clients = 1, all_fds = {3, 4}, max_fd = 4,
      client_id = 1, client_connected = 1, sv_writes = ws, sv_trace = []\<rparr>"

definition ex_server2 :: "write_reply list \<Rightarrow> server" where
  "ex_server2 ws =
     \<lparr>sv_heap = \<lparr>cells = [1 \<mapsto> (ex_client 4)\<lparr>cl_next := 2\<rparr>, 2 \<mapsto> ex_client 5], fresh = 3\<rparr>, sv_clients = 1,
      all_fds = {3, 4, 5}, max_fd = 5, client_id = 1, client_connected = 2, sv_writes = ws, sv_trace = []\<rparr>"

lemma ex_client_ok: "peer_ok (ex_client fd)" "cl_next (ex_client fd) = NULL" "sock_fd (ex_client fd) = fd"
  "username (ex_client fd) = Some ''client1''" "cl_inbuf (ex_client fd) = 0" "view (ex_client fd) = []"
  by (simp_all add: ex_client_def new_client_def peer_ok_def buffer_ok_def buffer_view_def)

lemma ex_view: "buffer_view (cl_buf (ex_client fd), 0) = []"
  by (simp add: buffer_view_def)

lemma ex_client_next: "(ex_client fd)\<lparr>cl_next := NULL\<rparr> = ex_client fd"
  by (simp add: ex_client_def new_client_def)

lemma ex_server_ok: "server_ok 3 (ex_server ws) ([] @ (1, ex_client 4) # [])"
  by (auto simp: server_ok_def rep_def ex_server_def ex_client_ok ex_client_next)

lemma ex_server2_ok: "server_ok 3 (ex_server2 ws) ([] @ (1, ex_client 4) # [(2, ex_client 5)])"
  by (auto simp: server_ok_def rep_def ex_server2_def ex_client_ok ex_client_next)

text \<open>Bytes that arrive from the client on descriptor 4.\<close>

definition ex_input :: "string \<Rightarrow> round_input" where
  "ex_input bs = \<lparr>listen_fds = {4}, accept_reply = -1, read_replies = (\<lambda>fd. Read_Bytes bs), strdup_ok = (\<lambda>i. True)\<rparr>"

definition ex_accept :: "round_input" where
  "ex_accept = \<lparr>listen_fds = {3}, accept_reply = 4, read_replies = (\<lambda>fd. Read_Error), strdup_ok = (\<lambda>i. True)\<rparr>"

definition ex_chat :: "string \<Rightarrow> chat_client" where
  "ex_chat input = client_start 5 input [] []"

section \<open>The chat server\<close>

text \<open>
  C1: Starting from an empty server, as long as no write finds a connection gone, every round of
  the server loop with well-behaved answers of the system ends without a fault in a state that
  keeps the invariant, and the connection counter is the number of clients in the list.
\<close>
theorem server_never_faults:
  assumes "server_reaches l ws s" and "no_disconnect ws" and "input_ok l s reply"
  shows "\<exists>s' xs. server_round l reply s = Some (Serving s') \<and> server_reaches l ws s' \<and>
    server_ok l s' xs \<and> client_connected s' = int (length xs)"
  by (rule server_progress[OF assms])

theorem server_never_faults_witness:
  "\<exists>s' xs. server_round 3 (Ready ex_accept) (start_state 3 []) = Some (Serving s') \<and>
    server_reaches 3 [] s' \<and> server_ok 3 s' xs \<and> client_connected s' = int (length xs)"
  by (rule server_never_faults[OF server_reaches.start])
    (simp_all add: no_disconnect_def ex_accept_def start_state_def)

text \<open>
  C2: The chat keeps one order. Take any run of the server and any number of clients, from a
  reachable state on, whatever the interleaving of their steps and the sizes of the reads. At
  its beginning there is a history of the chat, and at its end one that continues it; each
  consists of who joined and who said what, nobody speaks before joining, and its members
  are the users. What a user has said in it are exactly the messages in the bytes that the
  server has taken from him, and these are what he typed, in this order, all of it once
  nothing of his is unread. The history decides what everybody sees: a message is shown to
  all who joined before it, its speaker included, under the speaker's name; the screen of
  every user is this display of the history, all of it once nothing is on its way to him.
\<close>

theorem chat_total_order:
  assumes "net_reaches l n" and "(net_step l)\<^sup>*\<^sup>* n n'"
  shows "\<exists>h h'. chat_so_far n h \<and> chat_so_far n' (h @ h')"
  by (rule net_reaches_order[OF assms])

text \<open>A client that has just joined a server on descriptor 3, and typed a line.\<close>

lemma ex_joined:
  "\<exists>n. net_reaches 3 n \<and> nt_users n = [4 \<mapsto> client_start 5 (''hi'' @ [LF]) [] []] \<and> nt_up n 4 = [] \<and>
    nt_typed n 4 = ''hi'' @ [LF]"
proof -
  have ok: "round_ok 3 (net_start 3) ex_accept"
    by (simp add: round_ok_def net_start_def start_state_def ex_accept_def)
  obtain s' where "server_round 3 (Ready ex_accept) (start_state 3 []) = Some (Serving s')"
    using server_progress[OF server_reaches.start, of "[]" 3 "Ready ex_accept"]
    by (auto simp: no_disconnect_def ex_accept_def start_state_def)
  then have r: "server_round 3 (Ready ex_accept) (nt_server (net_start 3)) = Some (Serving s')"
    by (simp add: net_start_def)
  show ?thesis
    using net_next[OF net_init server_step[OF ok r, of 5 "''hi'' @ [LF]"]]
    by (intro exI conjI, assumption) (simp_all add: ex_accept_def net_start_def)
qed

lemma ex_typed:
  "\<exists>n u. net_reaches 3 n \<and> nt_users n 4 = Some u \<and> nt_up n 4 = ''hi'' @ [CR, LF] \<and> sc_stdin u = [] \<and>
    nt_typed n 4 = ''hi'' @ [LF]"
proof -
  let ?c = "client_start 5 (''hi'' @ [LF]) [] []"
  obtain n where n: "net_reaches 3 n" "nt_users n = [4 \<mapsto> ?c]" "nt_up n 4 = []" "nt_typed n 4 = ''hi'' @ [LF]"
    using ex_joined by blast
  have p: "client_pass False (Ready_Fds True None) ?c = Some (Chatting (sent ''hi'' [] False ?c))"
    by (rule pass_line) (simp_all add: client_start_def)
  have u: "nt_users n 4 = Some ?c" using n(2) by simp
  let ?c' = "sent ''hi'' [] False ?c"
  let ?n = "n\<lparr>nt_users := (nt_users n)(4 \<mapsto> ?c'),
    nt_up := (nt_up n)(4 := nt_up n 4 @ new_bytes (sc_fd ?c) (sc_trace ?c) (sc_trace ?c')),
    nt_down := (nt_down n)(4 := nt_down n 4)\<rparr>"
  have "net_step 3 n ?n" by (rule user_step[OF u _ _ p]) simp_all
  then have "net_reaches 3 ?n" using n(1) by (rule net_next[rotated])
  then show ?thesis using n(3,4)
    by (intro exI[of _ ?n] exI[of _ ?c']) (simp add: sent_def client_start_def new_bytes_def)
qed

text \<open>A second client joins, and types nothing.\<close>

lemma ex_both:
  "\<exists>n. net_reaches 3 n \<and> nt_users n = [4 \<mapsto> client_start 5 (''hi'' @ [LF]) [] [], 6 \<mapsto> client_start 5 [] [] []] \<and>
    nt_typed n 4 = ''hi'' @ [LF] \<and> nt_typed n 6 = []"
proof -
  obtain n where n: "net_reaches 3 n" "nt_users n = [4 \<mapsto> client_start 5 (''hi'' @ [LF]) [] []]"
    "nt_typed n 4 = ''hi'' @ [LF]" using ex_joined by blast
  let ?i = "ex_accept\<lparr>accept_reply := 6\<rparr>"
  obtain h xs where ok: "net_ok 3 n h xs" using net_reaches_ok[OF n(1)] by blast
  then have sv: "server_ok 3 (nt_server n) xs" and w: "writes_ok (sv_writes (nt_server n))"
    and "set (fds xs) = {4}" using n(2) by (simp_all add: net_ok_def)
  then have all: "all_fds (nt_server n) = {3, 4}" by (simp add: server_ok_def)
  have io: "input_ok 3 (nt_server n) (Ready ?i)" using all by (simp add: ex_accept_def)
  then have ro: "round_ok 3 n ?i" using all by (simp add: round_ok_def ex_accept_def)
  obtain s' where s': "server_round 3 (Ready ?i) (nt_server n) = Some (Serving s')"
    using server_round_spec[OF sv writes_ok_no_disconnect[OF w] io] by blast
  show ?thesis
    by (intro exI conjI, rule net_next[OF n(1) server_step[OF ro s', of 5 "[]"]]) (simp_all add: ex_accept_def n(2,3))
qed

text \<open>Once the line is delivered, both screens show it, whoever joined first.\<close>

lemma ex_delivered:
  assumes n: "nt_users n = [4 \<mapsto> client_start 5 (''hi'' @ [LF]) [] [], 6 \<mapsto> client_start 5 [] [] []]"
    and c: "chat_so_far n h" "chat_so_far n' (h @ h')" "dom (nt_users n') = dom (nt_users n)"
    and s: "said 4 (h @ h') = [''hi'']" "said 6 (h @ h') = []" and fd: "fd \<in> {4, 6}"
  shows "concat (map (display_of fd) (chat_log (h @ h'))) = ''client1: hi'' @ [LF]"
proof -
  have d: "dom (nt_users n) = {4, 6}" using n by auto
  have m: "set (members h) = {4, 6}" "set (members (h @ h')) = {4, 6}" "happens_ok [] h" "happens_ok [] (h @ h')"
    using c d by (simp_all add: chat_so_far_def)
  have "said f h = []" if f: "f \<in> {4, 6}" for f
  proof -
    obtain u where u: "nt_users n f = Some u" "sc_trace u = []" using f n by (auto simp: client_start_def)
    then obtain r where "sent_to (sc_fd u) (sc_trace u) = r @ nt_up n f" "said f h = map cstr (fst (messages r))"
      using c(1) unfolding chat_so_far_def by blast
    then show ?thesis using u(2) by (simp add: messages.simps)
  qed
  then have q: "said 4 h = []" "said 6 h = []" by simp_all
  then have h: "h = map Joins (members h)" using silent_history[OF m(3)] m(1) by simp
  have l: "chat_log h = []" "speakers [] h = []" by (subst h, simp only: joins_all)+
  have "distinct (members h @ members h')" using happens_ok_distinct[OF m(4)] by simp
  then have nj: "members h' = []" using m(1,2) by (cases "members h'") auto
  moreover have "happens_ok (members h) h'" using m(4) by simp
  ultimately have "h' = map (Says 4) (said 4 h')" using one_speaker[of "members h" h' 4] m(1) s(2) q by auto
  then have h': "h' = [Says 4 ''hi'']" using s(1) q by simp
  have "show_int 1 = ''1''" by code_simp
  then have "client_name 1 = ''client1''" by (simp add: client_name_def)
  then show ?thesis using fd m(1)
    by (auto simp: l h' log_of_append speaks_def place_def display_of_def connected_command_def)
qed

lemma typed_hi: "typed_messages (''hi'' @ [LF]) = [''hi'']" "text_input (''hi'' @ [LF])" "text_input []"
proof -
  have "line_messages ''hi'' = [''hi'']" by (subst line_messages.simps) simp
  then show "typed_messages (''hi'' @ [LF]) = [''hi'']" using typed_messages_line[of "''hi''" "[]"] by simp
qed (simp_all add: text_input_def)

text \<open>The run that delivers it: the one user sees his own line, and the other sees it too.\<close>

theorem chat_total_order_witness:
  "\<exists>n n' u v. net_reaches 3 n \<and> (net_step 3)\<^sup>*\<^sup>* n n' \<and>
    nt_users n = [4 \<mapsto> client_start 5 (''hi'' @ [LF]) [] [], 6 \<mapsto> client_start 5 [] [] []] \<and>
    nt_users n' = [4 \<mapsto> u, 6 \<mapsto> v] \<and>
    stdout_of (sc_trace u) = ''client1: hi'' @ [LF] \<and> stdout_of (sc_trace v) = ''client1: hi'' @ [LF]"
proof -
  obtain n where n: "net_reaches 3 n"
    "nt_users n = [4 \<mapsto> client_start 5 (''hi'' @ [LF]) [] [], 6 \<mapsto> client_start 5 [] [] []]"
    "nt_typed n 4 = ''hi'' @ [LF]" "nt_typed n 6 = []" using ex_both by blast
  then have "\<forall>fd\<in>dom (nt_users n). text_input (nt_typed n fd)" using typed_hi by auto
  then obtain n' where n': "(net_step 3)\<^sup>*\<^sup>* n n'" "dom (nt_users n') = dom (nt_users n)" "nt_typed n' = nt_typed n" "quiet n'"
    using net_delivers[OF n(1)] by blast
  obtain h h' where h: "chat_so_far n h" "chat_so_far n' (h @ h')" using chat_total_order[OF n(1) n'(1)] by blast
  have d: "dom (nt_users n') = {4, 6}" using n'(2) n(2) by auto
  then obtain u v where uv: "nt_users n' 4 = Some u" "nt_users n' 6 = Some v" by blast
  have "said 4 (h @ h') = [''hi'']" "said 6 (h @ h') = []"
    using quiet_complete(1)[OF h(2) n'(4)] uv n(3,4) n'(3) typed_hi by simp_all
  then have "stdout_of (sc_trace u) = ''client1: hi'' @ [LF]" "stdout_of (sc_trace v) = ''client1: hi'' @ [LF]"
    using ex_delivered[OF n(2) h n'(2)] quiet_complete(2)[OF h(2) n'(4)] uv by simp_all
  moreover have "nt_users n' = [4 \<mapsto> u, 6 \<mapsto> v]" using d uv by (intro ext) (auto simp: domIff)
  ultimately show ?thesis using n(1,2) n'(1) by blast
qed

text \<open>
  C3: What arrives from a client is cut into messages exactly at the network newlines; each
  message is handed to every client in the list (the count request only to its sender), the
  server prints each, and the rest of the bytes stays in the client's buffer.
\<close>
theorem server_delivers:
  assumes "server_ok l s (ys @ (a, c) # zs)"
    and "sock_fd c \<in> listen_fds inp" "strdup_ok inp (client_id s + 1)"
    and "read_replies inp (sock_fd c) = Read_Bytes bs" "bs \<noteq> []" "length bs \<le> BUF_SIZE - cl_inbuf c - 1"
    and "writes_ok (sv_writes s)"
  shows "\<exists>s' c' es. client_step inp a s = Some (hd_ptr zs NULL, s') \<and>
    server_ok l s' (ys @ (a, c') # zs) \<and> sock_fd c' = sock_fd c \<and>
    view c' = snd (messages (view c @ bs)) \<and> sv_trace s' = sv_trace s @ es \<and>
    stdout_of es = concat (map (server_shows (name_of c s)) (map cstr (fst (messages (view c @ bs))))) \<and>
    delivers (answers (handed (fds (ys @ (a, c) # zs)) (sock_fd c) (name_of c s) (int (length (ys @ (a, c) # zs))))
      (map cstr (fst (messages (view c @ bs))))) es"
  by (rule client_step_delivers[OF assms])

lemma ex_messages: "messages (''hi'' @ [CR, LF]) = ([''hi''], [])"
  using messages_encode[of "[''hi'']" "[]"] by (simp add: no_crlf_def)

lemma ex_messages_list: "messages [CHR ''h'', CHR ''i'', CR, LF] = ([''hi''], [])"
  using ex_messages by simp

theorem server_delivers_witness:
  "\<exists>s' es. client_step (ex_input (''hi'' @ [CR, LF])) 1 (ex_server2 []) = Some (2, s') \<and>
    sv_trace s' = es \<and> sent_to 4 es = ''client1 hi'' @ [CR, LF] \<and> sent_to 5 es = ''client1 hi'' @ [CR, LF]"
proof -
  have n: "name_of (ex_client 4) (ex_server2 []) = ''client1''" by (simp add: name_of_def ex_client_ok)
  have cs: "cstr ''hi'' = ''hi''" by (simp add: cstr_def)
  show ?thesis
    using server_delivers[OF ex_server2_ok[of "[]"], of "ex_input (''hi'' @ [CR, LF])" "''hi'' @ [CR, LF]"]
    unfolding n
    by (auto simp: ex_messages_list ex_view ex_input_def ex_server2_def writes_ok_def delivers_def answers_def handed_def cs
        connected_command_def chat_line_def ex_client_ok)
qed

text \<open>
  C4: A stream that arrives in any chunks that fit the receive buffer gives the messages of
  the stream as a whole: chunk boundaries, even inside a network newline, do not matter.
\<close>
theorem framing_ignores_chunks:
  assumes "feed_chunks cs b = Some (ms, b')" and "buffer_ok b" and "split_crlf (buffer_view b) = None"
  shows "messages (buffer_view b @ concat cs) = (ms, buffer_view b') \<and> buffer_ok b'"
  by (rule feed_chunks_messages[OF assms])

theorem framing_ignores_chunks_witness:
  "\<exists>ms b'. feed_chunks [''hi'' @ [CR, LF]] (replicate BUF_SIZE NUL, 0) = Some (ms, b') \<and>
    messages (''hi'' @ [CR, LF]) = (ms, buffer_view b')"
proof -
  obtain ms b' where f: "feed_chunks [''hi'' @ [CR, LF]] (replicate BUF_SIZE NUL, 0) = Some (ms, b')"
    by (simp add: case_prod_unfold Let_def) (metis prod.exhaust)
  have "buffer_ok (replicate BUF_SIZE NUL, 0)" "split_crlf (buffer_view (replicate BUF_SIZE NUL, 0)) = None"
    by (simp_all add: buffer_ok_def buffer_view_def)
  from framing_ignores_chunks[OF f this] f show ?thesis by (auto simp: buffer_view_def)
qed

text \<open>
  C5: No receive buffer of the chat fills up: in every reachable network the server keeps its
  invariant, holds at most 1025 bytes of any client, and every client holds at most 1125 bytes
  of the server, so that each of them always asks for more than no bytes.
\<close>

theorem network_room:
  assumes "net_reaches l n"
  shows "\<exists>xs. server_ok l (nt_server n) xs \<and> (\<forall>x\<in>set xs. cl_inbuf (snd x) \<le> MAX_USER_MSG + 1) \<and>
    (\<forall>fd u. nt_users n fd = Some u \<longrightarrow> sc_inbuf u \<le> MAX_NAME + MAX_USER_MSG + 1)"
  by (rule net_reaches_room[OF assms])

theorem network_room_witness:
  "\<exists>n u. net_reaches 3 n \<and> nt_users n 4 = Some u \<and> sc_inbuf u \<le> MAX_NAME + MAX_USER_MSG + 1"
proof -
  obtain n u where n: "net_reaches 3 n" "nt_users n 4 = Some u" using ex_typed by blast
  then show ?thesis using network_room[OF n(1)] by blast
qed



section \<open>The shell session\<close>

text \<open>
  C7: However many lines the shell has read, whatever they are and whatever the system
  answers: when it waits for the next line, the variables, the job table and the array of
  expanded tokens satisfy their invariants.
\<close>
theorem shell_invariant:
  assumes "main_shell sigs inputs = Some (Next s es)"
  shows "session_ok s"
  using assms main_loop_ok[OF _ start_session_ok] by (auto simp: main_shell_def split: if_splits)

theorem shell_invariant_witness:
  "\<forall>i :: line_input. \<exists>s es. main_shell [0, 0, 0] [i\<lparr>li_signal := None, li_read := Read_Bytes [LF]\<rparr>] = Some (Next s es) \<and> session_ok s"
proof
  fix i :: line_input
  have "table_ok (sh_jobs (ss_shell start_session))" using start_session_ok by (simp add: session_ok_def shell_ok_def)
  moreover have "in_use (sh_jobs (ss_shell start_session)) = 0"
    by (simp add: start_session_def start_shell_def table_ok_init(2))
  ultimately obtain j where j: "display_done_process (li_reaped i) (sh_jobs (ss_shell start_session)) = Some (j, [])"
    using display_done_empty by blast
  have t: "read_tokens (cstr [LF]) = Some []" using split_line[of "[]"] by simp
  obtain s es where "main_step (i\<lparr>li_signal := None, li_read := Read_Bytes [LF]\<rparr>) start_session = Some (Next s es)"
    using j t by (simp add: main_step_def read_and_run_def run_line_def prepend_step_def)
  then have m: "main_shell [0, 0, 0] [i\<lparr>li_signal := None, li_read := Read_Bytes [LF]\<rparr>] = Some (Next s (es @ []))"
    by (simp add: main_shell_def prepend_step_def)
  then show "\<exists>s es. main_shell [0, 0, 0] [i\<lparr>li_signal := None, li_read := Read_Bytes [LF]\<rparr>] = Some (Next s es) \<and> session_ok s"
    using shell_invariant[OF m] by blast
qed

text \<open>
  C8: A line of at most 128 bytes with few enough bars is split into fewer than 128 tokens;
  the tokens hold the characters of the line in order, and a bar is always a token of its own.
\<close>
theorem line_tokens:
  assumes "length s \<le> MAX_STR_LEN"
    and "bar \<notin> set s \<or> length s + 2 * count_list s bar < 2 * MAX_STR_LEN - 1"
  shows "\<exists>ts. read_tokens s = Some ts \<and> length ts < MAX_STR_LEN \<and>
    concat ts = filter (\<lambda>c. c \<notin> set DELIMITERS) s \<and>
    (\<forall>t\<in>set ts. t \<noteq> [] \<and> (bar \<in> set t \<longrightarrow> t = pipe_token))"
proof -
  have "filter (\<lambda>c. c \<notin> set DELIMITERS) (spaced s) = filter (\<lambda>c. c \<notin> set DELIMITERS) s"
    using blank_delimiter by (induction s) (auto simp: spaced_def bar_not_delimiter)
  moreover have "\<forall>t\<in>set (strtok_all DELIMITERS (spaced s)). t \<noteq> [] \<and> (bar \<in> set t \<longrightarrow> t = pipe_token)"
    using strtok_all_clean spaced_tokens by blast
  ultimately show ?thesis using read_tokens_total[OF assms] concat_strtok_all[of DELIMITERS "spaced s"] by auto
qed

theorem line_tokens_witness:
  "\<exists>ts. read_tokens ''ls|wc'' = Some ts \<and> length ts < MAX_STR_LEN \<and>
    concat ts = filter (\<lambda>c. c \<notin> set DELIMITERS) ''ls|wc'' \<and>
    (\<forall>t\<in>set ts. t \<noteq> [] \<and> (bar \<in> set t \<longrightarrow> t = pipe_token))"
  by (rule line_tokens) simp_all

text \<open>
  C9: A variable that is assigned on one line and echoed on the next is printed with its
  value: the two passes of the main loop print two prompts, the value and a newline.
\<close>
theorem assigned_variable_echoed:
  assumes "session_ok s" "in_use (sh_jobs (ss_shell s)) = 0" "expanded_token_count s < EXPANDED_SIZE"
    and "valid_name k" "no_longer_name k (sh_vars (ss_shell s))" "length k + length v + 1 < MAX_STR_LEN"
      "length k < 122"
    and "plain_word v" "dollar \<notin> set v" "v \<noteq> ''&''"
    and "li_signal i1 = None" "li_signal i2 = None"
    and "li_read i1 = Read_Bytes (k @ CHR ''='' # v @ [LF])" "li_read i2 = Read_Bytes (''echo $'' @ k @ [LF])"
  shows "\<exists>s' es. main_loop [i1, i2] s = Some (Next s' es) \<and> stdout_of es = ''mysh$ '' @ ''mysh$ '' @ v @ [LF]"
  by (rule assign_then_echo[OF assms])

theorem assigned_variable_echoed_witness:
  "\<forall>i :: line_input. \<exists>s' es. main_loop [i\<lparr>li_signal := None, li_read := Read_Bytes (''x=hi'' @ [LF])\<rparr>, i\<lparr>li_signal := None, li_read := Read_Bytes (''echo $x'' @ [LF])\<rparr>]
    start_session = Some (Next s' es) \<and> stdout_of es = ''mysh$ mysh$ hi'' @ [LF]"
proof
  fix i :: line_input
  have "in_use (sh_jobs (ss_shell start_session)) = 0"
    by (simp add: start_session_def start_shell_def table_ok_init(2))
  moreover have "expanded_token_count start_session < EXPANDED_SIZE" by (simp add: start_session_def)
  moreover have "valid_name ''x''" by (simp add: valid_name_def isalpha_def)
  moreover have "no_longer_name ''x'' (sh_vars (ss_shell start_session))"
    by (simp add: no_longer_name_def start_session_def start_shell_def)
  moreover have "plain_word ''hi''" by (simp add: plain_word_def DELIMITERS_def)
  ultimately show "\<exists>s' es. main_loop [i\<lparr>li_signal := None, li_read := Read_Bytes (''x=hi'' @ [LF])\<rparr>, i\<lparr>li_signal := None, li_read := Read_Bytes (''echo $x'' @ [LF])\<rparr>]
    start_session = Some (Next s' es) \<and> stdout_of es = ''mysh$ mysh$ hi'' @ [LF]"
    using assigned_variable_echoed[OF start_session_ok, of "''x''" "''hi''"
        "i\<lparr>li_signal := None, li_read := Read_Bytes (''x=hi'' @ [LF])\<rparr>" "i\<lparr>li_signal := None, li_read := Read_Bytes (''echo $x'' @ [LF])\<rparr>"] by simp
qed

section \<open>Commands and pipelines\<close>

text \<open>
  C10: A pipeline whose commands are not empty runs one child per command, leaves no pipe end
  open in the shell, shows on the terminal what the last command writes, and returns 0 exactly
  when every child ended with status 0.
\<close>
theorem pipeline_runs_all:
  assumes "\<forall>c\<in>set (split_at ts). c \<noteq> []" and "length ts < 128"
    and "pr_pipes pr = map Some pipes" "length pipes = pipes_in ts" "fresh_pipes pipes"
    and "\<forall>i < pipes_in ts + 1. 0 \<le> pr_forks pr i"
    and "map (\<lambda>i. child_run (pr_children pr i) sh (split_at ts ! i)) [0..<length (split_at ts)] = map Some rs"
  shows "\<exists>es. execute_pipeline pr sh ts (pipes_in ts) =
      Some (Returns (if \<forall>r\<in>set rs. fst r = Some 0 then 0 else -1) sh es) \<and>
    left_open es {} = {} \<and> stdout_of es = stdout_of (snd (last rs))"
  by (rule pipeline_outcome[OF assms])

theorem pipeline_runs_all_witness:
  "\<forall>os :: os_replies. \<exists>es. execute_pipeline
     \<lparr>pr_pipes = [Some (5, 6)], pr_forks = (\<lambda>i. 9), pr_children = (\<lambda>i. os\<lparr>os_exec := \<lambda>p ts. Some (Some 0, hd ts)\<rparr>)\<rparr>
     start_shell [''a'', ''|'', ''b''] 1 = Some (Returns 0 start_shell es) \<and> left_open es {} = {} \<and> stdout_of es = ''b''"
proof
  fix os :: os_replies
  let ?pr = "\<lparr>pr_pipes = [Some (5, 6)], pr_forks = (\<lambda>i. 9), pr_children = (\<lambda>i. os\<lparr>os_exec := \<lambda>p ts. Some (Some 0, hd ts)\<rparr>)\<rparr>"
  have st: "child_run (os\<lparr>os_exec := \<lambda>p ts. Some (Some 0, hd ts)\<rparr>) start_shell [c] = Some (Some 0, [Out c])"
    if "c \<notin> set BUILTINS" for c
    using that check_builtin_None[of c] by (simp add: child_run_def exec_child_def)
  show "\<exists>es. execute_pipeline ?pr start_shell [''a'', ''|'', ''b''] 1 = Some (Returns 0 start_shell es) \<and>
      left_open es {} = {} \<and> stdout_of es = ''b''"
    using pipeline_runs_all[of "[''a'', ''|'', ''b'']" ?pr "[(5, 6)]" start_shell "[(Some 0, [Out ''a'']), (Some 0, [Out ''b''])]"] st
    by (simp add: pipe_token_def pipes_in_def fresh_pipes_def BUILTINS_def upt_rec)
qed

text \<open>
  C11: Each child of a pipeline reads from the pipe before it and writes to the pipe behind it,
  the first and the last one from and to the terminal; it holds no other end of any pipe, so
  that a pipe ends for its reader when its writer ends.
\<close>
theorem pipe_wiring:
  assumes "fresh_pipes pipes" and "i \<le> length pipes"
  shows "child_table pipes i =
    [0 \<mapsto> (if i = 0 then Tty_In else Read_End (i - 1)),
     1 \<mapsto> (if i = length pipes then Tty_Out else Write_End i), 2 \<mapsto> Tty_Err]"
  by (rule child_wiring[OF assms])

theorem pipe_wiring_witness:
  "child_table [(3, 4), (5, 6)] 1 = [0 \<mapsto> Read_End 0, 1 \<mapsto> Write_End 1, 2 \<mapsto> Tty_Err]"
  using pipe_wiring[of "[(3, 4), (5, 6)]" 1] by (simp add: fresh_pipes_def)

text \<open>
  C12: What any command writes, up to 128 bytes, appears unchanged when it is piped into \<open>cat\<close>,
  in however many reads the pipe delivers it.
\<close>
theorem piped_into_cat:
  assumes "c \<noteq> []" and "pipe_token \<notin> set c" and "length c < 126"
    and "pr_pipes pr = [Some p]" "fresh_pipes [p]" "0 \<le> pr_forks pr 0" "0 \<le> pr_forks pr 1"
    and "child_run (pr_children pr 0) sh c = Some (st, es)"
    and "reads_text (stdout_of es) (pr_children pr 1)"
    and "stdout_of es \<noteq> []" "length (stdout_of es) \<le> MAX_STR_LEN" "NUL \<notin> set (stdout_of es)"
  shows "\<exists>fs. execute_command os pr sh (c @ [pipe_token, ''cat'']) =
      Some (Returns (if st = Some 0 then 0 else -1) sh fs) \<and> stdout_of fs = stdout_of es"
  by (rule pipe_into_cat[OF assms])

theorem piped_into_cat_witness:
  "\<forall>os :: os_replies. \<exists>fs. execute_command os
     \<lparr>pr_pipes = [Some (5, 6)], pr_forks = (\<lambda>i. 9), pr_children = (\<lambda>i. os\<lparr>os_exec := \<lambda>p ts. Some (Some 0, ''x''),
        os_stdin_reads := [''x''], os_stdin_text := Some ''x''\<rparr>)\<rparr>
     start_shell [''date'', ''|'', ''cat''] = Some (Returns 0 start_shell fs) \<and> stdout_of fs = ''x''"
proof
  fix os :: os_replies
  let ?os = "os\<lparr>os_exec := \<lambda>p ts. Some (Some 0, ''x''), os_stdin_reads := [''x''], os_stdin_text := Some ''x''\<rparr>"
  let ?pr = "\<lparr>pr_pipes = [Some (5, 6)], pr_forks = (\<lambda>i. 9), pr_children = (\<lambda>i. ?os)\<rparr>"
  have "''date'' \<notin> set BUILTINS" by (simp add: BUILTINS_def)
  then have "child_run ?os start_shell [''date''] = Some (Some 0, [Out ''x''])"
    using check_builtin_None[of "''date''"] by (simp add: child_run_def exec_child_def)
  then show "\<exists>fs. execute_command os ?pr start_shell [''date'', ''|'', ''cat''] = Some (Returns 0 start_shell fs) \<and> stdout_of fs = ''x''"
    using piped_into_cat[of "[''date'']" ?pr "(5, 6)" start_shell "Some 0" "[Out ''x'']" os]
    by (simp add: pipe_token_def fresh_pipes_def reads_text_def)
qed

text \<open>
  C13: A line with pipes never makes \<open>execute_command\<close> write outside the array of commands, even
  when bars follow each other, begin the line or end it.
\<close>
theorem pipes_never_overrun:
  assumes "pipe_token \<in> set ts" and "length ts < 128"
  shows "execute_command os pr sh ts \<noteq> fault"
  by (rule execute_command_pipes_total[OF assms])

theorem pipes_never_overrun_witness:
  "\<forall>os pr sh. execute_command os pr sh [''a'', ''|'', ''|'', ''b''] \<noteq> fault"
  using pipes_never_overrun[of "[''a'', ''|'', ''|'', ''b'']"] by (simp add: pipe_token_def)

text \<open>
  C14: After a pipeline the shell has no pipe end open, whatever failed, except when a fork
  failed: then all ends of all pipes stay open.
\<close>
theorem pipeline_descriptors:
  assumes "execute_pipeline pr sh ts n = Some (Returns r sh' es)"
  shows "left_open es {} =
    (if r = -1 \<and> (\<exists>i < n + 1. pr_forks pr i < 0) \<and> (\<exists>cs. split_loop n [] [] ts = Some (Inr cs))
     then (case make_pipes n (pr_pipes pr) [] of Inl _ \<Rightarrow> {} | Inr pipes \<Rightarrow> pipe_ends pipes) else {})"
  by (rule execute_pipeline_fds[OF assms])

theorem pipeline_descriptors_witness:
  "\<forall>ch. \<exists>es. execute_pipeline \<lparr>pr_pipes = [Some (5, 6)], pr_forks = (\<lambda>i. -1), pr_children = ch\<rparr> start_shell
      [''a'', ''|'', ''b''] 1 = Some (Returns (-1) start_shell es) \<and> left_open es {} = {5, 6}"
proof
  fix ch
  let ?pr = "\<lparr>pr_pipes = [Some (5, 6)], pr_forks = (\<lambda>i. -1), pr_children = ch\<rparr>"
  have lt2: "\<exists>i. i < Suc (Suc 0)" by (rule exI[of _ 0]) simp
  have s: "split_loop 1 [] [] [''a'', ''|'', ''b''] = Some (Inr [[''a''], [''b'']])"
    by (simp add: pipe_token_def store_ok_def)
  have m: "make_pipes 1 [Some (5, 6)] [] = Inr [(5, 6)]" by (simp add: numeral_eq_Suc)
  obtain es where e: "execute_pipeline ?pr start_shell [''a'', ''|'', ''b''] 1 = Some (Returns (-1) start_shell es)"
    by (simp add: execute_pipeline_def pipe_token_def store_ok_def lt2)
  have "left_open es {} = {5, 6}" using pipeline_descriptors[OF e] s m by (auto simp: pipe_ends_def)
  then show "\<exists>es. execute_pipeline ?pr start_shell [''a'', ''|'', ''b''] 1 = Some (Returns (-1) start_shell es) \<and> left_open es {} = {5, 6}"
    using e by blast
qed

text \<open>The search in the two parallel arrays is a lookup.\<close>

lemma check_builtin_map:
  "check_builtin cmd = map_of (zip BUILTINS (map the BUILTINS_FN)) cmd"
proof (cases "check_builtin cmd")
  case None
  then have "cmd \<notin> set BUILTINS" by (simp add: check_builtin_None)
  then have "map_of (zip BUILTINS (map the BUILTINS_FN)) cmd = None"
    by (auto simp: map_of_eq_None_iff dest: set_zip_leftD)
  then show ?thesis using None by simp
next
  case (Some b)
  then have "cmd \<in> set BUILTINS" using check_builtin_None[of cmd] by auto
  moreover have "length BUILTINS = 11" by (simp add: BUILTINS_def)
  ultimately obtain i where i: "i < 11" "cmd = BUILTINS ! i" by (auto simp: in_set_conv_nth)
  let ?fns = "take 11 (map the BUILTINS_FN)"
  have z: "zip BUILTINS (map the BUILTINS_FN) = zip BUILTINS ?fns"
    by (simp add: BUILTINS_def BUILTINS_FN_def)
  have "distinct BUILTINS" "length BUILTINS = length ?fns" "length ?fns = 11"
    by (simp_all add: BUILTINS_def BUILTINS_FN_def)
  then have "map_of (zip BUILTINS (map the BUILTINS_FN)) (BUILTINS ! i) = Some (map the BUILTINS_FN ! i)"
    unfolding z using i(1) map_of_zip_nth[of BUILTINS ?fns i] by simp
  moreover have "length BUILTINS_FN = 12" by (simp add: BUILTINS_FN_def)
  ultimately show ?thesis using check_builtin_name[OF i(1)] Some i by simp
qed

text \<open>
  C15: The builtin table: each of the eleven names finds its own function, and every other
  command finds the NULL behind the table.
\<close>
theorem builtin_lookup:
  "check_builtin cmd = map_of [(''echo'', Bn_echo), (''ls'', Bn_ls), (''cd'', Bn_cd), (''cat'', Bn_cat), (''wc'', Bn_wc),
     (''ps'', Bn_ps), (''kill'', Bn_kill), (''start-server'', Bn_start_server), (''close-server'', Bn_close_server),
     (''send'', Bn_send), (''start-client'', Bn_start_client)] cmd"
proof -
  have "zip BUILTINS (map the BUILTINS_FN) =
    [(''echo'', Bn_echo), (''ls'', Bn_ls), (''cd'', Bn_cd), (''cat'', Bn_cat), (''wc'', Bn_wc),
     (''ps'', Bn_ps), (''kill'', Bn_kill), (''start-server'', Bn_start_server), (''close-server'', Bn_close_server),
     (''send'', Bn_send), (''start-client'', Bn_start_client)]"
    by (simp only: BUILTINS_def BUILTINS_FN_def list.map option.sel zip_Cons_Cons zip_Nil)
  then show ?thesis using check_builtin_map[of cmd] by simp
qed

text \<open>
  C16: A command that is neither a builtin nor an assignment is run from /bin, and only if that
  cannot be executed from /usr/bin, each path cut to 128 bytes; whatever happens, the call
  returns 0 and leaves the shell as it was. A failed fork, a program that does not exit with
  status 0 and a program that does not exist are all reported as an unknown command, the
  last one twice: by the child and by the parent.
\<close>
theorem external_command:
  assumes "ts \<noteq> []" and "pipe_token \<notin> set ts" and "hd ts \<notin> set BUILTINS" and "CHR ''='' \<notin> set (hd ts)"
  shows "execute_command os pr sh ts = Some (Returns 0 sh
    (let unknown = display_error ''ERROR: Unknown command: '' (hd ts) in
     if os_fork os < 0 then display_error ''ERROR: Fork Failed'' [] @ unknown
     else case os_exec os (take 128 (''/bin/'' @ hd ts)) ts of
         Some (st, out) \<Rightarrow> Out out # (if st = Some 0 then [] else unknown)
       | None \<Rightarrow>
           (case os_exec os (take 128 (''/usr/bin/'' @ hd ts)) ts of
              Some (st, out) \<Rightarrow> Out out # (if st = Some 0 then [] else unknown)
            | None \<Rightarrow> unknown @ unknown)))"
  unfolding Let_def by (rule execute_external[OF assms])

text \<open>A program of /usr/bin only: it succeeds, it fails, and it is not there.\<close>

theorem external_command_witness:
  "\<forall>os pr. let run = (\<lambda>r. execute_command (os\<lparr>os_fork := 9,
        os_exec := \<lambda>p ts. if p = ''/usr/bin/env'' then r else None\<rparr> :: os_replies) pr start_shell [''env'']);
       unknown = display_error ''ERROR: Unknown command: '' ''env'' in
    run (Some (Some 0, ''A=1'')) = Some (Returns 0 start_shell [Out ''A=1'']) \<and>
    run (Some (Some 2, ''A=1'')) = Some (Returns 0 start_shell (Out ''A=1'' # unknown)) \<and>
    run None = Some (Returns 0 start_shell (unknown @ unknown))"
  using external_command[of "[''env'']"] by (simp add: pipe_token_def BUILTINS_def)

text \<open>
  C17: A command that fails returns -1, has written an error message, and has changed neither a
  variable nor the job table; there is no other result than 0 and -1.
\<close>

theorem failures_reported:
  assumes "execute_command os pr sh ts = Some (Returns r sh' es)"
  shows "(r = 0 \<or> r = -1) \<and>
    (r = -1 \<longrightarrow> reports es \<and> sh_vars sh' = sh_vars sh \<and> sh_jobs sh' = sh_jobs sh)"
  using execute_command_result[OF assms] by (auto simp: failed_safely_def)

theorem failures_reported_witness:
  "\<forall>os pr. execute_command os pr start_shell [''1x=a''] =
      Some (Returns (-1) start_shell (display_error ''ERROR: Invalid Variable name : '' ''1x'')) \<and>
    reports (display_error ''ERROR: Invalid Variable name : '' ''1x'')"
proof (intro allI)
  fix os pr
  have "execute_command os pr start_shell [''1x=a''] =
      Some (Returns (-1) start_shell (display_error ''ERROR: Invalid Variable name : '' ''1x''))"
    using execute_bad_assignment[of "''1x''" os pr start_shell "''a''"] by (simp add: valid_name_def isalpha_def)
  then show "execute_command os pr start_shell [''1x=a''] =
      Some (Returns (-1) start_shell (display_error ''ERROR: Invalid Variable name : '' ''1x'')) \<and>
    reports (display_error ''ERROR: Invalid Variable name : '' ''1x'')"
    using failures_reported by blast
qed

text \<open>
  C18: Commands keep the types of the shell's state: after any command the variables are valid,
  distinct names with values of at most 128 bytes, the job table is well formed, and as many of
  its slots are in use as before.
\<close>

theorem commands_keep_types:
  assumes "shell_ok sh" and "ts \<noteq> [] \<longrightarrow> length (hd ts) \<le> MAX_STR_LEN"
    and "execute_command os pr sh ts = Some (Returns r sh' es)"
  shows "shell_ok sh' \<and> in_use (sh_jobs sh') = in_use (sh_jobs sh)"
  by (rule execute_command_ok[OF assms])

theorem commands_keep_types_witness:
  "\<forall>os pr. \<exists>sh'. execute_command os pr start_shell [''x=a''] = Some (Returns 0 sh' []) \<and> shell_ok sh'"
proof (intro allI)
  fix os pr
  have "execute_command os pr start_shell [''x=a''] =
      Some (Returns 0 (start_shell\<lparr>sh_vars := snd (set_variable ''x'' ''a'' (sh_vars start_shell))\<rparr>) [])"
    using execute_assignment[of "''x''" "''a''" os pr start_shell] by (simp add: valid_name_def isalpha_def)
  moreover have "shell_ok start_shell" using start_session_ok by (simp add: session_ok_def start_session_def)
  ultimately show "\<exists>sh'. execute_command os pr start_shell [''x=a''] = Some (Returns 0 sh' []) \<and> shell_ok sh'"
    using commands_keep_types[of start_shell "[''x=a'']" os pr] by fastforce
qed

text \<open>
  C19: Leaving the shell with \<open>exit\<close> or by SIGTERM stops a running server with SIGTERM; at the
  end of standard input the shell leaves with the same status and nothing is signalled.
\<close>

theorem exit_stops_server:
  assumes "session_ok s" "in_use (sh_jobs (ss_shell s)) = 0" "expanded_token_count s \<le> EXPANDED_SIZE"
    and "sh_server (ss_shell s) = g" "server_num g > 0" "server_pid g > 0" "os_kill (li_os inp) (server_pid g) 15"
  shows "(\<exists>es. main_step (inp\<lparr>li_signal := None, li_read := Read_Bytes (''exit'' @ [LF])\<rparr>) s = Some (Shell_Exit 0 es) \<and>
      Kill (server_pid g) 15 \<in> set es) \<and>
    (\<exists>es. main_step (inp\<lparr>li_signal := Some SIGTERM\<rparr>) s = Some (Shell_Exit 0 es) \<and> Kill (server_pid g) 15 \<in> set es) \<and>
    main_step (inp\<lparr>li_signal := None, li_read := Read_Bytes []\<rparr>) s = Some (Shell_Exit 0 (display_message ''mysh$ ''))"
  using main_step_exit_stops[OF assms(1-3) _ _ assms(4-6), of "inp\<lparr>li_signal := None, li_read := Read_Bytes (''exit'' @ [LF])\<rparr>"]
    main_step_sigterm_stops[OF _ assms(4-6), of "inp\<lparr>li_signal := Some SIGTERM\<rparr>"]
    main_step_eof[of "inp\<lparr>li_signal := None, li_read := Read_Bytes []\<rparr>"] assms(7) by simp

definition ex_serving :: session where
  "ex_serving = start_session\<lparr>ss_shell := start_shell\<lparr>sh_server := \<lparr>server_pid = 9, server_port = 2000, server_num = 1\<rparr>\<rparr>\<rparr>"

theorem exit_stops_server_witness:
  "\<forall>inp :: line_input. \<exists>es. main_step (inp\<lparr>li_os := (li_os inp)\<lparr>os_kill := \<lambda>p s. True\<rparr>, li_signal := None,
     li_read := Read_Bytes (''exit'' @ [LF])\<rparr>) ex_serving = Some (Shell_Exit 0 es) \<and> Kill 9 15 \<in> set es"
proof
  fix inp :: line_input
  let ?i = "inp\<lparr>li_os := (li_os inp)\<lparr>os_kill := \<lambda>p s. True\<rparr>\<rparr>"
  have "session_ok ex_serving" using start_session_ok
    by (simp add: session_ok_def start_session_def shell_ok_def ex_serving_def)
  moreover have "in_use (sh_jobs (ss_shell ex_serving)) = 0" by (simp add: start_shell_def table_ok_init(2) ex_serving_def)
  ultimately show "\<exists>es. main_step (inp\<lparr>li_os := (li_os inp)\<lparr>os_kill := \<lambda>p s. True\<rparr>, li_signal := None,
     li_read := Read_Bytes (''exit'' @ [LF])\<rparr>) ex_serving = Some (Shell_Exit 0 es) \<and> Kill 9 15 \<in> set es"
    using exit_stops_server[of ex_serving "\<lparr>server_pid = 9, server_port = 2000, server_num = 1\<rparr>" ?i]
    by (simp add: start_session_def ex_serving_def)
qed

text \<open>
  C20: Control-C while a chat waits in select leads back to the shell, whatever has been said so
  far: a newline is printed, the connection closed, and the shell is what it was but for the
  flag of the handler. At any other time in the pass, the loop ends behind it and \<open>exit\<close>
  takes the whole shell down with status 0.
\<close>

theorem chat_left_by_control_c:
  assumes "asks_to_join ts" and "connect_to_server (os_net os) = (fd, [])" and "fd \<noteq> -1"
    and "client_loop ins (client_start fd (os_chat_input os) (os_chat_writes os) []) = Some (Chatting c)"
    and "\<not> disconnect_client c"
  shows "(\<not> has_unread_data c \<longrightarrow>
      execute_command (os\<lparr>os_chat_selects := ins @ [(True, Interrupted)]\<rparr>) pr sh ts =
        Some (Returns 0 (sh\<lparr>sh_disconnect := True\<rparr>) (sc_trace c @ display_message [LF] @ [Close_Fd fd]))) \<and>
    (\<forall>sel c' pass. client_pass True sel c = Some (Chatting c') \<longrightarrow>
      execute_command (os\<lparr>os_chat_selects := ins @ [(True, sel), pass]\<rparr>) pr sh ts =
        Some (Exits 0 (sc_trace c' @ [Close_Fd fd])))"
  using control_c_returns[OF assms(1), of "os\<lparr>os_chat_selects := _\<rparr>" fd ins c] assms(2-5) by simp

definition ex_calls :: net_calls where
  "ex_calls = \<lparr>malloc_ok = True, socket_fd = 7, setsockopt_status = 0, bind_status = 0, listen_status = 0,
     getaddrinfo_status = 0, connect_status = 0\<rparr>"

text \<open>A line is typed; then control-C interrupts select, or comes with a message of the server.\<close>

theorem chat_left_by_control_c_witness:
  "\<forall>os :: os_replies. \<forall>pr pass.
     let chat = (\<lambda>ins. execute_command (os\<lparr>os_net := ex_calls, os_chat_input := ''hi'' @ [LF], os_chat_writes := [],
         os_chat_selects := type_pass # ins\<rparr>) pr start_shell [''start-client'', ''2000'', ''localhost'']) in
     chat [(True, Interrupted)] =
       Some (Returns 0 (start_shell\<lparr>sh_disconnect := True\<rparr>) [Send 7 (''hi'' @ [CR, LF]), Out [LF], Close_Fd 7]) \<and>
     chat [(True, Ready_Fds False (Some (Read_Bytes (''client2 yo'' @ [CR, LF])))), pass] =
       Some (Exits 0 [Send 7 (''hi'' @ [CR, LF]), Out (''client2: yo'' @ [LF]), Close_Fd 7])"
  (is "\<forall>os pr pass. ?goal os pr pass")
proof (intro allI)
  fix os :: os_replies and pr and pass :: "bool \<times> client_select"
  let ?os = "os\<lparr>os_net := ex_calls, os_chat_input := ''hi'' @ [LF], os_chat_writes := []\<rparr>"
  let ?sel = "Ready_Fds False (Some (Read_Bytes (''client2 yo'' @ [CR, LF])))"
  have "atoi ''2000'' = 2000" by code_simp
  then have a: "asks_to_join [''start-client'', ''2000'', ''localhost'']"
    by (simp add: asks_to_join_def valid_port_def pipe_token_def)
  let ?c = "sent ''hi'' [] False (client_start 7 (''hi'' @ [LF]) [] [])" and ?msg = "''client2 yo'' @ [CR, LF]"
  let ?c1 = "?c\<lparr>disconnect_client := True\<rparr>"
  have c: "client_loop [type_pass] (client_start 7 (''hi'' @ [LF]) [] []) = Some (Chatting ?c)"
    using pass_line[of "client_start 7 (''hi'' @ [LF]) [] []" "''hi''" "[]"] by (simp add: client_start_def)
  have tr: "\<not> has_unread_data ?c" "\<not> disconnect_client ?c" "sc_trace ?c = [Send 7 (''hi'' @ [CR, LF])]"
    by (simp_all add: sent_def client_start_def)
  have "client_ok ?c1" "client_view ?c1 = []" "sc_inbuf ?c1 = 0" "sc_trace ?c1 = [Send 7 (''hi'' @ [CR, LF])]"
    by (simp_all add: sent_def client_start_def client_ok_def buffer_ok_def buffer_view_def)
  moreover have "messages ?msg = ([''client2 yo''], [])" "cstr ''client2 yo'' = ''client2 yo''" by code_simp+
  ultimately obtain c' where c': "read_server (Read_Bytes ?msg) ?c1 = Chatting c'"
      "sc_trace c' = [Send 7 (''hi'' @ [CR, LF]), Out (''client2: yo'' @ [LF])]"
    using read_server_spec[of ?c1 ?msg] by (auto simp: shown_message_text)
  have p: "client_pass True (Ready_Fds False (Some (Read_Bytes ?msg))) ?c = Some (Chatting c')"
    using c'(1) tr by (simp add: client_pass_def client_signal_handler_def socket_phase_def)
  have "connect_to_server (os_net ?os) = (7, [])" by (simp add: connect_to_server_def ex_calls_def)
  then have h: "(\<not> has_unread_data ?c \<longrightarrow>
      execute_command (?os\<lparr>os_chat_selects := [type_pass] @ [(True, Interrupted)]\<rparr>) pr start_shell [''start-client'', ''2000'', ''localhost''] =
        Some (Returns 0 (start_shell\<lparr>sh_disconnect := True\<rparr>) (sc_trace ?c @ display_message [LF] @ [Close_Fd 7]))) \<and>
    (\<forall>sel c' pass. client_pass True sel ?c = Some (Chatting c') \<longrightarrow>
      execute_command (?os\<lparr>os_chat_selects := [type_pass] @ [(True, sel), pass]\<rparr>) pr start_shell [''start-client'', ''2000'', ''localhost''] =
        Some (Exits 0 (sc_trace c' @ [Close_Fd 7])))"
    by (intro chat_left_by_control_c[OF a]) (use c tr in simp_all)
  show "?goal os pr pass"
    using conjunct1[OF h] p[THEN conjunct2[OF h, rule_format], of pass] tr c'(2)
    by (simp add: display_message_def Let_def)
qed

section \<open>Variables and expansion\<close>

text \<open>
  C21: Assigning a variable is a map update, when no stored name is a proper extension of the
  name that is assigned.
\<close>
theorem set_is_map_update:
  assumes "no_longer_name k vs"
  shows "set_variable k v vs = (0, snd (set_variable k v vs)) \<and>
    var_map (snd (set_variable k v vs)) = (var_map vs)(k \<mapsto> v) \<and>
    (\<forall>j. find_val_with_key j (snd (set_variable k v vs)) = (if j = k then v else find_val_with_key j vs)) \<and>
    (\<forall>j. find_val_with_key j vs = (case var_map vs j of Some w \<Rightarrow> w | None \<Rightarrow> []))"
  using set_variable_map[OF assms] set_variable_ret[of k v vs]
  by (simp add: prod_eq_iff find_val_is_map split: option.split)

theorem set_is_map_update_witness:
  "let vs = snd (set_variable ''ab'' ''2'' [\<lparr>key = ''a'', val = ''1''\<rparr>]) in
   var_map vs = [''a'' \<mapsto> ''1'', ''ab'' \<mapsto> ''2''] \<and>
   find_val_with_key ''ab'' vs = ''2'' \<and> find_val_with_key ''a'' vs = ''1'' \<and> find_val_with_key ''abc'' vs = []"
  using set_is_map_update[of "''ab''" "[\<lparr>key = ''a'', val = ''1''\<rparr>]" "''2''"]
  by (simp add: no_longer_name_def var_map_def Let_def strncmp_eq_def)

text \<open>
  C22: Assigning a name that is a proper prefix of a stored one overwrites the value of the
  first such longer name instead of creating the variable.
\<close>
theorem set_overwrites_longer_name:
  assumes "vs = pre @ n # post" and "\<forall>m\<in>set pre. take (length k) (key m) \<noteq> k"
    and "take (length k) (key n) = k"
  shows "set_variable k v vs = (0, pre @ n\<lparr>val := v\<rparr> # post)"
  by (rule set_variable_hits_longer[OF assms])

theorem set_overwrites_longer_name_witness:
  "set_variable ''a'' ''2'' [\<lparr>key = ''ab'', val = ''1''\<rparr>] = (0, [\<lparr>key = ''ab'', val = ''2''\<rparr>])"
  using set_overwrites_longer_name[of _ "[]" "\<lparr>key = ''ab'', val = ''1''\<rparr>" "[]" "''a''" "''2''"] by simp

text \<open>
  C23: Expansion: each dollar sign starts a name that ends at the next one or at the end of the
  text; names are replaced by their values. When pieces and result fit, the code computes
  exactly this.
\<close>
theorem expansion_correct:
  assumes "vars_ok vs" and "pieces_ok s"
    and "length (expand_ref (\<lambda>k. find_val_with_key k vs) s) \<le> MAX_STR_LEN"
  shows "expand_variables vs (Some s) = Some (expand_ref (\<lambda>k. find_val_with_key k vs) s)"
  using vars.expansion_fits[OF assms] by (simp add: expand_variables_def)

theorem expansion_correct_witness:
  "expand_variables [\<lparr>key = ''x'', val = ''12''\<rparr>] (Some ''a$x'') = Some ''a12''"
  using expansion_correct[of "[\<lparr>key = ''x'', val = ''12''\<rparr>]" "''a$x''"]
  by (simp add: vars_ok_def valid_name_def isalpha_def pieces_ok_def expand_ref_def lone_dollar_def strncmp_eq_def Let_def)

text \<open>
  C24: Three references to a variable whose value has more than 64 and fewer than 128 bytes
  write past the end of the expansion buffer: the remaining-space counter, a size_t, wraps.
\<close>
theorem expansion_overflow:
  assumes "dollar \<notin> set a" "length a < MAX_STR_LEN" and "64 < length (find_val_with_key a vs)"
    "length (find_val_with_key a vs) < MAX_STR_LEN" and "a \<noteq> []"
  shows "expand_variables vs (Some (dollar # a @ dollar # a @ dollar # a)) = fault"
  using expand_three_overflows[OF assms(1,2), of "\<lambda>k. find_val_with_key k vs"] assms(3-5)
  by (simp add: expand_variables_def)

theorem expansion_overflow_witness:
  "expand_variables [\<lparr>key = ''x'', val = replicate 100 CHR ''v''\<rparr>] (Some ''$x$x$x'') = fault"
  using expansion_overflow[of "''x''" "[\<lparr>key = ''x'', val = replicate 100 CHR ''v''\<rparr>]"]
  by (simp add: strncmp_eq_def)

section \<open>Background jobs\<close>

text \<open>
  C25: With a free slot left, reporting finished jobs is defined and announces each slot that
  was reaped or killed once; the table is emptied when nothing runs any more, and otherwise
  only those slots change.
\<close>
theorem done_jobs_reported:
  assumes "table_ok j" and "in_use j < MAX_PROCESS"
  shows "\<exists>j' es. display_done_process ps j = Some (j', es) \<and> table_ok j' \<and>
     announces j {k. k < in_use j \<and> leaves ps j k} es \<and>
     (if \<forall>k < in_use j. leaves ps j k \<or> available_indices j ! k \<noteq> 0 then in_use j' = 0
      else in_use j' = in_use j \<and> (\<forall>k < in_use j. slot_after (leaves ps j k) j k j'))"
  by (rule display_done_total[OF assms])

abbreviation empty_table :: job_table where
  "empty_table \<equiv> initialize_available_indices zero_table"

lemma empty_table_ok: "table_ok empty_table" "in_use empty_table = 0"
  by (rule table_ok_init, simp add: zero_table_def) (rule table_ok_init(2))

theorem done_jobs_reported_witness:
  "\<exists>j j' es. add_bg_process 7 ''sleep 5'' 0 empty_table = Some (0, j) \<and> display_done_process [7] j = Some (j', es) \<and>
    table_ok j'"
proof -
  obtain j b where j: "add_bg_process 7 ''sleep 5'' 0 empty_table = Some (0, j)" "table_ok j"
      "entries j = entries empty_table @ [b]"
    using add_bg_process_spot[OF empty_table_ok(1), of 7 "''sleep 5''"] empty_table_ok(2) by auto
  have "in_use j < MAX_PROCESS"
    using length_entries[OF j(2)] length_entries[OF empty_table_ok(1)] empty_table_ok(2) j(3) by simp
  then show ?thesis using done_jobs_reported[OF j(2), of "[7]"] j(1) by blast
qed

text \<open>
  C26: Background jobs get the numbers that follow the jobs already in the table, in the order
  in which they are started, as long as there is room.
\<close>
theorem jobs_numbered:
  assumes "table_ok j" and "length (entries j) + length pcs \<le> MAX_PROCESS"
  shows "\<exists>j' bs. foldM register_entry pcs j = Some j' \<and> table_ok j' \<and> entries j' = entries j @ bs \<and>
    map (\<lambda>b. nat (job_num b)) bs = map Suc [length (entries j)..<length (entries j) + length pcs]"
  by (rule registry.register_many[OF assms])

theorem jobs_numbered_witness:
  "\<exists>j' bs. foldM register_entry [(7, ''a''), (8, ''b'')] empty_table = Some j' \<and> table_ok j' \<and>
    entries j' = bs \<and> map (\<lambda>b. nat (job_num b)) bs = [1, 2]"
  using jobs_numbered[OF empty_table_ok(1), of "[(7, ''a''), (8, ''b'')]"] empty_table_ok
  by (auto simp: length_entries upt_rec entries_def)

text \<open>
  With all 1000 slots in use, the next line is undefined behaviour whatever it says: the
  report of finished jobs reads past the end of the table, before the check for too many
  background processes.
\<close>
lemma full_table_faults:
  assumes "table_ok (sh_jobs (ss_shell s))" and "in_use (sh_jobs (ss_shell s)) = MAX_PROCESS"
    and "get_input (li_read inp) (li_tty inp) \<noteq> Input_Exit" and "li_signal inp \<noteq> Some SIGTERM"
  shows "main_step inp s = fault"
  by (rule main_step_full[OF assms])

definition full_table :: job_table where
  "full_table = \<lparr>bg_processes = map (\<lambda>i. \<lparr>pid = 7, job_num = int i + 1, command = ''a'', is_running = 1\<rparr>) [0..<MAX_PROCESS],
     available_indices = replicate MAX_PROCESS 0\<rparr>"

lemma full_table_ok: "table_ok full_table" "in_use full_table = MAX_PROCESS"
proof -
  have "takeWhile (\<lambda>a. a \<noteq> (1::int)) (replicate n 0) = replicate n 0" for n
    by (simp add: takeWhile_all_iff)
  then show i: "in_use full_table = MAX_PROCESS"
    unfolding in_use_def full_table_def by (simp only: job_table.simps length_replicate)
  have "length (bg_processes full_table) = MAX_PROCESS" "length (available_indices full_table) = MAX_PROCESS"
    by (simp_all only: full_table_def job_table.simps length_map length_upt length_replicate)
  moreover have "available_indices full_table ! k = 0" if "k < MAX_PROCESS" for k
    using that by (simp only: full_table_def job_table.simps nth_replicate)
  moreover have "job_num (bg_processes full_table ! k) = int k + 1" if "k < MAX_PROCESS" for k
    using that by (simp add: full_table_def nth_map del: upt_Suc)
  ultimately show "table_ok full_table" unfolding table_ok_def i by auto
qed

lemma full_table_faults_example:
  "\<forall>i :: line_input. main_step (i\<lparr>li_signal := None, li_read := Read_Bytes [LF]\<rparr>)
    (start_session\<lparr>ss_shell := start_shell\<lparr>sh_jobs := full_table\<rparr>\<rparr>) = fault"
  by (intro allI full_table_faults) (simp_all add: full_table_ok)

text \<open>
  C27: The command line of a background job is recorded as its words joined by blanks, when
  they fit in 128 bytes.
\<close>
theorem job_text_fits:
  assumes "length (join '' '' ts) \<le> MAX_STR_LEN" and "\<forall>t\<in>set ts. t \<noteq> []"
  shows "bg_command (int MAX_STR_LEN) [] ts = Some (join '' '' ts)"
  by (rule bg_command_fits[OF assms])

theorem job_text_fits_witness: "bg_command 128 [] [''sleep'', ''5''] = Some ''sleep 5''"
  using job_text_fits[of "[''sleep'', ''5'']"] by simp

text \<open>
  When two words fill the 128 bytes between them, which takes an expanded variable, the
  same loop writes past the end of \<open>command\<close>: the blanks are not counted.
\<close>
lemma job_text_overflow:
  assumes "length t < MAX_STR_LEN" and "MAX_STR_LEN \<le> length t + length u"
  shows "bg_command (int MAX_STR_LEN) [] (t # u # us) = fault"
  by (rule bg_command_overflow[OF assms])

lemma job_text_overflow_example:
  "bg_command 128 [] [replicate 100 CHR ''a'', replicate 28 CHR ''b''] = fault"
  using job_text_overflow[of "replicate 100 CHR ''a''" "replicate 28 CHR ''b''" "[]"] by simp

text \<open>
  Expanded tokens are kept for the life of the shell: once the array of 256 slots is too
  small for what earlier lines used and this line needs, expanding the line writes past it.
\<close>
lemma expanded_tokens_overflow:
  assumes "n \<le> length slots" and "length slots < n + needs_slot ts"
  shows "expand_tokens vs ts slots n = fault"
  by (rule Mysh_Correct.expand_tokens_overflow[OF assms])

lemma expanded_tokens_overflow_example:
  "expand_tokens [] [''$x''] (replicate EXPANDED_SIZE None) EXPANDED_SIZE = fault"
  by (rule expanded_tokens_overflow) (simp_all add: needs_slot_def)

text \<open>
  A line whose bars need more than 256 bytes once they are spaced out overruns
  \<open>temp_buffer\<close>.
\<close>
lemma bars_overflow:
  assumes "bar \<in> set s" and "2 * MAX_STR_LEN < length s + 2 * count_list s bar"
  shows "read_tokens s = fault"
  by (rule read_tokens_overflow[OF assms])

lemma count_bars: "count_list (replicate n bar) bar = n"
  by (induction n) auto

lemma bars_overflow_example: "read_tokens (replicate 86 bar) = fault"
  by (rule bars_overflow) (simp_all add: count_bars)

text \<open>
  C28: \<open>kill\<close> without a signal sends SIGTERM to the process and marks the first slot of the
  table that holds its pid as killed; nothing else changes.
\<close>
theorem kill_marks_job:
  assumes "table_ok j" and "k < in_use j" and "pid (bg_processes j ! k) = atoi t"
    and "\<forall>i < k. pid (bg_processes j ! i) \<noteq> atoi t" and "send_signal (atoi t) 15"
  shows "bn_kill send_signal vs [c, t] j =
    Some (0, j\<lparr>available_indices := (available_indices j)[k := 3]\<rparr>, [Kill (atoi t) 15])"
  using mark_killed_first[OF assms(1-3) _ assms(4), of 15 0] assms(5)
  by (simp add: bn_kill_def do_kill_def)

theorem kill_marks_job_witness:
  "bn_kill (\<lambda>p s. True) [] [''kill'', ''7''] full_table =
    Some (0, full_table\<lparr>available_indices := (available_indices full_table)[0 := 3]\<rparr>, [Kill 7 15])"
proof -
  have a: "atoi ''7'' = 7" by code_simp
  have "bg_processes full_table \<noteq> []" by (simp add: full_table_def)
  then have "pid (bg_processes full_table ! 0) = 7"
    using nth_map[of 0 "[0..<MAX_PROCESS]"] by (simp add: full_table_def del: upt_Suc)
  then show ?thesis
    using kill_marks_job[OF full_table_ok(1), of 0 "''7''" "\<lambda>p s. True" "[]" "''kill''"] a full_table_ok(2) by simp
qed

text \<open>
  C29: \<open>ps\<close> prints one line for each slot that is still running, in the order of the table: the
  first word of its command and its process number; it returns 0. Every command line of a
  running job must start with a word.
\<close>
theorem ps_lists_running:
  assumes "table_ok j" and "in_use j < MAX_PROCESS"
    and "\<forall>k < in_use j. is_running (bg_processes j ! k) = 1 \<longrightarrow>
      command (bg_processes j ! k) \<noteq> [] \<and> hd (command (bg_processes j ! k)) \<noteq> CHR '' ''"
  shows "bn_ps j = Some (0, concat (map (\<lambda>b.
      [Out (take MAX_STR_LEN (takeWhile (\<lambda>c. c \<noteq> CHR '' '') (command b) @ '' '' @ show_int (pid b))), Out [LF]])
    (filter (\<lambda>b. is_running b = 1) (take (in_use j) (bg_processes j)))))"
  using bn_ps_entries[OF assms(1,2)] assms(3) by (simp add: ps_ok_def entries_def)

text \<open>Three jobs, of which the second is done.\<close>

definition ex_jobs :: job_table where
  "ex_jobs = \<lparr>bg_processes = \<lparr>pid = 7, job_num = 1, command = ''sleep 5'', is_running = 1\<rparr> #
       \<lparr>pid = 8, job_num = 2, command = ''cat'', is_running = 0\<rparr> #
       \<lparr>pid = 9, job_num = 3, command = ''ls -l'', is_running = 1\<rparr> #
       replicate 997 \<lparr>pid = 0, job_num = 0, command = [], is_running = 0\<rparr>,
     available_indices = 0 # 2 # 0 # replicate 997 1\<rparr>"

lemma ex_jobs_ok: "table_ok ex_jobs" "in_use ex_jobs = 3"
proof -
  show i: "in_use ex_jobs = 3" by (simp add: in_use_def ex_jobs_def)
  have "available_indices ex_jobs ! k = 1" if "3 \<le> k" "k < MAX_PROCESS" for k
    using that by (simp add: ex_jobs_def nth_Cons')
  then show "table_ok ex_jobs" unfolding table_ok_def i
    by (auto simp: ex_jobs_def less_Suc_eq numeral_3_eq_3)
qed

theorem ps_lists_running_witness:
  "bn_ps ex_jobs = Some (0, [Out ''sleep 7'', Out [LF], Out ''ls 9'', Out [LF]])"
proof -
  have "show_int 7 = ''7''" "show_int 9 = ''9''" by code_simp+
  then show ?thesis using ps_lists_running[OF ex_jobs_ok(1)] ex_jobs_ok(2)
    by (auto simp: ex_jobs_def less_Suc_eq numeral_3_eq_3)
qed
section \<open>Builtins on text, files and directories\<close>

text \<open>
  C30: \<open>echo\<close> prints its arguments, each expanded, joined by single blanks and followed by a
  newline, when the arguments and the line fit in 128 bytes.
\<close>
theorem echo_prints:
  assumes "vars_ok vs"
    and "\<forall>t\<in>set args. pieces_ok t \<and> length (expand_ref (\<lambda>k. find_val_with_key k vs) t) \<le> MAX_STR_LEN"
    and "length (echo_text vs args) \<le> MAX_STR_LEN"
  shows "\<exists>es. bn_echo vs (cmd # args) = Some (0, es) \<and> stdout_of es = echo_text vs args @ [LF]"
  by (rule bn_echo_fits[OF assms])

theorem echo_prints_witness:
  "\<exists>es. bn_echo [] [''echo'', ''a'', ''b''] = Some (0, es) \<and> stdout_of es = ''a b'' @ [LF]"
proof -
  have t: "echo_text [] [''a'', ''b''] = ''a b''" using echo_text_plain[of "[''a'', ''b'']"] by simp
  show ?thesis
    using echo_prints[of "[]" "[''a'', ''b'']" "''echo''"] unfolding t
    by (simp add: pieces_ok_def expand_ref_def lone_dollar_def)
qed

text \<open>
  C31: \<open>cd\<close> goes to the components of its argument joined by single slashes, from the root when
  the argument begins with a slash, with "..." and "...." read as two and three levels up.
\<close>
theorem cd_changes_directory:
  assumes "dollar \<notin> set p" and "length (cd_target p) \<le> MAX_STR_LEN" and "go (cd_target p)"
  shows "bn_cd go vs [c, p] = Some (0, [Chdir (cd_target p)])"
  using cd_path_target[OF assms(1,2), of vs] assms(3) by (simp add: bn_cd_def)

theorem cd_changes_directory_witness:
  "bn_cd (\<lambda>p. True) [] [''cd'', ''/.../src//..../x/..''] = Some (0, [Chdir ''/../../src/../../../x/..'']) \<and>
   bn_cd (\<lambda>p. True) [] [''cd'', ''...''] = Some (0, [Chdir ''../..''])"
proof -
  have t: "cd_target ''/.../src//..../x/..'' = ''/../../src/../../../x/..''" "cd_target ''...'' = ''../..''"
    by code_simp+
  show ?thesis using cd_changes_directory[of "''/.../src//..../x/..''" "\<lambda>p. True" "[]" "''cd''"]
      cd_changes_directory[of "''...''" "\<lambda>p. True" "[]" "''cd''"] unfolding t by simp
qed

text \<open>
  C32: \<open>cat\<close> reproduces a file without NUL bytes whose lines, as fgets delivers them, have at
  most 128 bytes.
\<close>
theorem cat_reproduces:
  assumes "dollar \<notin> set t" and "os_read (take BUFFERSIZE t) = Some contents" and "NUL \<notin> set contents"
    and "\<forall>l\<in>set (fgets_all BUFFERSIZE contents). length l \<le> MAX_STR_LEN"
  shows "\<exists>es. bn_cat os_read rs vs [c, t] = Some (0, es) \<and> stdout_of es = contents"
proof -
  have "file_path vs t = Some (take BUFFERSIZE t)" using assms(1) by (simp add: file_path_def)
  then show ?thesis using bn_cat_file[of vs t _ os_read contents rs c] assms(2) cat_complete[OF assms(3,4)] by auto
qed

theorem cat_reproduces_witness:
  "\<exists>es. bn_cat (\<lambda>p. Some ''hi'') [] [] [''cat'', ''f''] = Some (0, es) \<and> stdout_of es = ''hi''"
proof -
  have "fgets_all BUFFERSIZE ''hi'' = [''hi'']"
    by (subst fgets_all.simps, simp add: fgets_def) (subst fgets_all.simps, simp add: fgets_def)
  then show ?thesis by (intro cat_reproduces) simp_all
qed

text \<open>
  C33: \<open>wc\<close> prints the number of maximal runs of non-blank characters, of characters and of
  newlines of a file of fewer than \<open>2 ^ 31\<close> bytes; with more, a counter of the C program
  overflows.
\<close>
theorem wc_counts_right:
  assumes "dollar \<notin> set t" and "os_read (take BUFFERSIZE t) = Some s"
  shows "if int (length s) < 2 ^ 31
    then \<exists>es. bn_wc os_read sin vs [c, t] = Some (0, es) \<and> stdout_of es =
      ''word count '' @ show_int (int (length (strtok_all blanks s))) @ [LF] @
      ''character count '' @ show_int (int (length s)) @ [LF] @
      ''newline count '' @ show_int (int (count_list s LF)) @ [LF]
    else bn_wc os_read sin vs [c, t] = fault"
proof -
  have "file_path vs t = Some (take BUFFERSIZE t)" using assms(1) by (simp add: file_path_def)
  then show ?thesis using assms(2) wc_report_shown[of s] wc_read_overflow[of s] by (auto simp: bn_wc_def)
qed

theorem wc_counts_right_witness:
  "\<exists>es. bn_wc (\<lambda>p. Some (''ab c'' @ [LF, LF] @ ''d'')) None [] [''wc'', ''f''] = Some (0, es) \<and>
    stdout_of es = ''word count 3'' @ [LF] @ ''character count 7'' @ [LF] @ ''newline count 2'' @ [LF]"
proof -
  have "strtok_all blanks (''ab c'' @ [LF, LF] @ ''d'') = [''ab'', ''c'', ''d'']"
    "show_int 3 = ''3''" "show_int 7 = ''7''" "show_int 2 = ''2''" by code_simp+
  then show ?thesis
    using wc_counts_right[of "''f''" "\<lambda>p. Some (''ab c'' @ [LF, LF] @ ''d'')" _ None "[]" "''wc''"] by simp
qed

text \<open>
  C34: A recursive listing with a depth limit ends in any file system, even one with links that
  make it endless, and prints the names of the traversal that contain the search string.
\<close>
theorem recursive_listing:
  assumes "has_depth info" and "0 \<le> d" and "nat d < fuel"
  shows "\<exists>es ms. recursive_ls fuel read_dir p info d = Some es \<and>
    ls_names fuel read_dir p (has_depth info) d = Some ms \<and>
    stdout_of es = concat (map name_line (filter (matches info) ms))"
  using recursive_ls_enough_depth[OF assms, of read_dir p] recursive_ls_names[of fuel read_dir p info d] by auto

theorem recursive_listing_witness:
  "\<exists>es ms. recursive_ls 3 (\<lambda>p. Some [''a'']) ''.'' (ls_default\<lparr>has_depth := True, depth := 2\<rparr>) 2 = Some es \<and>
    ls_names 3 (\<lambda>p. Some [''a'']) ''.'' True 2 = Some ms \<and>
    stdout_of es = concat (map name_line (filter (matches (ls_default\<lparr>has_depth := True, depth := 2\<rparr>)) ms))"
  using recursive_listing[of "ls_default\<lparr>has_depth := True, depth := 2\<rparr>" 2 3 "\<lambda>p. Some [''a'']" "''.''"]
  by (simp del: recursive_ls.simps ls_names.simps)

section \<open>The chat client\<close>

text \<open>
  C35: A line typed into the chat client is sent as messages of at most 1024 bytes, in as many
  passes; joined they are the line, and the server finds exactly these messages in the bytes.
\<close>
theorem typed_line_arrives:
  assumes "typing s" and "sc_stdin s = l @ LF # rest" and "LF \<notin> set l" and "NUL \<notin> set l"
  shows "\<exists>s' es. client_loop (replicate (length (line_messages l)) type_pass) s = Some (Chatting s') \<and>
     typing s' \<and> sc_stdin s' = rest \<and> sc_trace s' = sc_trace s @ es \<and>
     messages (sent_to (sc_fd s) es) = (line_messages l, []) \<and> concat (line_messages l) = l \<and>
     (\<forall>m\<in>set (line_messages l). length m \<le> MAX_USER_MSG)"
  using type_line[OF assms] line_received[OF assms(3), of "sc_fd s"] concat_line_messages[of l] line_messages_short[of _ l]
  by blast

theorem typed_line_arrives_witness:
  "\<exists>s' es. client_loop [type_pass] (ex_chat (''hi'' @ [LF])) = Some (Chatting s') \<and>
     sc_stdin s' = [] \<and> sc_trace s' = es \<and> messages (sent_to 5 es) = ([''hi''], [])"
proof -
  have "line_messages ''hi'' = [''hi'']" by (subst line_messages.simps) simp
  then show ?thesis using typed_line_arrives[of "ex_chat (''hi'' @ [LF])" "''hi''" "[]"]
    by (auto simp: ex_chat_def client_start_def)
qed

text \<open>
  C36: When standard input ends without a newline, the client never stops by itself: it keeps
  putting the last byte back and sends one empty message in every pass.
\<close>
theorem client_never_ends:
  assumes "typing s" and "sc_stdin s = [c]" and "c \<noteq> LF" and "c \<noteq> NUL" and "has_unread_data s"
  shows "client_loop (replicate n (False, Ready_Fds False None)) s =
    Some (Chatting (s\<lparr>sc_trace := sc_trace s @ replicate n (Send (sc_fd s) [CR, LF])\<rparr>))"
  by (rule client_livelock[OF assms])

theorem client_never_ends_witness:
  "\<forall>n. \<exists>s. client_loop (replicate n (False, Ready_Fds False None)) ((ex_chat ''x'')\<lparr>has_unread_data := True\<rparr>) = Some (Chatting s) \<and>
    sc_trace s = replicate n (Send 5 [CR, LF])"
  using client_never_ends[of "(ex_chat ''x'')\<lparr>has_unread_data := True\<rparr>" "CHR ''x''"]
  by (simp add: ex_chat_def client_start_def)

text \<open>
  C37: What the chat client reads from the server is shown message by message: the first word,
  a colon, the rest and a newline, or the message as it is when it has no blank, cut to 128
  bytes. An incomplete message waits for the next read.
\<close>
theorem client_shows_messages:
  assumes "client_ok s" and "bs \<noteq> []" and "length bs \<le> BUF_SIZE - sc_inbuf s - 1"
  shows "\<exists>s'. read_server (Read_Bytes bs) s = Chatting s' \<and> client_ok s' \<and>
    client_view s' = snd (messages (client_view s @ bs)) \<and>
    sc_trace s' = sc_trace s @ map (\<lambda>m. let t = cstr m in
      Out (take MAX_STR_LEN (if CHR '' '' \<in> set t
        then takeWhile (\<lambda>c. c \<noteq> CHR '' '') t @ '': '' @ tl (dropWhile (\<lambda>c. c \<noteq> CHR '' '') t) @ [LF] else t)))
      (fst (messages (client_view s @ bs)))"
  using read_server_spec[OF assms] by (simp only: shown_message_text Let_def)

theorem client_shows_messages_witness:
  "\<exists>s'. read_server (Read_Bytes (''client1 hi all'' @ [CR, LF] @ ''hello'' @ [CR, LF] @ ''cli'')) (ex_chat []) = Chatting s' \<and>
    sc_trace s' = [Out (''client1: hi all'' @ [LF]), Out ''hello''] \<and> client_view s' = ''cli''"
proof -
  let ?bs = "''client1 hi all'' @ [CR, LF] @ ''hello'' @ [CR, LF] @ ''cli''"
  have "client_ok (ex_chat [])" "client_view (ex_chat []) = []" "sc_inbuf (ex_chat []) = 0" "sc_trace (ex_chat []) = []"
    by (simp_all add: ex_chat_def client_start_def client_ok_def buffer_ok_def buffer_view_def)
  moreover have "messages ?bs = ([''client1 hi all'', ''hello''], ''cli'')" by code_simp
  moreover have "cstr ''client1 hi all'' = ''client1 hi all''" "cstr ''hello'' = ''hello''" by code_simp+
  ultimately show ?thesis using client_shows_messages[of "ex_chat []" ?bs] by (auto simp: Let_def)
qed

text \<open>
  The line that the server makes of a name and a text is shown by the client as the name,
  a colon and the text.
\<close>
lemma chat_line_shown:
  assumes "chat_text name m = Some t" and "CHR '' '' \<notin> set name" and "length name < MAX_NAME"
  shows "take MAX_STR_LEN (shown_message t) = take MAX_STR_LEN (name @ '': '' @ m @ [LF])"
  using assms(1) chat_text_eq[OF assms(3), of m] shown_chat_line[OF assms(2,3), of m] by simp

lemma chat_line_shown_example:
  "\<exists>t. chat_text ''client1'' ''hi'' = Some t \<and> take MAX_STR_LEN (shown_message t) = ''client1: hi'' @ [LF]"
proof -
  have t: "chat_text ''client1'' ''hi'' = Some (chat_line ''client1'' ''hi'')" by (rule chat_text_eq) simp
  show ?thesis using chat_line_shown[OF t] t by simp
qed

text \<open>
  C38: \<open>send\<close> connects, sends its words joined by blanks, cut to 1024 bytes and ended by a network
  newline, in one write, and closes the socket; the message buffer is never overrun.
\<close>
theorem send_message:
  assumes "3 < length tokens" and "valid_port (atoi (tokens ! 1))"
    and "connect_to_server os = (fd, [])" and "fd \<noteq> -1" and "n \<ge> BUF_SIZE"
  shows "bn_send os (Wrote n) tokens =
    Some (0, [Send fd (take MAX_USER_MSG (join '' '' (drop 3 tokens)) @ [CR, LF]), Close_Fd fd])"
  by (rule bn_send_sends[OF assms])

definition ex_net :: net_calls where
  "ex_net = \<lparr>malloc_ok = True, socket_fd = 7, setsockopt_status = 0, bind_status = 0, listen_status = 0,
     getaddrinfo_status = 0, connect_status = 0\<rparr>"

theorem send_message_witness:
  "bn_send ex_net (Wrote 2000) [''send'', ''2000'', ''localhost'', ''hi'', ''all''] =
    Some (0, [Send 7 (''hi all'' @ [CR, LF]), Close_Fd 7])"
proof -
  have p: "atoi ''2000'' = 2000" by code_simp
  have c: "connect_to_server ex_net = (7, [])" by (simp add: connect_to_server_def ex_net_def)
  show ?thesis
    using send_message[of "[''send'', ''2000'', ''localhost'', ''hi'', ''all'']" ex_net 7 2000] p c
    by (simp add: valid_port_def)
qed

section \<open>The list of clients\<close>

text \<open>
  C39: Removing clients from the linked list, in any order, is defined and leaves exactly the
  others, with their contents and in their order.
\<close>
theorem clients_removed:
  assumes "rep s xs" and "distinct ps" and "set ps \<subseteq> fst ` set xs"
  shows "\<exists>s'. foldM leave_list ps s = Some s' \<and> rep s' (filter (\<lambda>x. fst x \<notin> set ps) xs)"
  by (rule clients.leave_all[OF assms])

theorem clients_removed_witness:
  "\<exists>s'. foldM leave_list [2] (1, sv_heap (ex_server2 [])) = Some s' \<and> rep s' [(1, ex_client 4)]"
  using clients_removed[of "(1, sv_heap (ex_server2 []))" "[(1, ex_client 4), (2, ex_client 5)]" "[2]"]
    ex_server2_ok[of "[]"]
  by (simp add: server_ok_def ex_server2_def)

text \<open>
  \<open>clean_exit\<close> closes every client's descriptor and the listening one, and frees every node
  once.
\<close>
lemma clean_exit_closes_all:
  assumes "server_ok l s xs"
  shows "\<exists>h. clean_exit l s = Some (h, map Close_Fd (fds xs @ [l])) \<and> rep (NULL, h) []"
  by (rule clean_exit_closes[OF assms])

lemma clean_exit_closes_all_example:
  "\<exists>h. clean_exit 3 (ex_server2 []) = Some (h, [Close_Fd 4, Close_Fd 5, Close_Fd 3])"
  using clean_exit_closes_all[OF ex_server2_ok[of "[]"]] by (auto simp: ex_client_ok)

text \<open>
  C40: When the write to the sender of a message finds the connection gone and the sender is the
  first client, the server frees the sender's node and then uses it.
\<close>
theorem sender_used_after_free:
  assumes "server_ok l s ((a, c) # zs)" and "username c = Some name" and "m \<noteq> connected_command"
    and "sv_writes s = Write_Error e # ws" and "e = EPIPE \<or> e = ECONNRESET"
  shows "handle_message a m s = fault"
  by (rule handle_message_fault[OF assms])

theorem sender_used_after_free_witness:
  "handle_message 1 ''hi'' (ex_server [Write_Error EPIPE]) = fault"
  using sender_used_after_free[of 3 "ex_server [Write_Error EPIPE]" 1 "ex_client 4" "[]" "''client1''" "''hi''" EPIPE "[]"]
    ex_server_ok[of "[Write_Error EPIPE]"]
  by (simp add: ex_client_ok connected_command_def ex_server_def)

text \<open>
  Another destination whose connection is gone is removed, closed and taken out of the
  descriptor set, but it still counts as connected.
\<close>
lemma lost_client_still_counted:
  assumes "server_ok l s (ys @ (b, d) # zs)"
    and "(a, c) \<in> set (ys @ zs)" "username c = Some name" and "length t + 2 \<le> BUF_SIZE"
    and "sv_writes s = Write_Error e # ws" "e = EPIPE \<or> e = ECONNRESET"
  shows "\<exists>s'. broadcast_step a t b s = Some (hd_ptr zs NULL, s') \<and>
    rep (sv_clients s', sv_heap s') (ys @ zs) \<and> all_fds s' = all_fds s - {sock_fd d} \<and>
    client_connected s' = int (length (ys @ zs)) + 1"
  by (rule broadcast_step_disconnect[OF assms])

lemma lost_client_still_counted_example:
  "\<exists>s'. broadcast_step 1 ''x'' 2 (ex_server2 [Write_Error EPIPE]) = Some (NULL, s') \<and>
    rep (sv_clients s', sv_heap s') [(1, ex_client 4)] \<and> client_connected s' = 2"
  using lost_client_still_counted[of 3 "ex_server2 [Write_Error EPIPE]" "[(1, ex_client 4)]" 2 "ex_client 5" "[]"
      1 "ex_client 4" "''client1''" "''x''" EPIPE "[]"] ex_server2_ok[of "[Write_Error EPIPE]"]
  by (auto simp: ex_client_ok ex_server2_def)

text \<open>
  Closing a running server sends SIGTERM to it once: the globals are reset, and closing
  again does nothing.
\<close>
lemma server_closed_once:
  assumes "server_num g > 0" and "server_pid g > 0" and "send_signal (server_pid g) 15 \<noteq> -1"
  shows "\<exists>es. bn_close_server send_signal g = (0, no_server, Kill (server_pid g) 15 # es) \<and>
    bn_close_server send_signal no_server = (0, no_server, [])"
  using assms by (simp add: bn_close_server_def cleanup_server_def no_server_def)

lemma server_closed_once_example:
  "\<exists>es. bn_close_server (\<lambda>p s. 0) \<lparr>server_pid = 9, server_port = 2000, server_num = 1\<rparr> =
    (0, no_server, Kill 9 15 # es) \<and> bn_close_server (\<lambda>p s. 0) no_server = (0, no_server, [])"
  using server_closed_once[of "\<lparr>server_pid = 9, server_port = 2000, server_num = 1\<rparr>" "\<lambda>p s. 0"] by simp

text \<open>
  Every outcome of a read into a receive buffer: the buffer keeps its size and at least one
  free byte, the bytes go behind those in use, and the result tells a closed connection, a
  complete message and an incomplete one apart.
\<close>
lemma read_outcomes:
  assumes "buffer_ok (buf, inbuf)" and "read_from_socket reply buf inbuf = (r, buf', inbuf')"
  shows "buffer_ok (buf', inbuf') \<and>
    (case reply of
       Read_Error \<Rightarrow> r = -1 \<and> buf' = buf \<and> inbuf' = inbuf
     | Read_Bytes offered \<Rightarrow>
         let bs = take (BUF_SIZE - inbuf - 1) offered in
         take inbuf' buf' = take inbuf buf @ bs \<and> inbuf' = inbuf + length bs \<and>
         r = (if bs = [] then 1 else if split_crlf (take inbuf buf @ bs) = None then 2 else 0))"
  by (rule read_from_socket_cases[OF assms])

lemma read_outcomes_example:
  "\<exists>r buf' inbuf'. read_from_socket (Read_Bytes ''x'') (replicate BUF_SIZE NUL) (BUF_SIZE - 1) = (r, buf', inbuf') \<and>
    r = 1 \<and> buffer_ok (buf', inbuf')"
proof -
  obtain r buf' inbuf' where rd: "read_from_socket (Read_Bytes ''x'') (replicate BUF_SIZE NUL) (BUF_SIZE - 1) = (r, buf', inbuf')"
    by (metis prod.exhaust)
  have "buffer_ok (replicate BUF_SIZE NUL, BUF_SIZE - 1)" by (simp add: buffer_ok_def)
  from read_outcomes[OF this rd] rd show ?thesis by (simp split del: if_split) metis
qed

end
